(* ===== verification/Prelude.thy ===== *)
theory Prelude
  imports Main "HOL-Library.Word" "HOL-Library.Monad_Syntax"
begin

text \<open>
  Types, collections and generic lemmas that every component of the development shares.

  A C function that returns normally is a function into \<open>'a option\<close>: \<open>Some\<close> is a
  normal return (error codes, \<open>false\<close> and \<open>NULL\<close> included, which are ordinary
  values), \<open>None\<close> means that the code has no normal return at that point: it
  dereferences \<open>NULL\<close> or a freed block, fails an assertion, or never leaves a loop.
  Machine integers keep their width; \<open>size_t\<close> and pointers are those of the LP64
  platforms the repository builds for.
\<close>

unbundle bit_operations_syntax

type_synonym byte = "8 word"
type_synonym u8 = "8 word"
type_synonym u16 = "16 word"
type_synonym u32 = "32 word"
type_synonym u64 = "64 word"

named_theorems msgpack_defs \<open>definitions of the MessagePack serializer's leaves\<close>
named_theorems heap_simps \<open>evaluation rules for the C heap\<close>

subsection \<open>Options as C control flow\<close>

definition guard_c :: "bool \<Rightarrow> unit option" where
  "guard_c b = (if b then Some () else None)"

lemma guard_c_simps [simp]: "guard_c True = Some ()" "guard_c False = None"
  by (simp_all add: guard_c_def)

lemma guard_c_eq_Some [simp]: "guard_c b = Some u \<longleftrightarrow> b"
  by (simp add: guard_c_def)

lemma bind_Some_iff: "Option.bind m f = Some y \<longleftrightarrow> (\<exists>x. m = Some x \<and> f x = Some y)"
  by (cases m) auto

lemma bind_None_iff: "Option.bind m f = None \<longleftrightarrow> m = None \<or> (\<exists>x. m = Some x \<and> f x = None)"
  by (cases m) auto

subsection \<open>Words\<close>

lemma word_cases_1bit: "(w :: 1 word) = 0 \<or> w = 1"
  by (cases w) (auto simp: less_2_cases_iff)

lemma unat_ucast_up_id:
  assumes "LENGTH('a::len) \<le> LENGTH('b::len)"
  shows "unat (ucast (w :: 'a word) :: 'b word) = unat w"
proof -
  have "unat w < 2 ^ LENGTH('a)" by simp
  also have "\<dots> \<le> 2 ^ LENGTH('b)" using assms by simp
  finally show ?thesis by (simp add: unsigned_ucast_eq take_bit_nat_eq_self)
qed

lemma ucast_down_up_id:
  fixes w :: "'a::len word"
  assumes "unat w < 2 ^ LENGTH('b::len)"
  shows "ucast (ucast w :: 'b word) = w"
proof (rule unsigned_word_eqI [where 'a = nat])
  show "unat (ucast (ucast w :: 'b word) :: 'a word) = unat w"
    using assms by (simp add: unsigned_ucast_eq unsigned_take_bit_eq take_bit_nat_eq_self)
qed

lemma sint_ucast_down:
  fixes w :: "'a::len word"
  assumes "LENGTH('b::len) \<le> LENGTH('a)"
  shows "sint (ucast w :: 'b word) = signed_take_bit (LENGTH('b) - 1) (sint w)"
  using assms
  by transfer (rule bit_eqI, auto simp: bit_simps min_def not_le)

lemma scast_down_up_id:
  fixes w :: "'a::len word"
  assumes "- (2 ^ (LENGTH('b::len) - 1)) \<le> sint w" "sint w < 2 ^ (LENGTH('b) - 1)"
    "LENGTH('b) \<le> LENGTH('a)"
  shows "scast (ucast w :: 'b word) = w"
proof (rule signed_word_eqI [where 'a = int])
  have "sint (scast (ucast w :: 'b word) :: 'a word) = sint (ucast w :: 'b word)"
    using assms(3) by (simp add: sint_up_scast is_up)
  also have "\<dots> = sint w"
    using assms by (simp add: sint_ucast_down signed_take_bit_int_eq_self)
  finally show "sint (scast (ucast w :: 'b word) :: 'a word) = sint w" .
qed

lemma sint_uint_cases:
  fixes w :: "'a::len word"
  obtains (nonneg) "0 \<le> sint w" "sint w = uint w" "uint w < 2 ^ (LENGTH('a) - 1)"
  | (neg) "sint w < 0" "sint w = uint w - 2 ^ LENGTH('a)" "2 ^ (LENGTH('a) - 1) \<le> uint w"
proof -
  define n where "n = LENGTH('a) - 1"
  have L: "LENGTH('a) = Suc n" by (simp add: n_def)
  have lt: "uint w < 2 * 2 ^ n" and ge: "0 \<le> uint w"
    using uint_lt2p [of w] by (simp_all add: L)
  have s: "sint w = (uint w + 2 ^ n) mod (2 * 2 ^ n) - 2 ^ n"
    by (simp add: sint_uint signed_take_bit_eq_take_bit_shift take_bit_eq_mod L)
  show thesis
  proof (cases "uint w < 2 ^ n")
    case True
    then have "(uint w + 2 ^ n) mod (2 * 2 ^ n) = uint w + 2 ^ n"
      using ge by (simp add: mod_pos_pos_trivial)
    with True s ge show thesis by (intro nonneg) (simp_all add: L)
  next
    case False
    have "(uint w + 2 ^ n) mod (2 * 2 ^ n) = (uint w - 2 ^ n + 2 * 2 ^ n) mod (2 * 2 ^ n)"
      by (simp add: algebra_simps)
    also have "\<dots> = (uint w - 2 ^ n) mod (2 * 2 ^ n)"
      by (rule mod_add_self2)
    also have "\<dots> = uint w - 2 ^ n"
      using False lt by (simp add: mod_pos_pos_trivial)
    finally show thesis using s False lt by (intro neg) (simp_all add: L)
  qed
qed
lemma ucast_down_up_uint:
  fixes d :: "'a::len word"
  assumes "uint d < 2 ^ LENGTH('b::len)"
  shows "ucast (ucast d :: 'b word) = d"
proof (rule unsigned_word_eqI [where 'a = int])
  show "uint (ucast (ucast d :: 'b word) :: 'a word) = uint d"
    using assms by (simp add: unsigned_ucast_eq unsigned_take_bit_eq take_bit_int_eq_self)
qed

lemma uint_ucast_down:
  fixes d :: "'a::len word"
  assumes "uint d < 2 ^ LENGTH('b::len)"
  shows "uint (ucast d :: 'b word) = uint d"
  using assms by (simp add: unsigned_ucast_eq unsigned_take_bit_eq take_bit_int_eq_self)

lemma uint_not_less_neg [simp]: "\<not> uint (w :: 'a::len word) < - numeral k"
  by (simp add: not_less order_trans [of _ 0])

lemma uint_of_nat_less: "n < 2 ^ LENGTH('a) \<Longrightarrow> uint (of_nat n :: 'a::len word) = int n"
  by (simp add: unsigned_of_nat take_bit_nat_eq_self)

lemma ucast_of_nat_down: "LENGTH('b) \<le> LENGTH('a) \<Longrightarrow> (ucast (of_nat n :: 'a::len word) :: 'b::len word) = of_nat n"
  by transfer (simp add: min_def)

lemma unat_of_nat_less: "n < 2 ^ LENGTH('a) \<Longrightarrow> unat (of_nat n :: 'a::len word) = n"
  by (simp add: unsigned_of_nat take_bit_nat_eq_self)

lemma ucast_of_nat_up:
  assumes "n < 2 ^ LENGTH('a)" "LENGTH('a) \<le> LENGTH('b)"
  shows "(ucast (of_nat n :: 'a::len word) :: 'b::len word) = of_nat n"
proof -
  have "n < 2 ^ LENGTH('b)" using assms by (meson order_less_le_trans one_le_numeral power_increasing)
  then show ?thesis using assms
    by (simp add: word_unat_eq_iff unat_ucast_up_id unat_of_nat_less)
qed

subsection \<open>Arrays\<close>

text \<open>C array cells: reading or writing outside of the array is undefined.\<close>

definition at_index :: "'a list \<Rightarrow> int \<Rightarrow> 'a option" where
  "at_index xs i = (if 0 \<le> i \<and> nat i < length xs then Some (xs ! nat i) else None)"

definition put_index :: "'a list \<Rightarrow> int \<Rightarrow> 'a \<Rightarrow> 'a list option" where
  "put_index xs i x = (if 0 \<le> i \<and> nat i < length xs then Some (xs[nat i := x]) else None)"

lemma at_index_int [simp]: "at_index xs (int i) = (if i < length xs then Some (xs ! i) else None)"
  by (simp add: at_index_def)

lemma put_index_int [simp]: "put_index xs (int i) x = (if i < length xs then Some (xs[i := x]) else None)"
  by (simp add: put_index_def)

lemma at_index_map: "map_option f (at_index xs i) = at_index (map f xs) i"
  by (auto simp: at_index_def nth_map)

end
