(* ===== verification/MsgpackSysdep.thy ===== *)
theory MsgpackSysdep
  imports Prelude
begin

text \<open>
  \<open>sysdep.h\<close>: byte order. A scalar is laid out in memory in the host's order
  (\<open>mem16\<close>, \<open>mem32\<close>, \<open>mem64\<close>); \<open>be*\<close> are the swap macros, \<open>load*\<close> and
  \<open>store*\<close> the unaligned accesses and \<open>take8_*\<close> the macros of
  \<open>pack_template.h\<close> that pick the least significant byte. The model keeps the host's
  order as an argument of every macro that tests it.
\<close>

datatype endian = LittleEndian | BigEndian

definition mem16 :: "endian \<Rightarrow> u16 \<Rightarrow> byte list" where
  "mem16 e x = (let le = [ucast x, ucast (drop_bit 8 x)] in if e = LittleEndian then le else rev le)"

definition mem32 :: "endian \<Rightarrow> u32 \<Rightarrow> byte list" where
  "mem32 e x = (let le = [ucast x, ucast (drop_bit 8 x), ucast (drop_bit 16 x), ucast (drop_bit 24 x)]
                in if e = LittleEndian then le else rev le)"

definition mem64 :: "endian \<Rightarrow> u64 \<Rightarrow> byte list" where
  "mem64 e x = (let le = [ucast x, ucast (drop_bit 8 x), ucast (drop_bit 16 x), ucast (drop_bit 24 x),
                          ucast (drop_bit 32 x), ucast (drop_bit 40 x), ucast (drop_bit 48 x),
                          ucast (drop_bit 56 x)]
                in if e = LittleEndian then le else rev le)"

definition msgpack_be16 :: "endian \<Rightarrow> u16 \<Rightarrow> u16" where
  "msgpack_be16 e x = (if e = LittleEndian then push_bit 8 x OR drop_bit 8 x else x)"

definition msgpack_be32 :: "endian \<Rightarrow> u32 \<Rightarrow> u32" where
  "msgpack_be32 e x =
     (if e = LittleEndian then
        push_bit 24 x OR (push_bit 8 x AND 0x00ff0000) OR (drop_bit 8 x AND 0x0000ff00) OR drop_bit 24 x
      else x)"

definition msgpack_be64 :: "endian \<Rightarrow> u64 \<Rightarrow> u64" where
  "msgpack_be64 e x =
     (if e = LittleEndian then
        push_bit 56 x OR
        (push_bit 40 x AND 0x00ff000000000000) OR
        (push_bit 24 x AND 0x0000ff0000000000) OR
        (push_bit 8 x AND 0x000000ff00000000) OR
        (drop_bit 8 x AND 0x00000000ff000000) OR
        (drop_bit 24 x AND 0x0000000000ff0000) OR
        (drop_bit 40 x AND 0x000000000000ff00) OR
        drop_bit 56 x
      else x)"

definition msgpack_load16 :: "byte list \<Rightarrow> u16" where
  "msgpack_load16 b = push_bit 8 (ucast (b ! 0)) OR ucast (b ! 1)"

definition msgpack_load32 :: "byte list \<Rightarrow> u32" where
  "msgpack_load32 b =
     push_bit 24 (ucast (b ! 0)) OR push_bit 16 (ucast (b ! 1)) OR
     push_bit 8 (ucast (b ! 2)) OR ucast (b ! 3)"

definition msgpack_load64 :: "byte list \<Rightarrow> u64" where
  "msgpack_load64 b =
     push_bit 56 (ucast (b ! 0)) OR push_bit 48 (ucast (b ! 1)) OR
     push_bit 40 (ucast (b ! 2)) OR push_bit 32 (ucast (b ! 3)) OR
     push_bit 24 (ucast (b ! 4)) OR push_bit 16 (ucast (b ! 5)) OR
     push_bit 8 (ucast (b ! 6)) OR ucast (b ! 7)"

definition msgpack_store16 :: "endian \<Rightarrow> u16 \<Rightarrow> byte list" where
  "msgpack_store16 e num = mem16 e (msgpack_be16 e num)"

definition msgpack_store32 :: "endian \<Rightarrow> u32 \<Rightarrow> byte list" where
  "msgpack_store32 e num = mem32 e (msgpack_be32 e num)"

definition msgpack_store64 :: "endian \<Rightarrow> u64 \<Rightarrow> byte list" where
  "msgpack_store64 e num = mem64 e (msgpack_be64 e num)"

definition take8_8 :: "u8 \<Rightarrow> byte" where
  "take8_8 d = d"

definition take8_16 :: "endian \<Rightarrow> u16 \<Rightarrow> byte" where
  "take8_16 e d = (if e = LittleEndian then mem16 e d ! 0 else mem16 e d ! 1)"

definition take8_32 :: "endian \<Rightarrow> u32 \<Rightarrow> byte" where
  "take8_32 e d = (if e = LittleEndian then mem32 e d ! 0 else mem32 e d ! 3)"

definition take8_64 :: "endian \<Rightarrow> u64 \<Rightarrow> byte" where
  "take8_64 e d = (if e = LittleEndian then mem64 e d ! 0 else mem64 e d ! 7)"

subsection \<open>The stored bytes do not depend on the host\<close>

definition be_bytes16 :: "u16 \<Rightarrow> byte list" where
  "be_bytes16 x = [ucast (drop_bit 8 x), ucast x]"

definition be_bytes32 :: "u32 \<Rightarrow> byte list" where
  "be_bytes32 x = [ucast (drop_bit 24 x), ucast (drop_bit 16 x), ucast (drop_bit 8 x), ucast x]"

definition be_bytes64 :: "u64 \<Rightarrow> byte list" where
  "be_bytes64 x = [ucast (drop_bit 56 x), ucast (drop_bit 48 x), ucast (drop_bit 40 x),
                   ucast (drop_bit 32 x), ucast (drop_bit 24 x), ucast (drop_bit 16 x),
                   ucast (drop_bit 8 x), ucast x]"

lemma take8_ucast [simp]:
  "take8_16 e d = ucast d" "take8_32 e d' = ucast d'" "take8_64 e d'' = ucast d''"
  by (simp_all add: take8_16_def take8_32_def take8_64_def mem16_def mem32_def mem64_def)

lemma length_be_bytes [simp]:
  "length (be_bytes16 x) = 2" "length (be_bytes32 y) = 4" "length (be_bytes64 z) = 8"
  by (simp_all add: be_bytes16_def be_bytes32_def be_bytes64_def)

lemma be_bytes_not_Nil [simp]: "be_bytes16 x \<noteq> []" "be_bytes32 y \<noteq> []" "be_bytes64 z \<noteq> []"
  by (simp_all add: be_bytes16_def be_bytes32_def be_bytes64_def)

lemma byte_masks:
  "(0x0000ff00 :: u32) = push_bit 8 (mask 8)" "(0x00ff0000 :: u32) = push_bit 16 (mask 8)"
  "(0x000000000000ff00 :: u64) = push_bit 8 (mask 8)" "(0x0000000000ff0000 :: u64) = push_bit 16 (mask 8)"
  "(0x00000000ff000000 :: u64) = push_bit 24 (mask 8)" "(0x000000ff00000000 :: u64) = push_bit 32 (mask 8)"
  "(0x0000ff0000000000 :: u64) = push_bit 40 (mask 8)" "(0x00ff000000000000 :: u64) = push_bit 48 (mask 8)"
  by (simp_all add: mask_eq_exp_minus_1)

lemma store16_eq [simp]: "msgpack_store16 e x = be_bytes16 x"
proof (cases e)
  case LittleEndian
  then show ?thesis
    by (auto simp: msgpack_store16_def mem16_def msgpack_be16_def be_bytes16_def bit_simps intro!: bit_word_eqI)
next
  case BigEndian
  then show ?thesis
    by (simp add: msgpack_store16_def mem16_def msgpack_be16_def be_bytes16_def)
qed

lemma store32_eq [simp]: "msgpack_store32 e x = be_bytes32 x"
proof (cases e)
  case LittleEndian
  show ?thesis
    unfolding msgpack_store32_def mem32_def msgpack_be32_def be_bytes32_def byte_masks LittleEndian
    by (simp; intro conjI; rule bit_word_eqI; simp add: bit_simps)
next
  case BigEndian
  then show ?thesis
    by (simp add: msgpack_store32_def mem32_def msgpack_be32_def be_bytes32_def)
qed

lemma store64_eq [simp]: "msgpack_store64 e x = be_bytes64 x"
proof (cases e)
  case LittleEndian
  show ?thesis
    unfolding msgpack_store64_def mem64_def msgpack_be64_def be_bytes64_def byte_masks LittleEndian
    by (simp; intro conjI; rule bit_word_eqI; simp add: bit_simps)
next
  case BigEndian
  then show ?thesis
    by (simp add: msgpack_store64_def mem64_def msgpack_be64_def be_bytes64_def)
qed

subsection \<open>Loading inverts storing\<close>

lemma load16_be_bytes [simp]: "msgpack_load16 (be_bytes16 x) = x"
  unfolding msgpack_load16_def be_bytes16_def
  by (rule bit_word_eqI) (auto simp: bit_simps)

lemma load32_be_bytes [simp]: "msgpack_load32 (be_bytes32 x) = x"
proof (rule bit_word_eqI)
  fix n assume "n < LENGTH(32)"
  then show "bit (msgpack_load32 (be_bytes32 x)) n = bit x n"
    unfolding msgpack_load32_def be_bytes32_def
    by (cases "n < 8"; cases "n < 16"; cases "n < 24") (auto simp: bit_simps)
qed

lemma load64_be_bytes [simp]: "msgpack_load64 (be_bytes64 x) = x"
proof (rule bit_word_eqI)
  fix n assume n: "n < LENGTH(64)"
  have byte: "bit (push_bit k (ucast (ucast (drop_bit k x) :: byte)) :: u64) n \<longleftrightarrow>
              k \<le> n \<and> n < k + 8 \<and> bit x n" for k
    using n by (auto simp: bit_simps)
  have byte0: "bit (ucast (ucast x :: byte) :: u64) n \<longleftrightarrow> n < 8 \<and> bit x n"
    using n by (auto simp: bit_simps)
  show "bit (msgpack_load64 (be_bytes64 x)) n = bit x n"
    unfolding msgpack_load64_def be_bytes64_def
    using n by (simp add: bit_or_iff byte byte0) linarith
qed

end
