(* ===== verification/CDouble.thy ===== *)
theory CDouble
  imports Prelude
begin

text \<open>
  C's \<open>double\<close> and \<open>float\<close> by their IEEE bits, and what the sources use of them:
  comparison, the conversions from integers and from \<open>float\<close>, and the conversions of
  \<open>printf\<close>, which write the list of bytes of the output stream.
\<close>

definition dbl_exp :: "u64 \<Rightarrow> int" where
  "dbl_exp d = uint (drop_bit 52 d AND 0x7ff)"

definition dbl_frac :: "u64 \<Rightarrow> int" where
  "dbl_frac d = uint (d AND mask 52)"

definition dbl_sign :: "u64 \<Rightarrow> bool" where
  "dbl_sign d = bit d 63"

definition dbl_isnan :: "u64 \<Rightarrow> bool" where
  "dbl_isnan d \<longleftrightarrow> dbl_exp d = 0x7ff \<and> dbl_frac d \<noteq> 0"

definition dbl_iszero :: "u64 \<Rightarrow> bool" where
  "dbl_iszero d \<longleftrightarrow> d AND mask 63 = 0"

text \<open>C's \<open>==\<close> on doubles: a NaN equals nothing, the two zeros are equal.\<close>

definition dbl_eq :: "u64 \<Rightarrow> u64 \<Rightarrow> bool" where
  "dbl_eq a b \<longleftrightarrow> \<not> dbl_isnan a \<and> \<not> dbl_isnan b \<and> (a = b \<or> dbl_iszero a \<and> dbl_iszero b)"

text \<open>Conversions: exact where the target can hold the value, else to nearest, ties to even.\<close>

definition round_half_even :: "int \<Rightarrow> int \<Rightarrow> int" where
  "round_half_even n d =
     (let q = n div d; r = n mod d
      in if 2 * r < d \<or> 2 * r = d \<and> even q then q else q + 1)"

function log2_int :: "int \<Rightarrow> nat" where
  "log2_int n = (if n < 2 then 0 else Suc (log2_int (n div 2)))"
  by pat_completeness auto
termination
  by (relation "measure nat") auto

declare log2_int.simps [simp del]

definition dbl_of_int_abs :: "int \<Rightarrow> u64" where
  "dbl_of_int_abs n =
     (if n = 0 then 0 else
      let k = log2_int n;
          q = (if k \<le> 52 then n * 2 ^ (52 - k) else round_half_even n (2 ^ (k - 52)))
      in of_int ((int k + 1022) * 2 ^ 52 + q))"

definition dbl_of_u64 :: "u64 \<Rightarrow> u64" where
  "dbl_of_u64 w = dbl_of_int_abs (uint w)"

definition dbl_of_i64 :: "u64 \<Rightarrow> u64" where
  "dbl_of_i64 w =
     (if sint w < 0 then 2 ^ 63 OR dbl_of_int_abs (- sint w) else dbl_of_int_abs (sint w))"

definition dbl_of_float :: "u32 \<Rightarrow> u64" where
  "dbl_of_float w =
     (let s = (if bit w 31 then 2 ^ 63 else 0 :: u64);
          e = uint (drop_bit 23 w AND 0xff);
          f = uint (w AND mask 23)
      in if e = 0xff then
           s OR of_int (0x7ff * 2 ^ 52 + f * 2 ^ 29) OR (if f = 0 then 0 else 2 ^ 51)
         else if e = 0 then
           (if f = 0 then s
            else let k = log2_int f in s OR of_int ((int k + 874) * 2 ^ 52 + (f - 2 ^ k) * 2 ^ (52 - k)))
         else s OR of_int ((e + 896) * 2 ^ 52 + f * 2 ^ 29))"

text \<open>\<open>printf\<close>: integers in decimal, doubles rounded to six decimals, ties to even.\<close>

definition ascii :: "string \<Rightarrow> byte list" where
  "ascii s = map of_char s"

function digits_of :: "int \<Rightarrow> byte list" where
  "digits_of n = (if n < 10 then [of_int (48 + n)] else digits_of (n div 10) @ [of_int (48 + n mod 10)])"
  by pat_completeness auto
termination
  by (relation "measure nat") auto

declare digits_of.simps [simp del]

definition printf_u64 :: "u64 \<Rightarrow> byte list" where
  "printf_u64 n = digits_of (uint n)"

definition printf_i64 :: "u64 \<Rightarrow> byte list" where
  "printf_i64 n = (let i = sint n in if i < 0 then 45 # digits_of (- i) else digits_of i)"

definition printf_f :: "u64 \<Rightarrow> byte list" where
  "printf_f d =
     (let sgn = (if dbl_sign d then [45] else []) in
      if dbl_exp d = 0x7ff then sgn @ (if dbl_frac d = 0 then ascii ''inf'' else ascii ''nan'')
      else
        let m = (if dbl_exp d = 0 then dbl_frac d else 2 ^ 52 + dbl_frac d);
            e = (if dbl_exp d = 0 then 1 else dbl_exp d);
            micro = (if 1075 \<le> e then m * 2 ^ nat (e - 1075) * 10 ^ 6
                     else round_half_even (m * 10 ^ 6) (2 ^ nat (1075 - e)));
            fracdig = digits_of (micro mod 10 ^ 6)
        in sgn @ digits_of (micro div 10 ^ 6) @ [46] @ replicate (6 - length fracdig) 48 @ fracdig)"

subsection \<open>Integers and doubles\<close>

text \<open>Truncation towards zero, undefined for infinities and NaN.\<close>

definition dbl_trunc :: "u64 \<Rightarrow> int option" where
  "dbl_trunc d =
     (if dbl_exp d = 0x7ff then None
      else
        let m = (if dbl_exp d = 0 then dbl_frac d else 2 ^ 52 + dbl_frac d);
            e = max 1 (dbl_exp d);
            v = (if 1075 \<le> e then m * 2 ^ nat (e - 1075) else m div 2 ^ nat (1075 - e))
        in Some (if dbl_sign d then - v else v))"

lemma log2_int_bounds: "0 < n \<Longrightarrow> 2 ^ log2_int n \<le> n \<and> n < 2 ^ Suc (log2_int n)"
proof (induction n rule: log2_int.induct)
  case (1 n)
  show ?case
  proof (cases "n < 2")
    case True
    with 1(2) show ?thesis by (simp add: log2_int.simps [of n])
  next
    case False
    then have "2 ^ log2_int (n div 2) \<le> n div 2 \<and> n div 2 < 2 ^ Suc (log2_int (n div 2))" using 1(1) by simp
    with False show ?thesis by (subst (1 2) log2_int.simps) auto
  qed
qed

lemma log2_int_less:
  assumes "0 < n" "n < 2 ^ k"
  shows "log2_int n < k"
proof (rule ccontr)
  assume "\<not> log2_int n < k"
  then have "(2 :: int) ^ k \<le> 2 ^ log2_int n" by simp
  also have "\<dots> \<le> n" using log2_int_bounds [OF assms(1)] by simp
  finally show False using assms(2) by simp
qed

text \<open>Small positive integers are exact: exponent and fraction, and no two have the same bits.\<close>

lemma dbl_of_int_abs_exact:
  assumes "0 < n" "n < 2 ^ 32"
  defines "k \<equiv> log2_int n"
  shows "dbl_of_int_abs n = of_int ((int k + 1022) * 2 ^ 52 + n * 2 ^ (52 - k))"
    "uint (dbl_of_int_abs n) = (int k + 1022) * 2 ^ 52 + n * 2 ^ (52 - k)"
    "(int k + 1023) * 2 ^ 52 \<le> uint (dbl_of_int_abs n)" "uint (dbl_of_int_abs n) < (int k + 1024) * 2 ^ 52"
proof -
  have k: "k < 32" "2 ^ k \<le> n" "n < 2 ^ Suc k" using assms log2_int_less [of n 32] log2_int_bounds [of n] by (simp_all add: k_def)
  show e: "dbl_of_int_abs n = of_int ((int k + 1022) * 2 ^ 52 + n * 2 ^ (52 - k))"
    using assms(1) k(1) by (simp add: dbl_of_int_abs_def k_def [symmetric])
  have p: "(2 :: int) ^ k * 2 ^ (52 - k) = 2 ^ 52" using k(1) by (simp flip: power_add)
  have lo: "2 ^ 52 \<le> n * 2 ^ (52 - k)" using mult_right_mono [OF k(2), of "2 ^ (52 - k)"] p by simp
  have "n * 2 ^ (52 - k) < 2 ^ Suc k * 2 ^ (52 - k)" by (rule mult_strict_right_mono [OF k(3)]) simp
  also have "\<dots> = 2 * 2 ^ 52" using p by (simp add: mult.assoc)
  finally have hi: "n * 2 ^ (52 - k) < 2 * 2 ^ 52" .
  let ?v = "(int k + 1022) * 2 ^ 52 + n * 2 ^ (52 - k)"
  have "?v < 2 ^ 64" using hi k(1) by simp
  moreover have "0 \<le> ?v" using assms(1) by simp
  ultimately show u: "uint (dbl_of_int_abs n) = ?v" unfolding e by (simp only: unsigned_of_int, subst take_bit_int_eq_self) simp_all
  show "(int k + 1023) * 2 ^ 52 \<le> uint (dbl_of_int_abs n)" "uint (dbl_of_int_abs n) < (int k + 1024) * 2 ^ 52"
    unfolding u using lo hi by simp_all
qed

lemma dbl_of_int_abs_inj:
  assumes "0 < m" "m < 2 ^ 32" "0 < n" "n < 2 ^ 32" "dbl_of_int_abs m = dbl_of_int_abs n"
  shows "m = n"
proof -
  note m = dbl_of_int_abs_exact [OF assms(1,2)] and n = dbl_of_int_abs_exact [OF assms(3,4)]
  have "(int (log2_int m) + 1023) * 2 ^ 52 < (int (log2_int n) + 1024) * 2 ^ 52" using m(3) n(4) assms(5) by simp
  moreover have "(int (log2_int n) + 1023) * 2 ^ 52 < (int (log2_int m) + 1024) * 2 ^ 52" using n(3) m(4) assms(5) by simp
  ultimately have l: "log2_int m = log2_int n" by simp
  have "m * 2 ^ (52 - log2_int m) = n * 2 ^ (52 - log2_int m)" using m(2) n(2) unfolding assms(5) l by linarith
  then show ?thesis by simp
qed

lemma dbl_exp_uint: "dbl_exp d = uint d div 2 ^ 52 mod 2 ^ 11"
proof -
  have "dbl_exp d = uint (take_bit 11 (drop_bit 52 d))" by (simp add: dbl_exp_def take_bit_eq_mask mask_eq_exp_minus_1)
  then show ?thesis by (simp add: drop_bit_eq_div take_bit_eq_mod uint_div_distrib uint_mod_distrib)
qed

lemma small_int_number:
  assumes "0 < n" "n < 2 ^ 32"
  shows "\<not> dbl_isnan (dbl_of_int_abs n)" "\<not> dbl_iszero (dbl_of_int_abs n)"
proof -
  note e = dbl_of_int_abs_exact(3,4) [OF assms]
  have k: "log2_int n < 32" using log2_int_less [of n 32] assms by simp
  have "uint (dbl_of_int_abs n) div 2 ^ 52 = int (log2_int n) + 1023"
    by (rule int_div_pos_eq [where r = "uint (dbl_of_int_abs n) - (int (log2_int n) + 1023) * 2 ^ 52"]) (use e in simp_all)
  then have x: "dbl_exp (dbl_of_int_abs n) = int (log2_int n) + 1023" using k by (simp add: dbl_exp_uint)
  then show "\<not> dbl_isnan (dbl_of_int_abs n)" using k by (simp add: dbl_isnan_def)
  show "\<not> dbl_iszero (dbl_of_int_abs n)"
  proof
    assume "dbl_iszero (dbl_of_int_abs n)"
    then have "take_bit 63 (dbl_of_int_abs n) = 0" by (simp add: dbl_iszero_def take_bit_eq_mask)
    then have "uint (dbl_of_int_abs n) mod 2 ^ 63 = 0" by (metis take_bit_eq_mod unsigned_0 unsigned_take_bit_eq)
    moreover have "uint (dbl_of_int_abs n) < 2 ^ 63" "0 < uint (dbl_of_int_abs n)" using e k by simp_all
    ultimately show False by simp
  qed
qed

end
