(* ===== verification/MsgpackObject.thy ===== *)
theory MsgpackObject
  imports CDouble
begin

text \<open>
  \<open>object.h\<close> and \<open>objectc.c\<close>: the dynamically typed object. The tag and the union
  of \<open>msgpack_object\<close> are one constructor each; the \<open>ptr\<close>/\<open>size\<close> pairs of raw, array
  and map are the list of what the pointer points to, so a \<open>uint32_t\<close> size is the length
  of that list. Doubles and signed integers are kept as their 64 bits. The constructor
  \<open>MOther\<close> is an object whose tag is none of the enumeration's values.
\<close>

datatype mobj =
    MNil
  | MBool bool
  | MPosInt u64
  | MNegInt u64
  | MDouble u64
  | MRaw "byte list"
  | MArray "mobj list"
  | MMap "mobj_kv list"
  | MOther u32 u64
and mobj_kv = KV (kv_key: mobj) (kv_val: mobj)

lemma size_kv_list [termination_simp]:
  assumes "x \<in> set kvs"
  shows "size (kv_key x) < Suc (size_list size kvs)" and "size (kv_val x) < Suc (size_list size kvs)"
proof -
  have "size x \<le> size_list size kvs" using assms by (simp add: size_list_estimation')
  moreover have "size (kv_key x) < size x \<and> size (kv_val x) < size x" by (cases x) simp
  ultimately show "size (kv_key x) < Suc (size_list size kvs)" "size (kv_val x) < Suc (size_list size kvs)"
    by linarith+
qed

fun msgpack_object_type :: "mobj \<Rightarrow> u32" where
  "msgpack_object_type MNil = 0"
| "msgpack_object_type (MBool _) = 1"
| "msgpack_object_type (MPosInt _) = 2"
| "msgpack_object_type (MNegInt _) = 3"
| "msgpack_object_type (MDouble _) = 4"
| "msgpack_object_type (MRaw _) = 5"
| "msgpack_object_type (MArray _) = 6"
| "msgpack_object_type (MMap _) = 7"
| "msgpack_object_type (MOther t _) = t"

subsection \<open>\<open>msgpack_object_equal\<close>\<close>

fun msgpack_object_equal :: "mobj \<Rightarrow> mobj \<Rightarrow> bool"
  and object_equal_items :: "mobj list \<Rightarrow> mobj list \<Rightarrow> bool"
  and object_equal_kvs :: "mobj_kv list \<Rightarrow> mobj_kv list \<Rightarrow> bool" where
  "msgpack_object_equal MNil y = (case y of MNil \<Rightarrow> True | _ \<Rightarrow> False)"
| "msgpack_object_equal (MBool a) y = (case y of MBool b \<Rightarrow> a = b | _ \<Rightarrow> False)"
| "msgpack_object_equal (MPosInt a) y = (case y of MPosInt b \<Rightarrow> a = b | _ \<Rightarrow> False)"
| "msgpack_object_equal (MNegInt a) y = (case y of MNegInt b \<Rightarrow> a = b | _ \<Rightarrow> False)"
| "msgpack_object_equal (MDouble a) y = (case y of MDouble b \<Rightarrow> dbl_eq a b | _ \<Rightarrow> False)"
| "msgpack_object_equal (MRaw a) y = (case y of MRaw b \<Rightarrow> length a = length b \<and> a = b | _ \<Rightarrow> False)"
| "msgpack_object_equal (MArray xs) y =
     (case y of
        MArray ys \<Rightarrow>
          if length xs \<noteq> length ys then False
          else if length xs = 0 then True
          else object_equal_items xs ys
      | _ \<Rightarrow> False)"
| "msgpack_object_equal (MMap xs) y =
     (case y of
        MMap ys \<Rightarrow>
          if length xs \<noteq> length ys then False
          else if length xs = 0 then True
          else object_equal_kvs xs ys
      | _ \<Rightarrow> False)"
| "msgpack_object_equal (MOther t n) y = False"
| "object_equal_items (x # xs) (y # ys) =
     (if \<not> msgpack_object_equal x y then False
      else if xs = [] then True
      else object_equal_items xs ys)"
| "object_equal_items _ _ = True"
| "object_equal_kvs (KV k v # xs) (KV k' v' # ys) =
     (if \<not> msgpack_object_equal k k' \<or> \<not> msgpack_object_equal v v' then False
      else if xs = [] then True
      else object_equal_kvs xs ys)"
| "object_equal_kvs _ _ = True"

subsection \<open>\<open>msgpack_object_print\<close>\<close>

text \<open>
  The stream the object is printed to is the list of the bytes written; the conversions of
  \<open>printf\<close> are those of \<open>CDouble\<close>.
\<close>

fun msgpack_object_print :: "mobj \<Rightarrow> byte list \<Rightarrow> byte list"
  and print_items :: "mobj list \<Rightarrow> byte list \<Rightarrow> byte list"
  and print_kvs :: "mobj_kv list \<Rightarrow> byte list \<Rightarrow> byte list" where
  "msgpack_object_print MNil out = out @ ascii ''nil''"
| "msgpack_object_print (MBool b) out = out @ (if b then ascii ''true'' else ascii ''false'')"
| "msgpack_object_print (MPosInt n) out = out @ printf_u64 n"
| "msgpack_object_print (MNegInt n) out = out @ printf_i64 n"
| "msgpack_object_print (MDouble d) out = out @ printf_f d"
| "msgpack_object_print (MRaw r) out = out @ [34] @ r @ [34]"
| "msgpack_object_print (MArray xs) out =
     (let out = out @ ascii ''['';
          out = (case xs of [] \<Rightarrow> out
                 | x # rest \<Rightarrow> print_items rest (msgpack_object_print x out))
      in out @ ascii '']'')"
| "msgpack_object_print (MMap xs) out =
     (let out = out @ ascii ''{'';
          out = (case xs of [] \<Rightarrow> out
                 | KV k v # rest \<Rightarrow>
                     print_kvs rest (msgpack_object_print v (msgpack_object_print k out @ ascii ''=>'')))
      in out @ ascii ''}'')"
| "msgpack_object_print (MOther t n) out =
     out @ ascii ''#<UNKNOWN '' @ printf_i64 (scast t) @ ascii '' '' @ printf_u64 n @ ascii ''>''"
| "print_items [] out = out"
| "print_items (x # xs) out = print_items xs (msgpack_object_print x (out @ ascii '', ''))"
| "print_kvs [] out = out"
| "print_kvs (KV k v # xs) out =
     print_kvs xs (msgpack_object_print v (msgpack_object_print k (out @ ascii '', '') @ ascii ''=>''))"

end
