(* ===== verification/MsgpackPack.thy ===== *)
theory MsgpackPack
  imports MsgpackSysdep MsgpackObject
begin

text \<open>
  \<open>pack_template.h\<close>, \<open>pack.h\<close> and \<open>msgpack_pack_object\<close> of \<open>objectc.c\<close>: the
  serializer. A packer is its \<open>callback\<close>, a function that appends bytes to the state
  behind the packer's \<open>data\<close> pointer and returns a C \<open>int\<close>, negative on failure;
  \<open>None\<close> is a callback that does not return. Every \<open>msgpack_pack_append_buffer\<close> of the
  template returns the callback's result at once, so each operation is one call.
\<close>

type_synonym 's writer = "byte list \<Rightarrow> 's \<Rightarrow> (int \<times> 's) option"

record 's msgpack_packer =
  pk_data :: 's
  pk_callback :: "'s writer"

text \<open>The host of the model is little endian; \<open>MsgpackSysdep\<close> shows that the bytes do not depend on it.\<close>

definition host :: endian where
  "host = LittleEndian"

definition append_buffer :: "'s writer \<Rightarrow> byte list \<Rightarrow> 's \<Rightarrow> (int \<times> 's) option" where
  "append_buffer cb buf s = cb buf s"

definition msgpack_packer_init :: "'s \<Rightarrow> 's writer \<Rightarrow> 's msgpack_packer" where
  "msgpack_packer_init data callback = \<lparr>pk_data = data, pk_callback = callback\<rparr>"

subsection \<open>Integers: shortest form\<close>

definition msgpack_pack_real_uint8 :: "'s writer \<Rightarrow> u8 \<Rightarrow> 's \<Rightarrow> (int \<times> 's) option" where
  "msgpack_pack_real_uint8 x d =
     (if uint d < 2 ^ 7 then append_buffer x [take8_8 d]
      else append_buffer x [0xcc, take8_8 d])"

definition msgpack_pack_real_uint16 :: "'s writer \<Rightarrow> u16 \<Rightarrow> 's \<Rightarrow> (int \<times> 's) option" where
  "msgpack_pack_real_uint16 x d =
     (if uint d < 2 ^ 7 then append_buffer x [take8_16 host d]
      else if uint d < 2 ^ 8 then append_buffer x [0xcc, take8_16 host d]
      else append_buffer x (0xcd # msgpack_store16 host d))"

definition msgpack_pack_real_uint32 :: "'s writer \<Rightarrow> u32 \<Rightarrow> 's \<Rightarrow> (int \<times> 's) option" where
  "msgpack_pack_real_uint32 x d =
     (if uint d < 2 ^ 8 then
        (if uint d < 2 ^ 7 then append_buffer x [take8_32 host d]
         else append_buffer x [0xcc, take8_32 host d])
      else
        (if uint d < 2 ^ 16 then append_buffer x (0xcd # msgpack_store16 host (ucast d))
         else append_buffer x (0xce # msgpack_store32 host d)))"

definition msgpack_pack_real_uint64 :: "'s writer \<Rightarrow> u64 \<Rightarrow> 's \<Rightarrow> (int \<times> 's) option" where
  "msgpack_pack_real_uint64 x d =
     (if uint d < 2 ^ 8 then
        (if uint d < 2 ^ 7 then append_buffer x [take8_64 host d]
         else append_buffer x [0xcc, take8_64 host d])
      else
        (if uint d < 2 ^ 16 then append_buffer x (0xcd # msgpack_store16 host (ucast d))
         else if uint d < 2 ^ 32 then append_buffer x (0xce # msgpack_store32 host (ucast d))
         else append_buffer x (0xcf # msgpack_store64 host d)))"

definition msgpack_pack_real_int8 :: "'s writer \<Rightarrow> u8 \<Rightarrow> 's \<Rightarrow> (int \<times> 's) option" where
  "msgpack_pack_real_int8 x d =
     (if sint d < - (2 ^ 5) then append_buffer x [0xd0, take8_8 d]
      else append_buffer x [take8_8 d])"

definition msgpack_pack_real_int16 :: "'s writer \<Rightarrow> u16 \<Rightarrow> 's \<Rightarrow> (int \<times> 's) option" where
  "msgpack_pack_real_int16 x d =
     (if sint d < - (2 ^ 5) then
        (if sint d < - (2 ^ 7) then append_buffer x (0xd1 # msgpack_store16 host d)
         else append_buffer x [0xd0, take8_16 host d])
      else if sint d < 2 ^ 7 then append_buffer x [take8_16 host d]
      else
        (if sint d < 2 ^ 8 then append_buffer x [0xcc, take8_16 host d]
         else append_buffer x (0xcd # msgpack_store16 host d)))"

definition msgpack_pack_real_int32 :: "'s writer \<Rightarrow> u32 \<Rightarrow> 's \<Rightarrow> (int \<times> 's) option" where
  "msgpack_pack_real_int32 x d =
     (if sint d < - (2 ^ 5) then
        (if sint d < - (2 ^ 15) then append_buffer x (0xd2 # msgpack_store32 host d)
         else if sint d < - (2 ^ 7) then append_buffer x (0xd1 # msgpack_store16 host (ucast d))
         else append_buffer x [0xd0, take8_32 host d])
      else if sint d < 2 ^ 7 then append_buffer x [take8_32 host d]
      else
        (if sint d < 2 ^ 8 then append_buffer x [0xcc, take8_32 host d]
         else if sint d < 2 ^ 16 then append_buffer x (0xcd # msgpack_store16 host (ucast d))
         else append_buffer x (0xce # msgpack_store32 host d)))"

definition msgpack_pack_real_int64 :: "'s writer \<Rightarrow> u64 \<Rightarrow> 's \<Rightarrow> (int \<times> 's) option" where
  "msgpack_pack_real_int64 x d =
     (if sint d < - (2 ^ 5) then
        (if sint d < - (2 ^ 15) then
           (if sint d < - (2 ^ 31) then append_buffer x (0xd3 # msgpack_store64 host d)
            else append_buffer x (0xd2 # msgpack_store32 host (ucast d)))
         else
           (if sint d < - (2 ^ 7) then append_buffer x (0xd1 # msgpack_store16 host (ucast d))
            else append_buffer x [0xd0, take8_64 host d]))
      else if sint d < 2 ^ 7 then append_buffer x [take8_64 host d]
      else
        (if sint d < 2 ^ 16 then
           (if sint d < 2 ^ 8 then append_buffer x [0xcc, take8_64 host d]
            else append_buffer x (0xcd # msgpack_store16 host (ucast d)))
         else
           (if sint d < 2 ^ 32 then append_buffer x (0xce # msgpack_store32 host (ucast d))
            else append_buffer x (0xcf # msgpack_store64 host d))))"

subsection \<open>Integers: fixed width\<close>

definition msgpack_pack_fix_uint8 :: "'s writer \<Rightarrow> u8 \<Rightarrow> 's \<Rightarrow> (int \<times> 's) option" where
  "msgpack_pack_fix_uint8 x d = append_buffer x [0xcc, take8_8 d]"

definition msgpack_pack_fix_uint16 :: "'s writer \<Rightarrow> u16 \<Rightarrow> 's \<Rightarrow> (int \<times> 's) option" where
  "msgpack_pack_fix_uint16 x d = append_buffer x (0xcd # msgpack_store16 host d)"

definition msgpack_pack_fix_uint32 :: "'s writer \<Rightarrow> u32 \<Rightarrow> 's \<Rightarrow> (int \<times> 's) option" where
  "msgpack_pack_fix_uint32 x d = append_buffer x (0xce # msgpack_store32 host d)"

definition msgpack_pack_fix_uint64 :: "'s writer \<Rightarrow> u64 \<Rightarrow> 's \<Rightarrow> (int \<times> 's) option" where
  "msgpack_pack_fix_uint64 x d = append_buffer x (0xcf # msgpack_store64 host d)"

definition msgpack_pack_fix_int8 :: "'s writer \<Rightarrow> u8 \<Rightarrow> 's \<Rightarrow> (int \<times> 's) option" where
  "msgpack_pack_fix_int8 x d = append_buffer x [0xd0, take8_8 d]"

definition msgpack_pack_fix_int16 :: "'s writer \<Rightarrow> u16 \<Rightarrow> 's \<Rightarrow> (int \<times> 's) option" where
  "msgpack_pack_fix_int16 x d = append_buffer x (0xd1 # msgpack_store16 host d)"

definition msgpack_pack_fix_int32 :: "'s writer \<Rightarrow> u32 \<Rightarrow> 's \<Rightarrow> (int \<times> 's) option" where
  "msgpack_pack_fix_int32 x d = append_buffer x (0xd2 # msgpack_store32 host d)"

definition msgpack_pack_fix_int64 :: "'s writer \<Rightarrow> u64 \<Rightarrow> 's \<Rightarrow> (int \<times> 's) option" where
  "msgpack_pack_fix_int64 x d = append_buffer x (0xd3 # msgpack_store64 host d)"

subsection \<open>Integers: the functions of the interface\<close>

definition msgpack_pack_uint8 :: "'s writer \<Rightarrow> u8 \<Rightarrow> 's \<Rightarrow> (int \<times> 's) option" where
  "msgpack_pack_uint8 x d = msgpack_pack_real_uint8 x d"

definition msgpack_pack_uint16 :: "'s writer \<Rightarrow> u16 \<Rightarrow> 's \<Rightarrow> (int \<times> 's) option" where
  "msgpack_pack_uint16 x d = msgpack_pack_real_uint16 x d"

definition msgpack_pack_uint32 :: "'s writer \<Rightarrow> u32 \<Rightarrow> 's \<Rightarrow> (int \<times> 's) option" where
  "msgpack_pack_uint32 x d = msgpack_pack_real_uint32 x d"

definition msgpack_pack_uint64 :: "'s writer \<Rightarrow> u64 \<Rightarrow> 's \<Rightarrow> (int \<times> 's) option" where
  "msgpack_pack_uint64 x d = msgpack_pack_real_uint64 x d"

definition msgpack_pack_int8 :: "'s writer \<Rightarrow> u8 \<Rightarrow> 's \<Rightarrow> (int \<times> 's) option" where
  "msgpack_pack_int8 x d = msgpack_pack_real_int8 x d"

definition msgpack_pack_int16 :: "'s writer \<Rightarrow> u16 \<Rightarrow> 's \<Rightarrow> (int \<times> 's) option" where
  "msgpack_pack_int16 x d = msgpack_pack_real_int16 x d"

definition msgpack_pack_int32 :: "'s writer \<Rightarrow> u32 \<Rightarrow> 's \<Rightarrow> (int \<times> 's) option" where
  "msgpack_pack_int32 x d = msgpack_pack_real_int32 x d"

definition msgpack_pack_int64 :: "'s writer \<Rightarrow> u64 \<Rightarrow> 's \<Rightarrow> (int \<times> 's) option" where
  "msgpack_pack_int64 x d = msgpack_pack_real_int64 x d"

text \<open>
  The functions for C's own integer types pick the width at compile time, from
  \<open>SIZEOF_*\<close>, from the \<open>*_MAX\<close> constants or from \<open>sizeof\<close>: whichever of the three
  the build defines, the choice is by the size of the type, a parameter here. The value
  \<open>d\<close> is the mathematical value of the argument.
\<close>

record c_abi =
  sizeof_short :: nat
  sizeof_int :: nat
  sizeof_long :: nat
  sizeof_long_long :: nat

definition lp64 :: c_abi where
  "lp64 = \<lparr>sizeof_short = 2, sizeof_int = 4, sizeof_long = 8, sizeof_long_long = 8\<rparr>"

definition pack_signed_of_size :: "nat \<Rightarrow> 's writer \<Rightarrow> int \<Rightarrow> 's \<Rightarrow> (int \<times> 's) option" where
  "pack_signed_of_size sz x d =
     (if sz = 2 then msgpack_pack_real_int16 x (word_of_int d)
      else if sz = 4 then msgpack_pack_real_int32 x (word_of_int d)
      else msgpack_pack_real_int64 x (word_of_int d))"

definition pack_unsigned_of_size :: "nat \<Rightarrow> 's writer \<Rightarrow> int \<Rightarrow> 's \<Rightarrow> (int \<times> 's) option" where
  "pack_unsigned_of_size sz x d =
     (if sz = 2 then msgpack_pack_real_uint16 x (word_of_int d)
      else if sz = 4 then msgpack_pack_real_uint32 x (word_of_int d)
      else msgpack_pack_real_uint64 x (word_of_int d))"

definition msgpack_pack_short :: "c_abi \<Rightarrow> 's writer \<Rightarrow> int \<Rightarrow> 's \<Rightarrow> (int \<times> 's) option" where
  "msgpack_pack_short abi x d = pack_signed_of_size (sizeof_short abi) x d"

definition msgpack_pack_int :: "c_abi \<Rightarrow> 's writer \<Rightarrow> int \<Rightarrow> 's \<Rightarrow> (int \<times> 's) option" where
  "msgpack_pack_int abi x d = pack_signed_of_size (sizeof_int abi) x d"

definition msgpack_pack_long :: "c_abi \<Rightarrow> 's writer \<Rightarrow> int \<Rightarrow> 's \<Rightarrow> (int \<times> 's) option" where
  "msgpack_pack_long abi x d = pack_signed_of_size (sizeof_long abi) x d"

definition msgpack_pack_long_long :: "c_abi \<Rightarrow> 's writer \<Rightarrow> int \<Rightarrow> 's \<Rightarrow> (int \<times> 's) option" where
  "msgpack_pack_long_long abi x d = pack_signed_of_size (sizeof_long_long abi) x d"

definition msgpack_pack_unsigned_short :: "c_abi \<Rightarrow> 's writer \<Rightarrow> int \<Rightarrow> 's \<Rightarrow> (int \<times> 's) option" where
  "msgpack_pack_unsigned_short abi x d = pack_unsigned_of_size (sizeof_short abi) x d"

definition msgpack_pack_unsigned_int :: "c_abi \<Rightarrow> 's writer \<Rightarrow> int \<Rightarrow> 's \<Rightarrow> (int \<times> 's) option" where
  "msgpack_pack_unsigned_int abi x d = pack_unsigned_of_size (sizeof_int abi) x d"

definition msgpack_pack_unsigned_long :: "c_abi \<Rightarrow> 's writer \<Rightarrow> int \<Rightarrow> 's \<Rightarrow> (int \<times> 's) option" where
  "msgpack_pack_unsigned_long abi x d = pack_unsigned_of_size (sizeof_long abi) x d"

definition msgpack_pack_unsigned_long_long :: "c_abi \<Rightarrow> 's writer \<Rightarrow> int \<Rightarrow> 's \<Rightarrow> (int \<times> 's) option" where
  "msgpack_pack_unsigned_long_long abi x d = pack_unsigned_of_size (sizeof_long_long abi) x d"

subsection \<open>Floats, nil, booleans, container headers\<close>

definition msgpack_pack_float :: "'s writer \<Rightarrow> u32 \<Rightarrow> 's \<Rightarrow> (int \<times> 's) option" where
  "msgpack_pack_float x d = append_buffer x (0xca # msgpack_store32 host d)"

definition msgpack_pack_double :: "'s writer \<Rightarrow> u64 \<Rightarrow> 's \<Rightarrow> (int \<times> 's) option" where
  "msgpack_pack_double x d = append_buffer x (0xcb # msgpack_store64 host d)"

definition msgpack_pack_nil :: "'s writer \<Rightarrow> 's \<Rightarrow> (int \<times> 's) option" where
  "msgpack_pack_nil x = append_buffer x [0xc0]"

definition msgpack_pack_true :: "'s writer \<Rightarrow> 's \<Rightarrow> (int \<times> 's) option" where
  "msgpack_pack_true x = append_buffer x [0xc3]"

definition msgpack_pack_false :: "'s writer \<Rightarrow> 's \<Rightarrow> (int \<times> 's) option" where
  "msgpack_pack_false x = append_buffer x [0xc2]"

definition msgpack_pack_array :: "'s writer \<Rightarrow> u32 \<Rightarrow> 's \<Rightarrow> (int \<times> 's) option" where
  "msgpack_pack_array x n =
     (if uint n < 16 then append_buffer x [0x90 OR ucast n]
      else if uint n < 65536 then append_buffer x (0xdc # msgpack_store16 host (ucast n))
      else append_buffer x (0xdd # msgpack_store32 host n))"

definition msgpack_pack_map :: "'s writer \<Rightarrow> u32 \<Rightarrow> 's \<Rightarrow> (int \<times> 's) option" where
  "msgpack_pack_map x n =
     (if uint n < 16 then append_buffer x [take8_8 (0x80 OR ucast n)]
      else if uint n < 65536 then append_buffer x (0xde # msgpack_store16 host (ucast n))
      else append_buffer x (0xdf # msgpack_store32 host n))"

definition msgpack_pack_raw :: "'s writer \<Rightarrow> u64 \<Rightarrow> 's \<Rightarrow> (int \<times> 's) option" where
  "msgpack_pack_raw x l =
     (if uint l < 32 then append_buffer x [take8_8 (0xa0 OR ucast l)]
      else if uint l < 65536 then append_buffer x (0xda # msgpack_store16 host (ucast l))
      else append_buffer x (0xdb # msgpack_store32 host (ucast l)))"

text \<open>The callback takes an \<open>unsigned int\<close>: of a longer body it is given the length modulo \<open>2^32\<close>.\<close>

definition msgpack_pack_raw_body :: "'s writer \<Rightarrow> byte list \<Rightarrow> u64 \<Rightarrow> 's \<Rightarrow> (int \<times> 's) option" where
  "msgpack_pack_raw_body x b l = append_buffer x (take (unat (ucast l :: u32)) b)"

lemmas pack_leaf_defs =
  append_buffer_def
  msgpack_pack_real_uint8_def msgpack_pack_real_uint16_def msgpack_pack_real_uint32_def
  msgpack_pack_real_uint64_def msgpack_pack_real_int8_def msgpack_pack_real_int16_def
  msgpack_pack_real_int32_def msgpack_pack_real_int64_def
  msgpack_pack_uint8_def msgpack_pack_uint16_def msgpack_pack_uint32_def msgpack_pack_uint64_def
  msgpack_pack_int8_def msgpack_pack_int16_def msgpack_pack_int32_def msgpack_pack_int64_def
  msgpack_pack_float_def msgpack_pack_double_def msgpack_pack_nil_def msgpack_pack_true_def
  msgpack_pack_false_def msgpack_pack_array_def msgpack_pack_map_def msgpack_pack_raw_def
  msgpack_pack_raw_body_def

declare pack_leaf_defs [msgpack_defs]

subsection \<open>\<open>msgpack_pack_object\<close>\<close>

text \<open>The size fields are \<open>uint32_t\<close>; the loops run over exactly that many elements.\<close>

fun msgpack_pack_object :: "'s writer \<Rightarrow> mobj \<Rightarrow> 's \<Rightarrow> (int \<times> 's) option"
  and pack_object_items :: "'s writer \<Rightarrow> mobj list \<Rightarrow> 's \<Rightarrow> (int \<times> 's) option"
  and pack_object_kvs :: "'s writer \<Rightarrow> mobj_kv list \<Rightarrow> 's \<Rightarrow> (int \<times> 's) option" where
  "msgpack_pack_object pk MNil s = msgpack_pack_nil pk s"
| "msgpack_pack_object pk (MBool b) s = (if b then msgpack_pack_true pk s else msgpack_pack_false pk s)"
| "msgpack_pack_object pk (MPosInt n) s = msgpack_pack_uint64 pk n s"
| "msgpack_pack_object pk (MNegInt n) s = msgpack_pack_int64 pk n s"
| "msgpack_pack_object pk (MDouble d) s = msgpack_pack_double pk d s"
| "msgpack_pack_object pk (MRaw r) s =
     do { (ret, s) \<leftarrow> msgpack_pack_raw pk (of_nat (length r)) s;
          if ret < 0 then Some (ret, s)
          else msgpack_pack_raw_body pk r (of_nat (length r)) s }"
| "msgpack_pack_object pk (MArray xs) s =
     do { (ret, s) \<leftarrow> msgpack_pack_array pk (of_nat (length xs)) s;
          if ret < 0 then Some (ret, s) else pack_object_items pk xs s }"
| "msgpack_pack_object pk (MMap xs) s =
     do { (ret, s) \<leftarrow> msgpack_pack_map pk (of_nat (length xs)) s;
          if ret < 0 then Some (ret, s) else pack_object_kvs pk xs s }"
| "msgpack_pack_object pk (MOther t n) s = Some (-1, s)"
| "pack_object_items pk [] s = Some (0, s)"
| "pack_object_items pk (x # xs) s =
     do { (ret, s) \<leftarrow> msgpack_pack_object pk x s;
          if ret < 0 then Some (ret, s) else pack_object_items pk xs s }"
| "pack_object_kvs pk [] s = Some (0, s)"
| "pack_object_kvs pk (KV k v # xs) s =
     do { (ret, s) \<leftarrow> msgpack_pack_object pk k s;
          if ret < 0 then Some (ret, s)
          else do { (ret, s) \<leftarrow> msgpack_pack_object pk v s;
                    if ret < 0 then Some (ret, s) else pack_object_kvs pk xs s } }"

end
