(* ===== verification/MsgpackFormat.thy ===== *)
theory MsgpackFormat
  imports MsgpackPack "HOL-Library.Sublist"
begin

text \<open>
  The contract of the serializer. \<open>mp_format\<close> is the MessagePack format as a relation
  between an object and its byte strings, one rule per type byte. The locale
  \<open>write_buffer\<close> is the interface of a packer's callback; inside it, whatever the buffer,
  a successful \<open>msgpack_pack_object\<close> appends a byte string of the object, the same for
  every buffer.
\<close>

subsection \<open>The format\<close>

definition signed_obj :: "u64 \<Rightarrow> mobj" where
  "signed_obj w = (if 0 \<le> sint w then MPosInt w else MNegInt w)"

inductive mp_format :: "mobj \<Rightarrow> byte list \<Rightarrow> bool" where
  nil: "mp_format MNil [0xc0]"
| false: "mp_format (MBool False) [0xc2]"
| true: "mp_format (MBool True) [0xc3]"
| pos_fixnum: "uint b < 128 \<Longrightarrow> mp_format (MPosInt (ucast b)) [b]"
| neg_fixnum: "224 \<le> uint b \<Longrightarrow> mp_format (signed_obj (scast b)) [b]"
| uint8: "mp_format (MPosInt (ucast b)) [0xcc, b]"
| uint16: "mp_format (MPosInt (ucast (v :: u16))) (0xcd # be_bytes16 v)"
| uint32: "mp_format (MPosInt (ucast (w :: u32))) (0xce # be_bytes32 w)"
| uint64: "mp_format (MPosInt d) (0xcf # be_bytes64 d)"
| int8: "mp_format (signed_obj (scast b)) [0xd0, b]"
| int16: "mp_format (signed_obj (scast (v :: u16))) (0xd1 # be_bytes16 v)"
| int32: "mp_format (signed_obj (scast (w :: u32))) (0xd2 # be_bytes32 w)"
| int64: "mp_format (signed_obj d) (0xd3 # be_bytes64 d)"
| float: "mp_format (MDouble (dbl_of_float f)) (0xca # be_bytes32 f)"
| double: "mp_format (MDouble d) (0xcb # be_bytes64 d)"
| fix_raw: "length r < 32 \<Longrightarrow> mp_format (MRaw r) ((0xa0 OR of_nat (length r)) # r)"
| raw16: "length r < 2 ^ 16 \<Longrightarrow> mp_format (MRaw r) (0xda # be_bytes16 (of_nat (length r)) @ r)"
| raw32: "length r < 2 ^ 32 \<Longrightarrow> mp_format (MRaw r) (0xdb # be_bytes32 (of_nat (length r)) @ r)"
| fix_array: "length xs < 16 \<Longrightarrow> list_all2 mp_format xs bss \<Longrightarrow>
    mp_format (MArray xs) ((0x90 OR of_nat (length xs)) # concat bss)"
| array16: "length xs < 2 ^ 16 \<Longrightarrow> list_all2 mp_format xs bss \<Longrightarrow>
    mp_format (MArray xs) (0xdc # be_bytes16 (of_nat (length xs)) @ concat bss)"
| array32: "length xs < 2 ^ 32 \<Longrightarrow> list_all2 mp_format xs bss \<Longrightarrow>
    mp_format (MArray xs) (0xdd # be_bytes32 (of_nat (length xs)) @ concat bss)"
| fix_map: "length kvs < 16 \<Longrightarrow> list_all2 mp_format (map kv_key kvs) kss \<Longrightarrow>
    list_all2 mp_format (map kv_val kvs) vss \<Longrightarrow>
    mp_format (MMap kvs) ((0x80 OR of_nat (length kvs)) # concat (map2 (@) kss vss))"
| map16: "length kvs < 2 ^ 16 \<Longrightarrow> list_all2 mp_format (map kv_key kvs) kss \<Longrightarrow>
    list_all2 mp_format (map kv_val kvs) vss \<Longrightarrow>
    mp_format (MMap kvs) (0xde # be_bytes16 (of_nat (length kvs)) @ concat (map2 (@) kss vss))"
| map32: "length kvs < 2 ^ 32 \<Longrightarrow> list_all2 mp_format (map kv_key kvs) kss \<Longrightarrow>
    list_all2 mp_format (map kv_val kvs) vss \<Longrightarrow>
    mp_format (MMap kvs) (0xdf # be_bytes32 (of_nat (length kvs)) @ concat (map2 (@) kss vss))"

text \<open>The objects a \<open>msgpack_object\<close> can hold: sizes fit \<open>uint32_t\<close>, a negative integer is negative.\<close>

fun obj_ok :: "mobj \<Rightarrow> bool" where
  "obj_ok (MNegInt n) = (sint n < 0)"
| "obj_ok (MRaw r) = (length r < 2 ^ 32)"
| "obj_ok (MArray xs) = (length xs < 2 ^ 32 \<and> list_all obj_ok xs)"
| "obj_ok (MMap kvs) = (length kvs < 2 ^ 32 \<and> list_all (\<lambda>kv. obj_ok (kv_key kv) \<and> obj_ok (kv_val kv)) kvs)"
| "obj_ok (MOther t n) = False"
| "obj_ok _ = True"

text \<open>Nesting depth: what the deserializer's embedded stack has to hold.\<close>

fun obj_depth :: "mobj \<Rightarrow> nat" where
  "obj_depth (MArray xs) = Suc (foldr max (map obj_depth xs) 0)"
| "obj_depth (MMap kvs) = Suc (foldr max (map (\<lambda>kv. max (obj_depth (kv_key kv)) (obj_depth (kv_val kv))) kvs) 0)"
| "obj_depth _ = 0"

subsection \<open>The reference buffer\<close>

definition list_write :: "byte list writer" where
  "list_write bs s = Some (0, s @ bs)"

subsection \<open>What the operations append\<close>

definition uint_bytes :: "u64 \<Rightarrow> byte list" where
  "uint_bytes d = (case msgpack_pack_uint64 list_write d [] of Some (ret, bs) \<Rightarrow> bs | None \<Rightarrow> [])"

definition sint_bytes :: "u64 \<Rightarrow> byte list" where
  "sint_bytes d = (case msgpack_pack_int64 list_write d [] of Some (ret, bs) \<Rightarrow> bs | None \<Rightarrow> [])"

definition raw_header :: "nat \<Rightarrow> byte list" where
  "raw_header n = (if n < 32 then [0xa0 OR of_nat n] else if n < 2 ^ 16 then 0xda # be_bytes16 (of_nat n)
     else 0xdb # be_bytes32 (of_nat n))"
definition array_header :: "nat \<Rightarrow> byte list" where
  "array_header n = (if n < 16 then [0x90 OR of_nat n] else if n < 2 ^ 16 then 0xdc # be_bytes16 (of_nat n)
     else 0xdd # be_bytes32 (of_nat n))"
definition map_header :: "nat \<Rightarrow> byte list" where
  "map_header n = (if n < 16 then [0x80 OR of_nat n] else if n < 2 ^ 16 then 0xde # be_bytes16 (of_nat n)
     else 0xdf # be_bytes32 (of_nat n))"

lemma pack_raw_header: "n < 2 ^ 32 \<Longrightarrow> msgpack_pack_raw x (of_nat n) = x (raw_header n)"
  by (rule ext) (simp add: msgpack_defs raw_header_def uint_of_nat_less ucast_of_nat_down take8_8_def)
lemma pack_array_header: "n < 2 ^ 32 \<Longrightarrow> msgpack_pack_array x (of_nat n) = x (array_header n)"
  by (rule ext) (simp add: msgpack_defs array_header_def uint_of_nat_less ucast_of_nat_down take8_8_def)
lemma pack_map_header: "n < 2 ^ 32 \<Longrightarrow> msgpack_pack_map x (of_nat n) = x (map_header n)"
  by (rule ext) (simp add: msgpack_defs map_header_def uint_of_nat_less ucast_of_nat_down take8_8_def)

lemma pack_raw_body: "length r < 2 ^ 32 \<Longrightarrow> msgpack_pack_raw_body x r (of_nat (length r)) = x r"
  by (rule ext) (simp add: msgpack_defs ucast_of_nat_down unsigned_of_nat take_bit_nat_eq_self)



fun mp_encode :: "mobj \<Rightarrow> byte list" where
  "mp_encode MNil = [0xc0]"
| "mp_encode (MBool b) = [if b then 0xc3 else 0xc2]"
| "mp_encode (MPosInt d) = uint_bytes d"
| "mp_encode (MNegInt d) = sint_bytes d"
| "mp_encode (MDouble d) = 0xcb # be_bytes64 d"
| "mp_encode (MRaw r) = raw_header (length r) @ r"
| "mp_encode (MArray xs) = array_header (length xs) @ concat (map mp_encode xs)"
| "mp_encode (MMap kvs) =
     map_header (length kvs) @ concat (map (\<lambda>kv. mp_encode (kv_key kv) @ mp_encode (kv_val kv)) kvs)"
| "mp_encode (MOther t n) = []"

lemma pack_uint64_bytes: "msgpack_pack_uint64 x d = x (uint_bytes d)"
  by (rule ext) (simp add: uint_bytes_def msgpack_defs list_write_def)

lemma pack_int64_bytes: "msgpack_pack_int64 x d = x (sint_bytes d)"
  by (rule ext) (simp add: sint_bytes_def msgpack_defs list_write_def)

lemma pack_const_bytes:
  "msgpack_pack_nil x = x [0xc0]" "msgpack_pack_true x = x [0xc3]" "msgpack_pack_false x = x [0xc2]"
  "msgpack_pack_double x d = x (0xcb # be_bytes64 d)"
  by (rule ext, simp add: msgpack_defs)+

lemma length_uint_bytes: "length (uint_bytes d) < 2 ^ 32" and length_sint_bytes: "length (sint_bytes d) < 2 ^ 32"
  by (simp_all add: uint_bytes_def sint_bytes_def msgpack_defs list_write_def)

lemma length_headers:
  "length (raw_header n) < 2 ^ 32" "length (array_header n) < 2 ^ 32" "length (map_header n) < 2 ^ 32"
  by (simp_all add: raw_header_def array_header_def map_header_def)

definition appends :: "('s \<Rightarrow> byte list) \<Rightarrow> ('s \<Rightarrow> bool) \<Rightarrow> ('s \<Rightarrow> (int \<times> 's) option) \<Rightarrow> byte list \<Rightarrow> bool" where
  "appends contents invar f bs \<longleftrightarrow>
     (\<forall>s r s'. invar s \<longrightarrow> f s = Some (r, s') \<longrightarrow>
        invar s' \<and> (\<exists>p. prefix p bs \<and> contents s' = contents s @ p \<and> (0 \<le> r \<longrightarrow> p = bs)))"

lemma appends_done: "appends c invar (\<lambda>s. Some (0, s)) []"
  by (simp add: appends_def)

definition pack_seq :: "('s \<Rightarrow> (int \<times> 's) option) \<Rightarrow> ('s \<Rightarrow> (int \<times> 's) option) \<Rightarrow> 's \<Rightarrow> (int \<times> 's) option" where
  "pack_seq f g s = do { (r, s) \<leftarrow> f s; if r < 0 then Some (r, s) else g s }"

lemma pack_seq_eqs:
  "msgpack_pack_object pk (MRaw r) =
     pack_seq (msgpack_pack_raw pk (of_nat (length r))) (msgpack_pack_raw_body pk r (of_nat (length r)))"
  "msgpack_pack_object pk (MArray xs) =
     pack_seq (msgpack_pack_array pk (of_nat (length xs))) (pack_object_items pk xs)"
  "msgpack_pack_object pk (MMap kvs) =
     pack_seq (msgpack_pack_map pk (of_nat (length kvs))) (pack_object_kvs pk kvs)"
  "pack_object_items pk [] = (\<lambda>s. Some (0, s))"
  "pack_object_items pk (x # xs) = pack_seq (msgpack_pack_object pk x) (pack_object_items pk xs)"
  "pack_object_kvs pk [] = (\<lambda>s. Some (0, s))"
  "pack_object_kvs pk (kv # kvs) =
     pack_seq (msgpack_pack_object pk (kv_key kv))
       (pack_seq (msgpack_pack_object pk (kv_val kv)) (pack_object_kvs pk kvs))"
  by (rule ext, cases kv, simp add: pack_seq_def [abs_def])+

lemma pack_leaf_eqs:
  "msgpack_pack_object pk MNil = pk [0xc0]"
  "msgpack_pack_object pk (MBool b) = pk [if b then 0xc3 else 0xc2]"
  "msgpack_pack_object pk (MPosInt d) = pk (uint_bytes d)"
  "msgpack_pack_object pk (MNegInt d) = pk (sint_bytes d)"
  "msgpack_pack_object pk (MDouble d) = pk (0xcb # be_bytes64 d)"
  by (rule ext, simp add: pack_uint64_bytes pack_int64_bytes pack_const_bytes)+

lemma appends_seq:
  assumes "appends c invar f a" "appends c invar g b"
  shows "appends c invar (pack_seq f g) (a @ b)"
  unfolding appends_def
proof (intro allI impI)
  fix s r s'
  assume s: "invar s" and run: "pack_seq f g s = Some (r, s')"
  then obtain r1 s1 where f: "f s = Some (r1, s1)"
    and rest: "(if r1 < 0 then Some (r1, s1) else g s1) = Some (r, s')"
    by (auto simp: pack_seq_def bind_Some_iff)
  from assms(1) s f obtain p where s1: "invar s1" and p: "prefix p a" "c s1 = c s @ p" "0 \<le> r1 \<longrightarrow> p = a"
    unfolding appends_def by blast
  show "invar s' \<and> (\<exists>p. prefix p (a @ b) \<and> c s' = c s @ p \<and> (0 \<le> r \<longrightarrow> p = a @ b))"
  proof (cases "r1 < 0")
    case True
    with rest s1 p show ?thesis by (auto intro: prefix_prefix)
  next
    case False
    with rest s1 assms(2) obtain q where q: "invar s'" "prefix q b" "c s' = c s1 @ q" "0 \<le> r \<longrightarrow> q = b"
      unfolding appends_def by (metis (no_types, lifting))
    with False p show ?thesis by (intro conjI exI [of _ "a @ q"]) auto
  qed
qed

locale write_buffer =
  fixes wr :: "byte list \<Rightarrow> 's \<Rightarrow> (int \<times> 's) option"
    and contents :: "'s \<Rightarrow> byte list"
    and invar :: "'s \<Rightarrow> bool"
  assumes write_inv: "invar s \<Longrightarrow> length bs < 2 ^ 32 \<Longrightarrow> wr bs s = Some (r, s') \<Longrightarrow> invar s'"
    and write_ok: "invar s \<Longrightarrow> length bs < 2 ^ 32 \<Longrightarrow> wr bs s = Some (r, s') \<Longrightarrow> 0 \<le> r \<Longrightarrow>
                   contents s' = contents s @ bs"
    and write_fail: "invar s \<Longrightarrow> length bs < 2 ^ 32 \<Longrightarrow> wr bs s = Some (r, s') \<Longrightarrow> r < 0 \<Longrightarrow>
                   contents s' = contents s"
begin

lemma appends_write: "length bs < 2 ^ 32 \<Longrightarrow> appends contents invar (wr bs) bs"
  unfolding appends_def
  by (metis append_Nil2 not_less order_refl prefix_bot.bot_least write_fail write_inv write_ok prefix_order.refl)

lemma pack_items_append:
  "list_all obj_ok ys \<Longrightarrow>
   (\<And>y. y \<in> set ys \<Longrightarrow> obj_ok y \<Longrightarrow> appends contents invar (msgpack_pack_object wr y) (mp_encode y)) \<Longrightarrow>
   appends contents invar (pack_object_items wr ys) (concat (map mp_encode ys))"
  by (induction ys) (simp_all add: pack_seq_eqs appends_done appends_seq)

lemma pack_kvs_append:
  "list_all (\<lambda>kv. obj_ok (kv_key kv) \<and> obj_ok (kv_val kv)) kvs \<Longrightarrow>
   (\<And>kv. kv \<in> set kvs \<Longrightarrow> obj_ok (kv_key kv) \<Longrightarrow> obj_ok (kv_val kv) \<Longrightarrow>
     appends contents invar (msgpack_pack_object wr (kv_key kv)) (mp_encode (kv_key kv)) \<and>
     appends contents invar (msgpack_pack_object wr (kv_val kv)) (mp_encode (kv_val kv))) \<Longrightarrow>
   appends contents invar (pack_object_kvs wr kvs)
     (concat (map (\<lambda>kv. mp_encode (kv_key kv) @ mp_encode (kv_val kv)) kvs))"
  by (induction kvs) (simp_all add: pack_seq_eqs appends_done appends_seq)

lemma pack_object_appends:
  "obj_ok d \<Longrightarrow> appends contents invar (msgpack_pack_object wr d) (mp_encode d)"
  and "obj_ok (kv_key kv) \<Longrightarrow> obj_ok (kv_val kv) \<Longrightarrow>
    appends contents invar (msgpack_pack_object wr (kv_key kv)) (mp_encode (kv_key kv)) \<and>
    appends contents invar (msgpack_pack_object wr (kv_val kv)) (mp_encode (kv_val kv))"
proof (induction d and kv)
  case (MRaw r)
  then show ?case
    by (auto simp: pack_seq_eqs pack_raw_header pack_raw_body length_headers [simplified]
          simp del: msgpack_pack_object.simps intro!: appends_seq appends_write)
next
  case (MArray xs)
  then show ?case
    by (auto simp: pack_seq_eqs pack_array_header length_headers [simplified]
          simp del: msgpack_pack_object.simps intro!: appends_seq appends_write pack_items_append)
next
  case (MMap kvs)
  then show ?case
    by (auto simp: pack_seq_eqs pack_map_header length_headers [simplified]
          simp del: msgpack_pack_object.simps intro!: appends_seq appends_write pack_kvs_append)
qed (auto simp: pack_leaf_eqs length_uint_bytes [simplified] length_sint_bytes [simplified]
       simp del: msgpack_pack_object.simps intro!: appends_write)

end

text \<open>
  A buffer whose callback always returns, with one of the codes \<open>okay\<close>: then so does the packer.
\<close>

definition completes :: "(int \<Rightarrow> bool) \<Rightarrow> ('s \<Rightarrow> bool) \<Rightarrow> ('s \<Rightarrow> (int \<times> 's) option) \<Rightarrow> bool" where
  "completes okay invar f \<longleftrightarrow> (\<forall>s. invar s \<longrightarrow> (\<exists>r s'. f s = Some (r, s') \<and> okay r \<and> invar s'))"

lemma completes_seq: "completes okay invar f \<Longrightarrow> completes okay invar g \<Longrightarrow> completes okay invar (pack_seq f g)"
  unfolding completes_def pack_seq_def by fastforce

lemma completes_done: "okay 0 \<Longrightarrow> completes okay invar (\<lambda>s. Some (0, s))"
  by (simp add: completes_def)

locale answering_buffer = write_buffer +
  fixes okay :: "int \<Rightarrow> bool"
  assumes write_answers: "invar s \<Longrightarrow> length bs < 2 ^ 32 \<Longrightarrow> \<exists>r s'. wr bs s = Some (r, s') \<and> okay r"
    and okay_zero: "okay 0"
begin

lemma completes_write: "length bs < 2 ^ 32 \<Longrightarrow> completes okay invar (wr bs)"
  unfolding completes_def by (metis write_inv write_answers)

lemma completes_items: "(\<And>y. y \<in> set ys \<Longrightarrow> completes okay invar (msgpack_pack_object wr y)) \<Longrightarrow> completes okay invar (pack_object_items wr ys)"
  by (induction ys) (simp_all add: pack_seq_eqs completes_done [of okay, OF okay_zero] completes_seq)

lemma completes_kvs:
  "(\<And>kv. kv \<in> set kvs \<Longrightarrow> completes okay invar (msgpack_pack_object wr (kv_key kv)) \<and>
     completes okay invar (msgpack_pack_object wr (kv_val kv))) \<Longrightarrow> completes okay invar (pack_object_kvs wr kvs)"
  by (induction kvs) (simp_all add: pack_seq_eqs completes_done [of okay, OF okay_zero] completes_seq)

lemma pack_object_completes:
  "obj_ok d \<Longrightarrow> completes okay invar (msgpack_pack_object wr d)"
  and "obj_ok (kv_key kv) \<Longrightarrow> obj_ok (kv_val kv) \<Longrightarrow>
    completes okay invar (msgpack_pack_object wr (kv_key kv)) \<and> completes okay invar (msgpack_pack_object wr (kv_val kv))"
proof (induction d and kv)
  case (MRaw r)
  then show ?case
    by (auto simp: pack_seq_eqs pack_raw_header pack_raw_body length_headers [simplified]
          simp del: msgpack_pack_object.simps intro!: completes_seq completes_write)
next
  case (MArray xs)
  then show ?case
    by (auto simp: pack_seq_eqs pack_array_header length_headers [simplified] list_all_iff
          simp del: msgpack_pack_object.simps intro!: completes_seq completes_write completes_items)
next
  case (MMap kvs)
  then show ?case
    by (auto simp: pack_seq_eqs pack_map_header length_headers [simplified] list_all_iff
          simp del: msgpack_pack_object.simps intro!: completes_seq completes_write completes_kvs)
qed (auto simp: pack_leaf_eqs length_uint_bytes [simplified] length_sint_bytes [simplified]
       simp del: msgpack_pack_object.simps intro!: completes_write)

lemma pack_object_encodes:
  assumes "obj_ok d" "invar s"
  shows "\<exists>r s'. msgpack_pack_object wr d s = Some (r, s') \<and> okay r \<and> invar s' \<and>
    (\<exists>p. prefix p (mp_encode d) \<and> contents s' = contents s @ p \<and> (0 \<le> r \<longrightarrow> p = mp_encode d))"
  using pack_object_completes(1) [OF assms(1)] pack_object_appends(1) [OF assms(1)] assms(2)
  unfolding completes_def appends_def by blast

end

interpretation list_buffer: answering_buffer list_write "\<lambda>s. s" "\<lambda>s. True" "\<lambda>r. r = 0"
  by unfold_locales (auto simp: list_write_def)

lemma pack_object_list: "obj_ok d \<Longrightarrow> msgpack_pack_object list_write d s = Some (0, s @ mp_encode d)"
  using list_buffer.pack_object_encodes [of d s] by auto

text \<open>The encoding is a byte string of the format.\<close>

lemma mp_format_pos: "mp_format (MPosInt d) (uint_bytes d)"
  using mp_format.pos_fixnum [of "ucast d"] mp_format.uint8 [of "ucast d"] mp_format.uint16 [of "ucast d"]
      mp_format.uint32 [of "ucast d"] mp_format.uint64 [of d]
  by (auto simp: uint_bytes_def msgpack_defs list_write_def ucast_down_up_uint uint_ucast_down)

lemma mp_format_signed: "mp_format (signed_obj d) (sint_bytes d)"
proof (cases "sint d < 0")
  case True
  have b: "- (2 ^ 7) \<le> sint d \<Longrightarrow> scast (ucast d :: byte) = d"
    "- (2 ^ 15) \<le> sint d \<Longrightarrow> scast (ucast d :: u16) = d"
    "- (2 ^ 31) \<le> sint d \<Longrightarrow> scast (ucast d :: u32) = d"
    using scast_down_up_id [of d, where 'b=8] scast_down_up_id [of d, where 'b=16]
      scast_down_up_id [of d, where 'b=32] True by simp_all
  have f: "224 \<le> uint (ucast d :: byte)" if "- (2 ^ 5) \<le> sint d"
    using that True
    by (cases "ucast d :: byte" rule: sint_uint_cases) (simp_all add: sint_ucast_down signed_take_bit_int_eq_self)
  show ?thesis
    using mp_format.neg_fixnum [of "ucast d"] mp_format.int8 [of "ucast d"] mp_format.int16 [of "ucast d"]
      mp_format.int32 [of "ucast d"] mp_format.int64 [of d] True
    by (auto simp: sint_bytes_def msgpack_defs list_write_def b f)
next
  case False
  then have s: "sint d = uint d" by (cases d rule: sint_uint_cases) simp_all
  then show ?thesis
    using mp_format.pos_fixnum [of "ucast d"] mp_format.uint8 [of "ucast d"] mp_format.uint16 [of "ucast d"]
      mp_format.uint32 [of "ucast d"] mp_format.uint64 [of d] False
    by (auto simp: sint_bytes_def msgpack_defs list_write_def ucast_down_up_uint uint_ucast_down signed_obj_def)
qed

lemma list_all2_encode:
  "(\<And>x. x \<in> set xs \<Longrightarrow> mp_format (f x) (mp_encode (f x))) \<Longrightarrow>
   list_all2 mp_format (map f xs) (map (\<lambda>x. mp_encode (f x)) xs)"
  by (induction xs) simp_all

lemma mp_format_encode:
  "obj_ok d \<Longrightarrow> mp_format d (mp_encode d)"
  and "obj_ok (kv_key kv) \<Longrightarrow> obj_ok (kv_val kv) \<Longrightarrow>
    mp_format (kv_key kv) (mp_encode (kv_key kv)) \<and> mp_format (kv_val kv) (mp_encode (kv_val kv))"
proof (induction d and kv)
  case (MNegInt n)
  then show ?case using mp_format_signed [of n] by (simp add: signed_obj_def)
next
  case (MRaw r)
  then show ?case
    by (auto simp: raw_header_def intro: mp_format.fix_raw mp_format.raw16 mp_format.raw32)
next
  case (MArray xs)
  then have "list_all2 mp_format xs (map mp_encode xs)"
    using list_all2_encode [of xs "\<lambda>x. x"] by (simp add: list_all_iff)
  with MArray.prems show ?case
    by (auto simp: array_header_def intro: mp_format.fix_array mp_format.array16 mp_format.array32)
next
  case (MMap kvs)
  let ?k = "map (\<lambda>kv. mp_encode (kv_key kv)) kvs" and ?v = "map (\<lambda>kv. mp_encode (kv_val kv)) kvs"
  have "list_all2 mp_format (map kv_key kvs) ?k" "list_all2 mp_format (map kv_val kvs) ?v"
    using MMap by (auto simp: list_all_iff intro!: list_all2_encode)
  moreover have "concat (map (\<lambda>kv. mp_encode (kv_key kv) @ mp_encode (kv_val kv)) kvs) = concat (map2 (@) ?k ?v)"
    by (induction kvs) simp_all
  ultimately show ?case using MMap.prems
    by (auto simp: map_header_def intro: mp_format.fix_map mp_format.map16 mp_format.map32)
qed (auto intro: mp_format.intros mp_format_pos)


end
