(* ===== verification/CMemory.thy ===== *)
theory CMemory
  imports Prelude
begin

text \<open>
  The C heap as the serializer's buffers use it: blocks named by numbers that are never
  reused, each with a size, the bytes stored in it so far (an undefined byte has not been
  written) and the pointer kept in its first word when the block is a chunk header.
  \<open>malloc\<close>, \<open>calloc\<close>, \<open>realloc\<close> and \<open>free\<close> are the standard library's;
  whether the \<open>k\<close>-th allocation of a given size fails is decided by the field
  \<open>oom\<close>, on which nothing is assumed.
\<close>

datatype ptr = Null | Ptr (pblock: nat) (poff: nat)

record cblock =
  bsize :: nat
  bdata :: "nat \<Rightarrow> byte option"
  bnext :: "ptr option"

record heap =
  blocks :: "nat \<Rightarrow> cblock option"
  brk :: nat
  oom :: "nat \<Rightarrow> nat \<Rightarrow> bool"

definition live :: "heap \<Rightarrow> nat \<Rightarrow> bool" where
  "live h b \<longleftrightarrow> blocks h b \<noteq> None"

definition live_at :: "heap \<Rightarrow> ptr \<Rightarrow> bool" where
  "live_at h p = (case p of Null \<Rightarrow> False | Ptr b off \<Rightarrow> live h b)"

definition ptr_add :: "ptr \<Rightarrow> nat \<Rightarrow> ptr" where
  "ptr_add p n = (case p of Null \<Rightarrow> Null | Ptr b off \<Rightarrow> Ptr b (off + n))"

definition malloc_c :: "u64 \<Rightarrow> heap \<Rightarrow> ptr \<times> heap" where
  "malloc_c n h =
     (if oom h (brk h) (unat n) then (Null, h\<lparr>brk := Suc (brk h)\<rparr>)
      else (Ptr (brk h) 0,
            h\<lparr>blocks := (blocks h)(brk h \<mapsto> \<lparr>bsize = unat n, bdata = (\<lambda>_. None), bnext = None\<rparr>),
              brk := Suc (brk h)\<rparr>))"

definition calloc_c :: "u64 \<Rightarrow> heap \<Rightarrow> ptr \<times> heap" where
  "calloc_c n h =
     (if oom h (brk h) (unat n) then (Null, h\<lparr>brk := Suc (brk h)\<rparr>)
      else (Ptr (brk h) 0,
            h\<lparr>blocks := (blocks h)(brk h \<mapsto>
                 \<lparr>bsize = unat n, bdata = (\<lambda>i. if i < unat n then Some 0 else None), bnext = Some Null\<rparr>),
              brk := Suc (brk h)\<rparr>))"

definition free_c :: "ptr \<Rightarrow> heap \<Rightarrow> heap option" where
  "free_c p h =
     (case p of Null \<Rightarrow> Some h
      | Ptr b off \<Rightarrow>
          if off = 0 \<and> live h b then Some (h\<lparr>blocks := (blocks h)(b := None)\<rparr>) else None)"

text \<open>
  \<open>realloc\<close> returns a fresh block with the old contents and releases the old one, or
  \<open>NULL\<close> with the old block left as it is.
\<close>

definition realloc_c :: "ptr \<Rightarrow> u64 \<Rightarrow> heap \<Rightarrow> (ptr \<times> heap) option" where
  "realloc_c p n h =
     (case p of Null \<Rightarrow> Some (malloc_c n h)
      | Ptr b off \<Rightarrow>
          (case blocks h b of None \<Rightarrow> None
           | Some blk \<Rightarrow>
               if off \<noteq> 0 then None
               else if oom h (brk h) (unat n) then Some (Null, h\<lparr>brk := Suc (brk h)\<rparr>)
               else Some (Ptr (brk h) 0,
                 h\<lparr>blocks := ((blocks h)(b := None))(brk h \<mapsto>
                      \<lparr>bsize = unat n,
                       bdata = (\<lambda>i. if i < unat n then bdata blk i else None),
                       bnext = bnext blk\<rparr>),
                   brk := Suc (brk h)\<rparr>)))"

text \<open>Byte stores and loads, \<open>memcpy\<close> to and from a block.\<close>

definition store_bytes :: "ptr \<Rightarrow> byte list \<Rightarrow> heap \<Rightarrow> heap option" where
  "store_bytes p bs h =
     (if bs = [] then Some h else
      case p of Null \<Rightarrow> None
      | Ptr b off \<Rightarrow>
          (case blocks h b of None \<Rightarrow> None
           | Some blk \<Rightarrow>
               if off + length bs \<le> bsize blk
               then Some (h\<lparr>blocks := (blocks h)(b \<mapsto>
                      blk\<lparr>bdata := (\<lambda>i. if off \<le> i \<and> i < off + length bs then Some (bs ! (i - off))
                                      else bdata blk i)\<rparr>)\<rparr>)
               else None))"

primrec bytes_at :: "(nat \<Rightarrow> byte option) \<Rightarrow> nat \<Rightarrow> nat \<Rightarrow> byte list option" where
  "bytes_at d i 0 = Some []"
| "bytes_at d i (Suc n) =
     do { b \<leftarrow> d i; bs \<leftarrow> bytes_at d (Suc i) n; Some (b # bs) }"

definition load_bytes :: "ptr \<Rightarrow> nat \<Rightarrow> heap \<Rightarrow> byte list option" where
  "load_bytes p n h =
     (if n = 0 then Some [] else
      case p of Null \<Rightarrow> None
      | Ptr b off \<Rightarrow>
          (case blocks h b of None \<Rightarrow> None
           | Some blk \<Rightarrow> if off + n \<le> bsize blk then bytes_at (bdata blk) off n else None))"

text \<open>The header word of a chunk.\<close>

definition get_next :: "ptr \<Rightarrow> heap \<Rightarrow> ptr option" where
  "get_next p h =
     (case p of Null \<Rightarrow> None
      | Ptr b off \<Rightarrow> (case blocks h b of None \<Rightarrow> None | Some blk \<Rightarrow> if off = 0 then bnext blk else None))"

definition set_next :: "ptr \<Rightarrow> ptr \<Rightarrow> heap \<Rightarrow> heap option" where
  "set_next p q h =
     (case p of Null \<Rightarrow> None
      | Ptr b off \<Rightarrow>
          (case blocks h b of None \<Rightarrow> None
           | Some blk \<Rightarrow>
               if off = 0 then Some (h\<lparr>blocks := (blocks h)(b \<mapsto> blk\<lparr>bnext := Some q\<rparr>)\<rparr>) else None))"

text \<open>Well-formed heaps: the numbers above the break have never been given out.\<close>

definition wf_heap :: "heap \<Rightarrow> bool" where
  "wf_heap h \<longleftrightarrow> (\<forall>b. brk h \<le> b \<longrightarrow> blocks h b = None)"

definition init_heap :: "(nat \<Rightarrow> nat \<Rightarrow> bool) \<Rightarrow> heap" where
  "init_heap f = \<lparr>blocks = (\<lambda>_. None), brk = 0, oom = f\<rparr>"

text \<open>An allocator that never hands out half of the address space or more.\<close>

definition big_fails :: "heap \<Rightarrow> bool" where
  "big_fails h \<longleftrightarrow> (\<forall>k n. 2 ^ 63 \<le> n \<longrightarrow> oom h k n)"

subsection \<open>Basic laws of the allocator\<close>

lemma wf_init_heap [simp]: "wf_heap (init_heap f)"
  by (simp add: wf_heap_def init_heap_def)

lemma init_heap_simps [simp]:
  "blocks (init_heap f) = (\<lambda>_. None)" "brk (init_heap f) = 0" "oom (init_heap f) = f"
  by (simp_all add: init_heap_def)

text \<open>A heap that refuses only such requests.\<close>

definition roomy_heap :: heap where
  "roomy_heap = init_heap (\<lambda>k n. 2 ^ 63 \<le> n)"

lemma roomy_heap_ok [simp]: "wf_heap roomy_heap" "big_fails roomy_heap"
  by (simp_all add: roomy_heap_def big_fails_def)

lemma wf_heapD: "wf_heap h \<Longrightarrow> live h b \<Longrightarrow> b < brk h"
  by (auto simp: wf_heap_def live_def not_less [symmetric])

lemma malloc_wf: "malloc_c n h = (p, h') \<Longrightarrow> wf_heap h \<Longrightarrow> wf_heap h'"
  by (auto simp: malloc_c_def wf_heap_def split: if_splits)

lemma calloc_wf: "calloc_c n h = (p, h') \<Longrightarrow> wf_heap h \<Longrightarrow> wf_heap h'"
  by (auto simp: calloc_c_def wf_heap_def split: if_splits)

lemma free_wf: "free_c p h = Some h' \<Longrightarrow> wf_heap h \<Longrightarrow> wf_heap h'"
  by (auto simp: free_c_def wf_heap_def split: ptr.splits if_splits)

lemma store_wf: "store_bytes p bs h = Some h' \<Longrightarrow> wf_heap h \<Longrightarrow> wf_heap h'"
  by (auto simp: store_bytes_def wf_heap_def split: ptr.splits option.splits if_splits)

lemma set_next_wf: "set_next p q h = Some h' \<Longrightarrow> wf_heap h \<Longrightarrow> wf_heap h'"
  by (auto simp: set_next_def wf_heap_def split: ptr.splits option.splits if_splits)

lemma realloc_wf: "realloc_c p n h = Some (q, h') \<Longrightarrow> wf_heap h \<Longrightarrow> wf_heap h'"
  by (auto simp: realloc_c_def malloc_c_def wf_heap_def split: ptr.splits option.splits if_splits)

lemma malloc_cases:
  assumes "malloc_c n h = (p, h')"
  obtains (fails) "p = Null" "blocks h' = blocks h" "brk h' = Suc (brk h)" "oom h' = oom h"
  | (works) "p = Ptr (brk h) 0"
      "blocks h' = (blocks h)(brk h \<mapsto> \<lparr>bsize = unat n, bdata = (\<lambda>_. None), bnext = None\<rparr>)"
      "brk h' = Suc (brk h)" "oom h' = oom h"
  using assms by (auto simp: malloc_c_def split: if_splits)

lemma malloc_fresh:
  "wf_heap h \<Longrightarrow> malloc_c n h = (Ptr b off, h') \<Longrightarrow> \<not> live h b \<and> live h' b \<and> off = 0"
  by (auto simp: malloc_c_def wf_heap_def live_def split: if_splits)

lemma malloc_live: "wf_heap h \<Longrightarrow> malloc_c n h = (p, h') \<Longrightarrow> live h b \<Longrightarrow> live h' b"
  by (auto simp: malloc_c_def wf_heap_def live_def split: if_splits)

lemma bytes_at_cong:
  "(\<And>j. i \<le> j \<Longrightarrow> j < i + n \<Longrightarrow> d j = d' j) \<Longrightarrow> bytes_at d i n = bytes_at d' i n"
proof (induction n arbitrary: i)
  case (Suc n)
  have "bytes_at d (Suc i) n = bytes_at d' (Suc i) n"
    by (rule Suc.IH) (simp add: Suc.prems)
  moreover have "d i = d' i" by (simp add: Suc.prems)
  ultimately show ?case by simp
qed simp

lemma bytes_at_written: "bytes_at (\<lambda>j. if i \<le> j \<and> j < i + length bs then Some (bs ! (j - i)) else d j) i (length bs) = Some bs"
proof (induction bs arbitrary: i d)
  case (Cons b bs)
  let ?d = "\<lambda>j. if i \<le> j \<and> j < i + length (b # bs) then Some ((b # bs) ! (j - i)) else d j"
  have "bytes_at ?d (Suc i) (length bs) =
        bytes_at (\<lambda>j. if Suc i \<le> j \<and> j < Suc i + length bs then Some (bs ! (j - Suc i)) else d j) (Suc i) (length bs)"
    by (rule bytes_at_cong) (auto simp: nth_Cons')
  with Cons.IH [of "Suc i" d] show ?case by simp
qed simp

lemma bytes_at_append:
  "bytes_at d i (m + n) =
     do { xs \<leftarrow> bytes_at d i m; ys \<leftarrow> bytes_at d (i + m) n; Some (xs @ ys) }"
proof (induction m arbitrary: i)
  case 0
  show ?case by simp
next
  case (Suc m)
  then show ?case by (cases "d i") (auto simp: Option.bind_assoc split: bind_splits)
qed

lemma bytes_at_length: "bytes_at d i n = Some bs \<Longrightarrow> length bs = n"
  by (induction n arbitrary: i bs) (auto simp: bind_Some_iff)

lemma bytes_at_parts:
  assumes "bytes_at d 0 n = Some bs" "k \<le> n"
  shows "bytes_at d 0 k = Some (take k bs)" "bytes_at d k (n - k) = Some (drop k bs)"
proof -
  obtain xs ys where xy: "bytes_at d 0 k = Some xs" "bytes_at d k (n - k) = Some ys" "bs = xs @ ys"
    using assms bytes_at_append [of d 0 k "n - k"] by (auto simp: bind_eq_Some_conv dest!: sym [where s = "Some bs"])
  then have "length xs = k" using bytes_at_length by blast
  with xy show "bytes_at d 0 k = Some (take k bs)" "bytes_at d k (n - k) = Some (drop k bs)" by simp_all
qed

lemma load_after_store:
  assumes "bytes_at d 0 n = Some xs"
  shows "bytes_at (\<lambda>i. if n \<le> i \<and> i < n + length bs then Some (bs ! (i - n)) else d i) 0 (n + length bs) = Some (xs @ bs)"
proof -
  let ?d = "\<lambda>i. if n \<le> i \<and> i < n + length bs then Some (bs ! (i - n)) else d i"
  have "bytes_at ?d 0 n = bytes_at d 0 n" by (rule bytes_at_cong) simp
  moreover have "bytes_at ?d n (length bs) = Some bs" by (rule bytes_at_written)
  ultimately show ?thesis using assms by (simp add: bytes_at_append)
qed

lemma load_store_same:
  assumes "store_bytes p bs h = Some h'"
  shows "load_bytes p (length bs) h' = Some bs"
  using assms
  by (auto simp: store_bytes_def load_bytes_def bytes_at_written split: ptr.splits option.splits if_splits)

subsection \<open>Growing a size by doubling\<close>

text \<open>
  The buffers grow by \<open>while(sz < size) sz *= 2\<close>: once the product wraps to zero the loop
  never ends, which is the result \<open>None\<close>.
\<close>

partial_function (option) double_until :: "u64 \<Rightarrow> u64 \<Rightarrow> u64 option" where
  "double_until sz need = (if sz < need then double_until (sz * 2) need else Some sz)"

lemma unat_double: "unat (sz :: u64) < 2 ^ 63 \<Longrightarrow> unat (sz * 2) = 2 * unat sz"
  by (simp add: unat_word_ariths)

lemma double_until_returns:
  "0 < sz \<Longrightarrow> unat need \<le> 2 ^ 63 \<Longrightarrow>
   \<exists>r. double_until sz need = Some r \<and> need \<le> r \<and> sz \<le> r \<and> (r = sz \<or> unat r < 2 * unat need)"
proof (induction "unat need - unat sz" arbitrary: sz rule: less_induct)
  case less
  show ?case
  proof (cases "sz < need")
    case True
    then have lt: "unat sz < unat need" and small: "unat sz < 2 ^ 63"
      using less.prems(2) by (simp_all add: word_less_nat_alt)
    then have dbl: "unat (sz * 2) = 2 * unat sz" by (intro unat_double)
    have pos: "0 < unat sz" using less.prems(1) by (simp add: word_less_nat_alt)
    have "0 < sz * 2" using dbl pos by (simp add: word_less_nat_alt)
    moreover have "unat need - unat (sz * 2) < unat need - unat sz" using dbl pos lt by linarith
    ultimately obtain r where "double_until (sz * 2) need = Some r" "need \<le> r" "sz * 2 \<le> r"
      "r = sz * 2 \<or> unat r < 2 * unat need"
      using less.hyps less.prems(2) by blast
    with True dbl pos lt show ?thesis
      by (subst double_until.simps) (auto simp: word_le_nat_alt)
  next
    case False
    then have "double_until sz need = Some sz" by (simp add: double_until.simps)
    with False show ?thesis by (simp add: not_less)
  qed
qed

lemma double_until_zero_diverges:
  assumes "0 < need"
  shows "double_until 0 need = None"
proof (rule ccontr)
  assume "double_until 0 need \<noteq> None"
  then obtain r where r: "double_until 0 need = Some r" by blast
  have "\<not> ((0 :: u64) = 0 \<and> 0 < need)"
    by (rule double_until.raw_induct [where P = "\<lambda>sz need r. \<not> (sz = 0 \<and> 0 < need)", OF _ r])
       (auto split: if_splits)
  with assms show False by simp
qed

end
