(* ===== verification/MsgpackZone.thy ===== *)
theory MsgpackZone
  imports CMemory
begin

text \<open>
  \<open>zone.h\<close> and \<open>zone.c\<close>: the arena that holds what the deserializer builds. A zone is a
  list of chunks linked through the first word of each, the bump pointer into the head chunk
  and an array of finalizers that run when the zone dies. The lemmas show that an allocation
  is a fresh region of a live chunk, that destroying a zone releases every chunk exactly
  once, when an allocation returns at all, and that clearing a zone of more than one chunk
  writes to a chunk it has just released.
\<close>

record chunk_list =
  cl_free :: u64
  cl_ptr :: ptr
  cl_head :: ptr

record finalizer =
  fin_func :: "ptr \<Rightarrow> heap \<Rightarrow> heap option"
  fin_data :: ptr

text \<open>
  The finalizer array: \<open>fa_items\<close> are the entries from \<open>array\<close> up to \<open>tail\<close> and
  \<open>fa_cap\<close> is \<open>end - array\<close>, so \<open>tail == end\<close> is that the list has that length.
\<close>

record finalizer_array =
  fa_items :: "finalizer list"
  fa_cap :: u64
  fa_array :: ptr

record zone =
  z_chunks :: chunk_list
  z_fins :: finalizer_array
  z_chunk_size :: u64

definition sizeof_chunk :: u64 where "sizeof_chunk = 8"
definition sizeof_finalizer :: u64 where "sizeof_finalizer = 16"
definition sizeof_zone :: u64 where "sizeof_zone = 56"
definition zone_align :: u64 where "zone_align = 4"

subsection \<open>Chunks\<close>

definition init_chunk_list :: "u64 \<Rightarrow> heap \<Rightarrow> (chunk_list option \<times> heap) option" where
  "init_chunk_list chunk_size h =
     (let (chunk, h) = malloc_c (sizeof_chunk + chunk_size) h in
      if chunk = Null then Some (None, h)
      else do {
        h \<leftarrow> set_next chunk Null h;
        Some (Some \<lparr>cl_free = chunk_size, cl_ptr = ptr_add chunk (unat sizeof_chunk), cl_head = chunk\<rparr>, h)
      })"

partial_function (option) free_chunks :: "ptr \<Rightarrow> heap \<Rightarrow> heap option" where
  "free_chunks c h =
     do { n \<leftarrow> get_next c h;
          h \<leftarrow> free_c c h;
          if n \<noteq> Null then free_chunks n h else Some h }"

definition destroy_chunk_list :: "chunk_list \<Rightarrow> heap \<Rightarrow> heap option" where
  "destroy_chunk_list cl h = free_chunks (cl_head cl) h"

partial_function (option) free_all_but_last :: "ptr \<Rightarrow> heap \<Rightarrow> heap option" where
  "free_all_but_last c h =
     do { n \<leftarrow> get_next c h;
          if n \<noteq> Null then do { h \<leftarrow> free_c c h; free_all_but_last n h } else Some h }"

definition clear_chunk_list :: "chunk_list \<Rightarrow> u64 \<Rightarrow> heap \<Rightarrow> (chunk_list \<times> heap) option" where
  "clear_chunk_list cl chunk_size h =
     do { h \<leftarrow> free_all_but_last (cl_head cl) h;
          h \<leftarrow> set_next (cl_head cl) Null h;
          Some (cl\<lparr>cl_free := chunk_size, cl_ptr := ptr_add (cl_head cl) (unat sizeof_chunk)\<rparr>, h) }"

definition msgpack_zone_malloc_expand :: "zone \<Rightarrow> u64 \<Rightarrow> heap \<Rightarrow> (ptr \<times> zone \<times> heap) option" where
  "msgpack_zone_malloc_expand zone need h =
     do { sz \<leftarrow> double_until (z_chunk_size zone) need;
          let (chunk, h) = malloc_c (sizeof_chunk + sz) h;
          let ptr = ptr_add chunk (unat sizeof_chunk);
          h \<leftarrow> set_next chunk (cl_head (z_chunks zone)) h;
          Some (ptr,
            zone\<lparr>z_chunks := \<lparr>cl_free = sz - need, cl_ptr = ptr_add ptr (unat need), cl_head = chunk\<rparr>\<rparr>, h) }"

definition msgpack_zone_malloc_no_align :: "zone \<Rightarrow> u64 \<Rightarrow> heap \<Rightarrow> (ptr \<times> zone \<times> heap) option" where
  "msgpack_zone_malloc_no_align zone need h =
     (let cl = z_chunks zone in
      if cl_free cl < need then msgpack_zone_malloc_expand zone need h
      else Some (cl_ptr cl,
             zone\<lparr>z_chunks := cl\<lparr>cl_free := cl_free cl - need, cl_ptr := ptr_add (cl_ptr cl) (unat need)\<rparr>\<rparr>, h))"

definition msgpack_zone_malloc :: "zone \<Rightarrow> u64 \<Rightarrow> heap \<Rightarrow> (ptr \<times> zone \<times> heap) option" where
  "msgpack_zone_malloc zone need h =
     msgpack_zone_malloc_no_align zone ((need + (zone_align - 1)) AND NOT (zone_align - 1)) h"

subsection \<open>Finalizers\<close>

definition init_finalizer_array :: finalizer_array where
  "init_finalizer_array = \<lparr>fa_items = [], fa_cap = 0, fa_array = Null\<rparr>"

primrec call_finalizers :: "finalizer list \<Rightarrow> heap \<Rightarrow> heap option" where
  "call_finalizers [] h = Some h"
| "call_finalizers (f # fs) h = do { h \<leftarrow> fin_func f (fin_data f) h; call_finalizers fs h }"

text \<open>From the tail down to the array: the entry pushed last runs first.\<close>

definition call_finalizer_array :: "finalizer_array \<Rightarrow> heap \<Rightarrow> heap option" where
  "call_finalizer_array fa h = call_finalizers (rev (fa_items fa)) h"

definition destroy_finalizer_array :: "finalizer_array \<Rightarrow> heap \<Rightarrow> heap option" where
  "destroy_finalizer_array fa h = do { h \<leftarrow> call_finalizer_array fa h; free_c (fa_array fa) h }"

definition clear_finalizer_array :: "finalizer_array \<Rightarrow> heap \<Rightarrow> (finalizer_array \<times> heap) option" where
  "clear_finalizer_array fa h = do { h \<leftarrow> call_finalizer_array fa h; Some (fa\<lparr>fa_items := []\<rparr>, h) }"

definition msgpack_zone_push_finalizer_expand ::
    "zone \<Rightarrow> finalizer \<Rightarrow> heap \<Rightarrow> (bool \<times> zone \<times> heap) option" where
  "msgpack_zone_push_finalizer_expand zone fin h =
     (let fa = z_fins zone;
          nused = fa_cap fa;
          nnext = (if nused = 0 then
                     (if sizeof_finalizer < 72 div 2 then 72 div sizeof_finalizer else 8)
                   else nused * 2)
      in do {
        (tmp, h) \<leftarrow> realloc_c (fa_array fa) (sizeof_finalizer * nnext) h;
        if tmp = Null then Some (False, zone, h)
        else Some (True,
               zone\<lparr>z_fins := \<lparr>fa_items = fa_items fa @ [fin], fa_cap = nnext, fa_array = tmp\<rparr>\<rparr>, h)
      })"

definition msgpack_zone_push_finalizer ::
    "zone \<Rightarrow> finalizer \<Rightarrow> heap \<Rightarrow> (bool \<times> zone \<times> heap) option" where
  "msgpack_zone_push_finalizer zone fin h =
     (let fa = z_fins zone in
      if length (fa_items fa) = unat (fa_cap fa) then msgpack_zone_push_finalizer_expand zone fin h
      else Some (True, zone\<lparr>z_fins := fa\<lparr>fa_items := fa_items fa @ [fin]\<rparr>\<rparr>, h))"

subsection \<open>Zones\<close>

definition msgpack_zone_swap :: "zone \<Rightarrow> zone \<Rightarrow> zone \<times> zone" where
  "msgpack_zone_swap a b = (b, a)"

definition msgpack_zone_is_empty :: "zone \<Rightarrow> heap \<Rightarrow> bool option" where
  "msgpack_zone_is_empty zone h =
     (let cl = z_chunks zone in
      if cl_free cl = z_chunk_size zone then
        do { n \<leftarrow> get_next (cl_head cl) h; Some (n = Null \<and> fa_items (z_fins zone) = []) }
      else Some False)"

definition msgpack_zone_destroy :: "zone \<Rightarrow> heap \<Rightarrow> heap option" where
  "msgpack_zone_destroy zone h =
     do { h \<leftarrow> destroy_finalizer_array (z_fins zone) h; destroy_chunk_list (z_chunks zone) h }"

definition msgpack_zone_clear :: "zone \<Rightarrow> heap \<Rightarrow> (zone \<times> heap) option" where
  "msgpack_zone_clear zone h =
     do { (fa, h) \<leftarrow> clear_finalizer_array (z_fins zone) h;
          (cl, h) \<leftarrow> clear_chunk_list (z_chunks zone) (z_chunk_size zone) h;
          Some (zone\<lparr>z_fins := fa, z_chunks := cl\<rparr>, h) }"

definition msgpack_zone_init :: "u64 \<Rightarrow> heap \<Rightarrow> (zone option \<times> heap) option" where
  "msgpack_zone_init chunk_size h =
     do { (cl, h) \<leftarrow> init_chunk_list chunk_size h;
          case cl of None \<Rightarrow> Some (None, h)
          | Some cl \<Rightarrow>
              Some (Some \<lparr>z_chunks = cl, z_fins = init_finalizer_array, z_chunk_size = chunk_size\<rparr>, h) }"

text \<open>A zone on the heap: the block that holds the structure, and the structure.\<close>

type_synonym zone_ref = "(ptr \<times> zone) option"

definition msgpack_zone_new :: "u64 \<Rightarrow> heap \<Rightarrow> (zone_ref \<times> heap) option" where
  "msgpack_zone_new chunk_size h =
     (let (zone, h) = malloc_c (sizeof_zone + chunk_size) h in
      if zone = Null then Some (None, h)
      else do {
        (cl, h) \<leftarrow> init_chunk_list chunk_size h;
        case cl of
          None \<Rightarrow> do { h \<leftarrow> free_c zone h; Some (None, h) }
        | Some cl \<Rightarrow>
            Some (Some (zone, \<lparr>z_chunks = cl, z_fins = init_finalizer_array, z_chunk_size = chunk_size\<rparr>), h)
      })"

definition msgpack_zone_free :: "zone_ref \<Rightarrow> heap \<Rightarrow> heap option" where
  "msgpack_zone_free zone h =
     (case zone of None \<Rightarrow> Some h
      | Some (p, z) \<Rightarrow> do { h \<leftarrow> msgpack_zone_destroy z h; free_c p h })"

subsection \<open>The chunks of a zone\<close>

primrec chunk_path :: "heap \<Rightarrow> ptr \<Rightarrow> nat list \<Rightarrow> bool" where
  "chunk_path h p [] \<longleftrightarrow> p = Null"
| "chunk_path h p (b # bs) \<longleftrightarrow>
     p = Ptr b 0 \<and> (\<exists>blk q. blocks h b = Some blk \<and> bnext blk = Some q \<and> chunk_path h q bs)"

lemma chunk_path_cong:
  "(\<And>b. b \<in> set bs \<Longrightarrow> blocks h b = blocks h' b) \<Longrightarrow> chunk_path h p bs = chunk_path h' p bs"
  by (induction bs arbitrary: p) auto

lemma chunk_path_live: "chunk_path h p bs \<Longrightarrow> b \<in> set bs \<Longrightarrow> live h b"
  by (induction bs arbitrary: p) (auto simp: live_def)

lemma chunk_path_None_head: "chunk_path h p bs \<Longrightarrow> p \<noteq> Null \<longleftrightarrow> bs \<noteq> []"
  by (cases bs) auto

definition drop_blocks :: "nat set \<Rightarrow> heap \<Rightarrow> heap" where
  "drop_blocks S h = h\<lparr>blocks := (\<lambda>b. if b \<in> S then None else blocks h b)\<rparr>"

lemma drop_blocks_simps [simp]:
  "blocks (drop_blocks S h) b = (if b \<in> S then None else blocks h b)"
  "brk (drop_blocks S h) = brk h" "oom (drop_blocks S h) = oom h"
  "drop_blocks S (drop_blocks T h) = drop_blocks (S \<union> T) h" "drop_blocks {} h = h"
  by (cases h; auto simp: drop_blocks_def)+

lemma free_c_drop: "blocks h b = Some blk \<Longrightarrow> free_c (Ptr b 0) h = Some (drop_blocks {b} h)"
  by (auto simp: free_c_def live_def drop_blocks_def intro!: arg_cong [where f = "\<lambda>f. blocks_update f h"] ext)

lemma chunk_path_drop: "chunk_path h p bs \<Longrightarrow> set bs \<inter> S = {} \<Longrightarrow> chunk_path (drop_blocks S h) p bs"
  by (subst chunk_path_cong [where h' = h]) auto

lemma free_chunks_path:
  "chunk_path h p bs \<Longrightarrow> distinct bs \<Longrightarrow> bs \<noteq> [] \<Longrightarrow>
   free_chunks p h = Some (drop_blocks (set bs) h)"
proof (induction bs arbitrary: p h)
  case (Cons b bs)
  then obtain blk q where p: "p = Ptr b 0" and b: "blocks h b = Some blk" "bnext blk = Some q"
    and path: "chunk_path h q bs" by auto
  have step: "free_chunks p h = (if q \<noteq> Null then free_chunks q (drop_blocks {b} h) else Some (drop_blocks {b} h))"
    using p b by (subst free_chunks.simps) (simp add: get_next_def free_c_drop)
  show ?case
  proof (cases "bs = []")
    case True
    then show ?thesis using path step by simp
  next
    case False
    then have "q \<noteq> Null" using path by (cases bs) auto
    with step Cons.IH [of "drop_blocks {b} h" q] False Cons.prems(2) path show ?thesis
      by (simp add: chunk_path_drop)
  qed
qed simp

lemma free_all_but_last_path:
  "chunk_path h p (bs @ [l]) \<Longrightarrow> distinct (bs @ [l]) \<Longrightarrow>
   free_all_but_last p h = Some (drop_blocks (set bs) h)"
proof (induction bs arbitrary: p h)
  case Nil
  then show ?case by (subst free_all_but_last.simps) (auto simp: get_next_def)
next
  case (Cons b bs)
  then obtain blk q where p: "p = Ptr b 0" and b: "blocks h b = Some blk" "bnext blk = Some q"
    and path: "chunk_path h q (bs @ [l])" by auto
  have "q \<noteq> Null" using path by (cases bs) auto
  then have "free_all_but_last p h = free_all_but_last q (drop_blocks {b} h)"
    using p b by (subst free_all_but_last.simps) (simp add: get_next_def free_c_drop)
  with Cons.IH [of "drop_blocks {b} h" q] Cons.prems(2) path show ?case
    by (simp add: chunk_path_drop)
qed

lemma clear_chunk_list_two:
  assumes "chunk_path h (cl_head cl) (b # c # bs)" "distinct (b # c # bs)"
  shows "clear_chunk_list cl n h = None"
proof -
  obtain cs l where eq: "b # c # bs = cs @ [l]" by (metis append_butlast_last_id list.discI)
  then have "b \<in> set cs" by (cases cs) auto
  moreover have "cl_head cl = Ptr b 0" using assms(1) by simp
  ultimately show ?thesis
    using free_all_but_last_path [of h "cl_head cl" cs l] assms unfolding eq
    by (simp add: clear_chunk_list_def set_next_def)
qed

lemma clear_chunk_list_one:
  assumes "chunk_path h (cl_head cl) [b]"
  shows "\<exists>h'. clear_chunk_list cl n h = Some (cl\<lparr>cl_free := n, cl_ptr := Ptr b 8\<rparr>, h') \<and>
    chunk_path h' (cl_head cl) [b] \<and> dom (blocks h') = dom (blocks h) \<and> brk h' = brk h"
  using assms free_all_but_last_path [of h "cl_head cl" "[]" b]
  by (auto simp: clear_chunk_list_def set_next_def ptr_add_def sizeof_chunk_def)
subsection \<open>What a zone has handed out\<close>

text \<open>
  \<open>zone_ok h z bs\<close>: the chunks of \<open>z\<close> are the live blocks \<open>bs\<close>, the bump pointer and
  the free count stay inside the first, and the finalizer array is a block of its own with
  room for \<open>fa_cap\<close> entries. \<open>zone_blocks\<close> are the blocks the zone has to release.
\<close>

definition fins_ok :: "heap \<Rightarrow> finalizer_array \<Rightarrow> nat set \<Rightarrow> bool" where
  "fins_ok h fa S \<longleftrightarrow>
     (case fa_array fa of
        Null \<Rightarrow> fa_cap fa = 0 \<and> fa_items fa = []
      | Ptr a off \<Rightarrow> off = 0 \<and> a \<notin> S \<and> length (fa_items fa) \<le> unat (fa_cap fa) \<and> fa_cap fa \<noteq> 0 \<and>
          (case blocks h a of None \<Rightarrow> False | Some blk \<Rightarrow> 16 * unat (fa_cap fa) = bsize blk))"

definition zone_ok :: "heap \<Rightarrow> zone \<Rightarrow> nat list \<Rightarrow> bool" where
  "zone_ok h z bs \<longleftrightarrow>
     wf_heap h \<and> bs \<noteq> [] \<and> distinct bs \<and> chunk_path h (cl_head (z_chunks z)) bs \<and>
     pblock (cl_ptr (z_chunks z)) = hd bs \<and> cl_ptr (z_chunks z) \<noteq> Null \<and>
     8 \<le> poff (cl_ptr (z_chunks z)) \<and>
     (case blocks h (hd bs) of None \<Rightarrow> False
      | Some blk \<Rightarrow> poff (cl_ptr (z_chunks z)) + unat (cl_free (z_chunks z)) \<le> bsize blk) \<and>
     0 < z_chunk_size z \<and> z_chunk_size z \<le> 2 ^ 62 \<and>
     fins_ok h (z_fins z) (set bs)"

definition zone_blocks :: "zone \<Rightarrow> nat list \<Rightarrow> nat set" where
  "zone_blocks z bs = set bs \<union> (case fa_array (z_fins z) of Null \<Rightarrow> {} | Ptr a off \<Rightarrow> {a})"

type_synonym region = "nat \<times> nat \<times> nat"

fun regions_apart :: "region \<Rightarrow> region \<Rightarrow> bool" where
  "regions_apart (b, i, n) (b', i', n') \<longleftrightarrow> b \<noteq> b' \<or> i + n \<le> i' \<or> i' + n' \<le> i"

fun region_ok :: "heap \<Rightarrow> zone \<Rightarrow> nat list \<Rightarrow> region \<Rightarrow> bool" where
  "region_ok h z bs (b, i, n) \<longleftrightarrow>
     b \<in> set bs \<and> 8 \<le> i \<and>
     (case blocks h b of None \<Rightarrow> False | Some blk \<Rightarrow> i + n \<le> bsize blk) \<and>
     (b = hd bs \<longrightarrow> i + n \<le> poff (cl_ptr (z_chunks z)))"

definition regions_ok :: "heap \<Rightarrow> zone \<Rightarrow> nat list \<Rightarrow> region list \<Rightarrow> bool" where
  "regions_ok h z bs rs \<longleftrightarrow> list_all (region_ok h z bs) rs \<and> sorted_wrt regions_apart rs"

lemma zone_free_okI:
  assumes "zone_ok h z bs" "need \<le> cl_free (z_chunks z)" "regions_ok h z bs rs"
    and "z' = z\<lparr>z_chunks := (z_chunks z)\<lparr>cl_free := cl_free (z_chunks z) - need,
           cl_ptr := ptr_add (cl_ptr (z_chunks z)) (unat need)\<rparr>\<rparr>"
  shows "zone_ok h z' bs \<and> regions_ok h z' bs ((hd bs, poff (cl_ptr (z_chunks z)), unat need) # rs)"
proof -
  have "unat (cl_free (z_chunks z) - need) = unat (cl_free (z_chunks z)) - unat need"
    "unat need \<le> unat (cl_free (z_chunks z))"
    using assms(2) by (simp_all add: unat_sub word_le_nat_alt)
  moreover obtain b off where "cl_ptr (z_chunks z) = Ptr b off"
    using assms(1) by (cases "cl_ptr (z_chunks z)") (auto simp: zone_ok_def)
  moreover have "hd bs \<in> set bs" using assms(1) by (simp add: zone_ok_def)
  ultimately have f: "unat (cl_free (z_chunks z) - need) = unat (cl_free (z_chunks z)) - unat need"
    "unat need \<le> unat (cl_free (z_chunks z))" "cl_ptr (z_chunks z) = Ptr (hd bs) off" "hd bs \<in> set bs"
    using assms(1) by (auto simp: zone_ok_def)
  have "zone_ok h z' bs" using assms(1,4) f by (auto simp: zone_ok_def ptr_add_def split: option.splits)
  moreover have "region_ok h z' bs r \<and> regions_apart (hd bs, off, unat need) r" if "region_ok h z bs r" for r
    using that f assms(4) by (cases r) (auto simp: ptr_add_def)
  moreover have "region_ok h z' bs (hd bs, off, unat need)"
    using assms(1,4) f by (auto simp: zone_ok_def ptr_add_def split: option.splits)
  ultimately show ?thesis using assms(3) f by (auto simp: regions_ok_def list_all_iff)
qed

lemma zone_new_chunk_okI:
  assumes ok: "zone_ok h z bs" and rs: "regions_ok h z bs rs"
    and need: "unat need \<le> unat sz" "unat sz < 2 ^ 63"
    and m: "malloc_c (8 + sz) h = (Ptr b 0, h1)"
    and s: "set_next (Ptr b 0) (cl_head (z_chunks z)) h1 = Some h'"
    and z': "z' = z\<lparr>z_chunks := \<lparr>cl_free = sz - need, cl_ptr = Ptr b (8 + unat need), cl_head = Ptr b 0\<rparr>\<rparr>"
  shows "zone_ok h' z' (b # bs) \<and> regions_ok h' z' (b # bs) ((b, 8, unat need) # rs)"
proof -
  have sz: "unat (8 + sz) = 8 + unat sz" "unat (sz - need) = unat sz - unat need"
    using need by (simp_all add: unat_word_ariths unat_sub word_le_nat_alt)
  have b: "b = brk h" and h1: "blocks h1 = (blocks h)(b \<mapsto> \<lparr>bsize = 8 + unat sz, bdata = (\<lambda>_. None), bnext = None\<rparr>)"
    and brk1: "brk h1 = Suc (brk h)"
    using m sz by (auto simp: malloc_c_def split: if_splits)
  have h': "blocks h' = (blocks h)(b \<mapsto> \<lparr>bsize = 8 + unat sz, bdata = (\<lambda>_. None), bnext = Some (cl_head (z_chunks z))\<rparr>)"
    and brk': "brk h' = Suc (brk h)"
    using s by (auto simp: set_next_def h1 brk1)
  have fresh: "blocks h b = None" using ok b by (simp add: zone_ok_def wf_heap_def)
  have bs: "b \<notin> set bs" using ok fresh chunk_path_live by (fastforce simp: zone_ok_def live_def)
  have same: "blocks h' c = blocks h c" if "c \<noteq> b" for c using that by (simp add: h')
  have same': "blocks h c = blocks h' c" if "c \<in> set bs" for c using that bs same by metis
  have path: "chunk_path h' (cl_head (z_chunks z)) bs"
    using ok same' by (subst chunk_path_cong [where h' = h]) (auto simp: zone_ok_def)
  have fins: "fins_ok h' (z_fins z) (insert b (set bs))"
    using ok fresh by (auto simp: zone_ok_def fins_ok_def h' split: ptr.splits option.splits)
  have wf: "wf_heap h'" using ok b by (auto simp: zone_ok_def wf_heap_def h' brk')
  have old: "region_ok h' z' (b # bs) r \<and> regions_apart (b, 8, unat need) r" if "region_ok h z bs r" for r
    using that bs by (cases r) (auto simp: same' [symmetric])
  have new: "region_ok h' z' (b # bs) (b, 8, unat need)" using need by (simp add: z' h')
  have "zone_ok h' z' (b # bs)"
    using ok bs path fins wf sz need by (simp add: zone_ok_def z' h')
  moreover have "regions_ok h' z' (b # bs) ((b, 8, unat need) # rs)"
    using rs old new by (auto simp: regions_ok_def list_all_iff simp del: region_ok.simps regions_apart.simps)
  ultimately show ?thesis ..
qed

lemma zone_malloc_no_align_ok:
  assumes ok: "zone_ok h z bs" and rs: "regions_ok h z bs rs" and need: "need \<le> 2 ^ 62"
    and run: "msgpack_zone_malloc_no_align z need h = Some (p, z', h')"
  shows "\<exists>b off bs'. p = Ptr b off \<and> zone_ok h' z' bs' \<and>
    regions_ok h' z' bs' ((b, off, unat need) # rs) \<and>
    (\<forall>c. c \<notin> zone_blocks z' bs' \<longrightarrow> blocks h' c = blocks h c) \<and>
    zone_blocks z bs \<subseteq> zone_blocks z' bs' \<and> z_fins z' = z_fins z \<and>
    (\<forall>c \<in> zone_blocks z' bs'. c \<in> zone_blocks z bs \<or> blocks h c = None)"
proof (cases "cl_free (z_chunks z) < need")
  case False
  have "cl_ptr (z_chunks z) = Ptr (hd bs) (poff (cl_ptr (z_chunks z)))"
    using ok by (cases "cl_ptr (z_chunks z)") (auto simp: zone_ok_def)
  moreover have "p = cl_ptr (z_chunks z)" "h' = h" "z_fins z' = z_fins z"
    using run False by (auto simp: msgpack_zone_malloc_no_align_def Let_def)
  moreover have "zone_ok h z' bs \<and> regions_ok h z' bs ((hd bs, poff (cl_ptr (z_chunks z)), unat need) # rs)"
    using run False by (intro zone_free_okI [OF ok _ rs]) (auto simp: msgpack_zone_malloc_no_align_def Let_def)
  ultimately show ?thesis by (intro exI [of _ "hd bs"] exI [of _ "poff (cl_ptr (z_chunks z))"] exI [of _ bs]) (auto simp: zone_blocks_def)
next
  case True
  have pos: "0 < z_chunk_size z" and cs: "unat (z_chunk_size z) \<le> 2 ^ 62" and nd: "unat need \<le> 2 ^ 62"
    using ok need by (simp_all add: zone_ok_def word_le_nat_alt)
  obtain sz where sz: "double_until (z_chunk_size z) need = Some sz" "need \<le> sz"
    "sz = z_chunk_size z \<or> unat sz < 2 * unat need"
    using double_until_returns [OF pos, of need] nd by auto
  have lt: "unat sz < 2 ^ 63" using sz(3) nd cs by auto
  from run True sz(1) obtain ch h1 where m: "malloc_c (8 + sz) h = (ch, h1)"
    and st: "set_next ch (cl_head (z_chunks z)) h1 = Some h'" and p: "p = ptr_add ch 8"
    and z': "z' = z\<lparr>z_chunks := \<lparr>cl_free = sz - need, cl_ptr = ptr_add (ptr_add ch 8) (unat need), cl_head = ch\<rparr>\<rparr>"
    by (auto simp: msgpack_zone_malloc_no_align_def msgpack_zone_malloc_expand_def sizeof_chunk_def Let_def
        bind_Some_iff split: prod.splits)
  then have ch: "ch = Ptr (brk h) 0" by (auto simp: malloc_c_def set_next_def split: if_splits)
  have "zone_ok h' z' (brk h # bs) \<and> regions_ok h' z' (brk h # bs) ((brk h, 8, unat need) # rs)"
    using sz(2) lt m st z'
    by (intro zone_new_chunk_okI [OF ok rs]) (auto simp: ch ptr_add_def word_le_nat_alt)
  moreover have "blocks h' c = blocks h c" if "c \<noteq> brk h" for c
    using that m st ch by (auto simp: malloc_c_def set_next_def split: if_splits option.splits)
  moreover have "blocks h (brk h) = None" using ok by (simp add: zone_ok_def wf_heap_def)
  ultimately show ?thesis using p z'
    by (intro exI [of _ "brk h"] exI [of _ 8] exI [of _ "brk h # bs"]) (auto simp: ch ptr_add_def zone_blocks_def)
qed

lemma zone_ok_frame:
  assumes "zone_ok h z bs" "wf_heap h'" "fins_ok h' fa (set bs)"
    and same: "\<And>c. c \<in> set bs \<Longrightarrow> blocks h' c = blocks h c"
  shows "zone_ok h' (z\<lparr>z_fins := fa\<rparr>) bs"
    "regions_ok h z bs rs \<Longrightarrow> regions_ok h' (z\<lparr>z_fins := fa\<rparr>) bs rs"
proof -
  have "chunk_path h' p bs = chunk_path h p bs" for p
    using same by (intro chunk_path_cong)
  moreover have "hd bs \<in> set bs" using assms(1) by (simp add: zone_ok_def)
  ultimately show "zone_ok h' (z\<lparr>z_fins := fa\<rparr>) bs"
    using assms by (auto simp: zone_ok_def split: option.splits)
  have "region_ok h' (z\<lparr>z_fins := fa\<rparr>) bs r" if "region_ok h z bs r" for r
    using that same by (cases r) auto
  then show "regions_ok h z bs rs \<Longrightarrow> regions_ok h' (z\<lparr>z_fins := fa\<rparr>) bs rs"
    by (auto simp: regions_ok_def list_all_iff)
qed

text \<open>The blocks a step of the zone may change: only its own and fresh ones.\<close>

definition zone_frame :: "heap \<Rightarrow> nat set \<Rightarrow> heap \<Rightarrow> nat set \<Rightarrow> bool" where
  "zone_frame h S h' S' \<longleftrightarrow>
     (\<forall>c. (c \<notin> S \<and> c \<notin> S' \<longrightarrow> blocks h' c = blocks h c) \<and>
          (c \<in> S' \<and> c \<notin> S \<longrightarrow> blocks h c = None) \<and> (c \<in> S \<and> c \<notin> S' \<longrightarrow> blocks h' c = None))"

lemma push_finalizer_grows:
  assumes ok: "zone_ok h z bs" and full: "length (fa_items (z_fins z)) = unat (fa_cap (z_fins z))"
    and few: "length (fa_items (z_fins z)) < 2 ^ 58"
    and run: "msgpack_zone_push_finalizer_expand z fin h = Some (r, z', h')"
  obtains (fails) "\<not> r" "z' = z" "blocks h' = blocks h" "wf_heap h'"
  | (grows) fa blk where "r" "z' = z\<lparr>z_fins := fa\<rparr>" "fa_items fa = fa_items (z_fins z) @ [fin]"
      "fa_array fa = Ptr (brk h) 0" "bsize blk = 16 * unat (fa_cap fa)"
      "length (fa_items fa) \<le> unat (fa_cap fa)"
      "blocks h' = (case fa_array (z_fins z) of Null \<Rightarrow> blocks h
                    | Ptr a off \<Rightarrow> (blocks h)(a := None))(brk h \<mapsto> blk)" "wf_heap h'"
proof (cases "fa_array (z_fins z)")
  case Null
  have wf: "wf_heap h" and c0: "fa_cap (z_fins z) = 0" "fa_items (z_fins z) = []"
    using ok Null by (auto simp: zone_ok_def fins_ok_def)
  show thesis
  proof (cases "oom h (brk h) 64")
    case True
    then show thesis using run wf
      by (intro fails) (auto simp: msgpack_zone_push_finalizer_expand_def sizeof_finalizer_def c0 Null realloc_c_def
          malloc_c_def wf_heap_def)
  next
    case False
    then show thesis using run wf
      by (intro grows) (auto simp: msgpack_zone_push_finalizer_expand_def sizeof_finalizer_def c0 Null realloc_c_def
          malloc_c_def wf_heap_def)
  qed
next
  case (Ptr a off)
  let ?n = "unat (fa_cap (z_fins z))"
  obtain blk where a: "blocks h a = Some blk" "off = 0" "fa_cap (z_fins z) \<noteq> 0" and wf: "wf_heap h"
    and size: "bsize blk = 16 * ?n"
    using ok Ptr by (auto simp: zone_ok_def fins_ok_def split: option.splits)
  have n: "0 < ?n" "unat (fa_cap (z_fins z) * 2) = 2 * ?n" "unat (16 * (fa_cap (z_fins z) * 2)) = 16 * (2 * ?n)"
    using a(3) few full by (simp_all add: unat_word_ariths unat_gt_0)
  show thesis
  proof (cases "oom h (brk h) (16 * (2 * ?n))")
    case True
    then show thesis using run wf a n
      by (intro fails) (auto simp: msgpack_zone_push_finalizer_expand_def sizeof_finalizer_def Ptr realloc_c_def
          malloc_c_def wf_heap_def Let_def)
  next
    case False
    then show thesis using run wf a n full
      by (intro grows) (auto simp: msgpack_zone_push_finalizer_expand_def sizeof_finalizer_def Ptr realloc_c_def
          malloc_c_def wf_heap_def Let_def)
  qed
qed

lemma push_finalizer_ok:
  assumes ok: "zone_ok h z bs" and rs: "regions_ok h z bs rs"
    and few: "length (fa_items (z_fins z)) < 2 ^ 58"
    and run: "msgpack_zone_push_finalizer z fin h = Some (r, z', h')"
  shows "zone_ok h' z' bs \<and> regions_ok h' z' bs rs \<and>
    fa_items (z_fins z') = (if r then fa_items (z_fins z) @ [fin] else fa_items (z_fins z)) \<and>
    zone_frame h (zone_blocks z bs) h' (zone_blocks z' bs)"
proof (cases "length (fa_items (z_fins z)) = unat (fa_cap (z_fins z))")
  case False
  define fa where "fa = z_fins z\<lparr>fa_items := fa_items (z_fins z) @ [fin]\<rparr>"
  have z': "r" "z' = z\<lparr>z_fins := fa\<rparr>" "h' = h"
    using False run by (auto simp: msgpack_zone_push_finalizer_def Let_def fa_def)
  have "fins_ok h fa (set bs)"
    using ok False by (auto simp: zone_ok_def fins_ok_def fa_def split: ptr.splits option.splits)
  then have "zone_ok h' z' bs" "regions_ok h' z' bs rs"
    using zone_ok_frame [OF ok, of h fa] ok rs z' by (auto simp: zone_ok_def)
  with z' show ?thesis by (auto simp: zone_frame_def zone_blocks_def fa_def)
next
  case True
  have new: "brk h \<notin> set bs" "blocks h (brk h) = None"
    using ok chunk_path_live by (fastforce simp: zone_ok_def wf_heap_def live_def)+
  from True run have run': "msgpack_zone_push_finalizer_expand z fin h = Some (r, z', h')"
    by (simp add: msgpack_zone_push_finalizer_def)
  show ?thesis
  proof (cases rule: push_finalizer_grows [OF ok True few run', case_names fails grows])
    case fails
    then show ?thesis using ok rs zone_ok_frame [OF ok fails(4), of "z_fins z"]
      by (auto simp: zone_frame_def zone_ok_def fins_ok_def split: ptr.splits option.splits)
  next
    case (grows fa blk)
    have "c \<in> set bs \<Longrightarrow> blocks h' c = blocks h c" for c
      using grows(7) new ok by (auto simp: zone_ok_def fins_ok_def split: ptr.splits option.splits)
    moreover have "fins_ok h' fa (set bs)"
      using grows new(1) by (auto simp: fins_ok_def)
    ultimately have "zone_ok h' z' bs" "regions_ok h' z' bs rs"
      using zone_ok_frame [OF ok grows(8), of fa] rs grows(2) by auto
    moreover have "zone_frame h (zone_blocks z bs) h' (zone_blocks z' bs)"
      using grows new ok by (auto simp: zone_frame_def zone_blocks_def zone_ok_def fins_ok_def split: ptr.splits option.splits)
    ultimately show ?thesis using grows by simp
  qed
qed

lemma push_finalizer_returns:
  assumes ok: "zone_ok h z bs" 
  shows "msgpack_zone_push_finalizer z fin h \<noteq> None"
  using assms
  by (auto simp: msgpack_zone_push_finalizer_def msgpack_zone_push_finalizer_expand_def Let_def realloc_c_def
     malloc_c_def zone_ok_def fins_ok_def split: option.splits ptr.splits prod.splits)
lemma zone_malloc_no_align_returns:
  assumes "zone_ok h z bs" "need \<le> 2 ^ 62" "\<And>k n. \<not> oom h k n"
  shows "\<exists>p z' h'. msgpack_zone_malloc_no_align z need h = Some (p, z', h')"
proof -
  have "0 < z_chunk_size z" "unat need \<le> 2 ^ 62"
    using assms by (simp_all add: zone_ok_def word_le_nat_alt)
  then obtain sz where "double_until (z_chunk_size z) need = Some sz"
    using double_until_returns [of "z_chunk_size z" need] by auto
  then show ?thesis using assms(3)
    by (simp add: msgpack_zone_malloc_no_align_def msgpack_zone_malloc_expand_def sizeof_chunk_def Let_def
        malloc_c_def set_next_def)
qed

lemma align4:
  fixes n :: u64
  assumes "n \<le> 2 ^ 62"
  shows "unat ((n + (zone_align - 1)) AND NOT (zone_align - 1)) = (unat n + 3) div 4 * 4"
proof -
  let ?x = "n + 3"
  have x: "unat ?x = unat n + 3"
    using assms by (simp add: unat_word_ariths word_le_nat_alt)
  have "?x AND 3 = take_bit 2 ?x"
    by (simp add: take_bit_eq_mask mask_eq_exp_minus_1)
  then have low: "unat (?x AND 3) = unat ?x mod 4"
    by (simp add: unsigned_take_bit_eq take_bit_eq_mod unat_mod_distrib)
  have "(?x AND 3) AND (?x AND NOT 3) = 0" "(?x AND 3) OR (?x AND NOT 3) = ?x"
    by (rule bit_eqI, auto simp: bit_simps)+
  then have "?x = (?x AND 3) + (?x AND NOT 3)" by (simp add: disjunctive_add_eq_or)
  moreover have "unat (?x AND NOT 3) \<le> unat ?x"
    by (metis word_and_le1 word_and_le2 word_le_nat_alt)
  ultimately have "unat (?x AND NOT 3) = unat ?x - unat (?x AND 3)"
    by (metis add_diff_cancel_left' unat_sub word_and_le2)
  then have "unat (?x AND NOT 3) = unat ?x div 4 * 4" using low
    by (metis minus_mod_eq_div_mult)
  then show ?thesis by (simp add: zone_align_def x)
qed

lemma zone_frame_trans:
  "zone_frame h S h' S' \<Longrightarrow> zone_frame h' S' h'' S'' \<Longrightarrow> zone_frame h S h'' S''"
  unfolding zone_frame_def
proof (intro allI, goal_cases)
  case (1 c)
  from 1 [THEN spec [of _ c]] show ?case
    by (cases "c \<in> S"; cases "c \<in> S'"; cases "c \<in> S''") auto
qed

lemma zone_frame_refl: "zone_frame h S h S"
  by (simp add: zone_frame_def)

lemma zone_malloc_ok:
  assumes ok: "zone_ok h z bs" and rs: "regions_ok h z bs rs" and need: "need \<le> 2 ^ 62 - 4"
    and run: "msgpack_zone_malloc z need h = Some (p, z', h')"
  shows "\<exists>b off bs'. p = Ptr b off \<and> zone_ok h' z' bs' \<and>
    regions_ok h' z' bs' ((b, off, (unat need + 3) div 4 * 4) # rs) \<and> z_fins z' = z_fins z \<and>
    zone_frame h (zone_blocks z bs) h' (zone_blocks z' bs')"
proof -
  let ?n = "(need + (zone_align - 1)) AND NOT (zone_align - 1)"
  have u: "unat ?n = (unat need + 3) div 4 * 4"
    using need by (intro align4) (simp add: word_le_nat_alt)
  have le: "?n \<le> 2 ^ 62" using need unfolding word_le_nat_alt u by simp
  obtain b off bs' where "p = Ptr b off" "zone_ok h' z' bs'" "regions_ok h' z' bs' ((b, off, unat ?n) # rs)"
    "z_fins z' = z_fins z" "\<forall>c. c \<notin> zone_blocks z' bs' \<longrightarrow> blocks h' c = blocks h c"
    "zone_blocks z bs \<subseteq> zone_blocks z' bs'"
    "\<forall>c \<in> zone_blocks z' bs'. c \<in> zone_blocks z bs \<or> blocks h c = None"
    using zone_malloc_no_align_ok [OF ok rs le] run by (auto simp: msgpack_zone_malloc_def)
  then show ?thesis unfolding u zone_frame_def by blast
qed

subsection \<open>The life of a zone\<close>

text \<open>
  The calls a client makes between \<open>init\<close> and \<open>destroy\<close>: the run lists the region each
  allocation returned, the latest first.
\<close>

datatype zone_op = Zmalloc u64 | Zpush finalizer

primrec zone_run :: "zone_op list \<Rightarrow> zone \<Rightarrow> heap \<Rightarrow> (region list \<times> zone \<times> heap) option" where
  "zone_run [] z h = Some ([], z, h)"
| "zone_run (a # ops) z h =
     (case a of
        Zmalloc need \<Rightarrow>
          do { (p, z, h) \<leftarrow> msgpack_zone_malloc z need h;
               (rs, z, h) \<leftarrow> zone_run ops z h;
               Some (rs @ [(pblock p, poff p, unat need)], z, h) }
      | Zpush fin \<Rightarrow>
          do { (r, z, h) \<leftarrow> msgpack_zone_push_finalizer z fin h; zone_run ops z h })"

primrec zone_op_ok :: "zone_op \<Rightarrow> bool" where
  "zone_op_ok (Zmalloc need) \<longleftrightarrow> need \<le> 2 ^ 62 - 4"
| "zone_op_ok (Zpush fin) \<longleftrightarrow> (\<forall>h. fin_func fin (fin_data fin) h = Some h)"

definition zone_inv :: "heap \<Rightarrow> zone \<Rightarrow> nat list \<Rightarrow> region list \<Rightarrow> bool" where
  "zone_inv h z bs rs \<longleftrightarrow> zone_ok h z bs \<and> regions_ok h z bs rs \<and>
     list_all (\<lambda>fin. zone_op_ok (Zpush fin)) (fa_items (z_fins z))"

lemma regions_apart_shrink:
  "regions_apart (b, i, n) r \<Longrightarrow> m \<le> n \<Longrightarrow> regions_apart (b, i, m) r"
  by (cases r) auto

lemma regions_ok_shrink:
  "regions_ok h z bs ((b, i, n) # rs) \<Longrightarrow> m \<le> n \<Longrightarrow> regions_ok h z bs ((b, i, m) # rs)"
  by (auto simp: regions_ok_def regions_apart_shrink split: option.splits
      simp del: regions_apart.simps)

lemma zone_run_inv:
  "zone_run ops z h = Some (rs, z', h') \<Longrightarrow> list_all zone_op_ok ops \<Longrightarrow>
   zone_inv h z bs rs0 \<Longrightarrow> length (fa_items (z_fins z)) + length ops < 2 ^ 58 \<Longrightarrow>
   \<exists>bs'. zone_inv h' z' bs' (rs @ rs0) \<and> zone_frame h (zone_blocks z bs) h' (zone_blocks z' bs')"
proof (induction ops arbitrary: z h rs rs0 bs)
  case Nil
  then show ?case by (auto intro: zone_frame_refl)
next
  case (Cons a ops)
  show ?case
  proof (cases a)
    case (Zmalloc need)
    then obtain p z1 h1 rs1 where m: "msgpack_zone_malloc z need h = Some (p, z1, h1)"
      and r: "zone_run ops z1 h1 = Some (rs1, z', h')" and rs: "rs = rs1 @ [(pblock p, poff p, unat need)]"
      using Cons.prems(1) by (auto simp: bind_Some_iff)
    obtain b off bs1 where p: "p = Ptr b off" and ok: "zone_ok h1 z1 bs1"
      and rg: "regions_ok h1 z1 bs1 ((b, off, (unat need + 3) div 4 * 4) # rs0)" and f: "z_fins z1 = z_fins z"
      and fr: "zone_frame h (zone_blocks z bs) h1 (zone_blocks z1 bs1)"
      using zone_malloc_ok [OF _ _ _ m, of bs rs0] Cons.prems Zmalloc by (auto simp: zone_inv_def)
    have "regions_ok h1 z1 bs1 ((b, off, unat need) # rs0)"
      by (rule regions_ok_shrink [OF rg]) linarith
    then have "zone_inv h1 z1 bs1 ((b, off, unat need) # rs0)"
      using ok Cons.prems(3) f by (simp add: zone_inv_def)
    from Cons.IH [OF r _ this] Cons.prems fr f rs p show ?thesis
      by (auto intro: zone_frame_trans)
  next
    case (Zpush fin)
    then obtain q z1 h1 where m: "msgpack_zone_push_finalizer z fin h = Some (q, z1, h1)"
      and r: "zone_run ops z1 h1 = Some (rs, z', h')"
      using Cons.prems(1) by (auto simp: bind_Some_iff)
    have "zone_ok h1 z1 bs \<and> regions_ok h1 z1 bs rs0 \<and>
      fa_items (z_fins z1) = (if q then fa_items (z_fins z) @ [fin] else fa_items (z_fins z)) \<and>
      zone_frame h (zone_blocks z bs) h1 (zone_blocks z1 bs)"
      using Cons.prems by (intro push_finalizer_ok [OF _ _ _ m]) (auto simp: zone_inv_def)
    moreover from this have "zone_inv h1 z1 bs rs0"
      using Cons.prems(2,3) Zpush by (auto simp: zone_inv_def)
    ultimately show ?thesis
      using Cons.IH [OF r, of bs rs0] Cons.prems by (auto intro: zone_frame_trans split: if_splits)
  qed
qed

lemma call_finalizers_quiet:
  "list_all (\<lambda>fin. zone_op_ok (Zpush fin)) fs \<Longrightarrow> call_finalizers fs h = Some h"
  by (induction fs) auto

lemma zone_destroy_inv:
  assumes "zone_inv h z bs rs"
  shows "msgpack_zone_destroy z h = Some (drop_blocks (zone_blocks z bs) h)"
proof -
  have path: "chunk_path h (cl_head (z_chunks z)) bs" "distinct bs" "bs \<noteq> []"
    and q: "call_finalizer_array (z_fins z) h = Some h"
    using assms by (simp_all add: zone_inv_def zone_ok_def call_finalizer_array_def call_finalizers_quiet list_all_iff)
  show ?thesis
  proof (cases "fa_array (z_fins z)")
    case Null
    then show ?thesis using q free_chunks_path [OF path]
      by (simp add: msgpack_zone_destroy_def destroy_finalizer_array_def destroy_chunk_list_def free_c_def zone_blocks_def)
  next
    case (Ptr a off)
    then obtain blk where a: "off = 0" "a \<notin> set bs" "blocks h a = Some blk"
      using assms by (auto simp: zone_inv_def zone_ok_def fins_ok_def split: option.splits)
    have "chunk_path (drop_blocks {a} h) (cl_head (z_chunks z)) bs"
      using path a by (intro chunk_path_drop) auto
    from free_chunks_path [OF this path(2,3)] show ?thesis using q Ptr a
      by (simp add: msgpack_zone_destroy_def destroy_finalizer_array_def destroy_chunk_list_def free_c_drop zone_blocks_def)
  qed
qed

lemma zone_init_inv:
  assumes "msgpack_zone_init cs h = Some (Some z, h')" "wf_heap h" "0 < cs" "cs \<le> 2 ^ 62"
  shows "zone_inv h' z [brk h] [] \<and> zone_frame h {} h' (zone_blocks z [brk h]) \<and> fa_items (z_fins z) = []"
proof -
  have "unat (8 + cs) = 8 + unat cs" using assms(4) by (simp add: unat_word_ariths word_le_nat_alt)
  then show ?thesis using assms
    by (auto simp: msgpack_zone_init_def init_chunk_list_def init_finalizer_array_def zone_inv_def zone_ok_def
        regions_ok_def fins_ok_def malloc_c_def set_next_def sizeof_chunk_def ptr_add_def bind_Some_iff Let_def
        zone_frame_def zone_blocks_def wf_heap_def split: if_splits)
qed

lemmas zone_eval = msgpack_zone_init_def init_chunk_list_def init_finalizer_array_def malloc_c_def
  set_next_def sizeof_chunk_def sizeof_finalizer_def ptr_add_def init_heap_def Let_def msgpack_zone_malloc_def
  msgpack_zone_malloc_no_align_def msgpack_zone_malloc_expand_def zone_align_def double_until.simps
  msgpack_zone_push_finalizer_def msgpack_zone_push_finalizer_expand_def realloc_c_def

subsection \<open>Properties\<close>

text \<open>
  C14: from \<open>msgpack_zone_init\<close> to \<open>msgpack_zone_destroy\<close>, whatever the client allocates and
  whatever finalizers it registers: the regions handed out lie inside live blocks that did not
  exist before, no two of them overlap, and \<open>destroy\<close> returns and leaves exactly the blocks
  that were there at the start (no leak, no double free), the finalizers being functions that
  leave the heap alone.
\<close>

theorem zone_lifecycle:
  assumes "wf_heap h" "0 < cs" "cs \<le> 2 ^ 62"
    and "msgpack_zone_init cs h = Some (Some z, h1)"
    and "zone_run ops z h1 = Some (rs, z', h2)" "list_all zone_op_ok ops" "length ops < 2 ^ 58"
  shows "sorted_wrt regions_apart rs \<and>
    (\<forall>(b, i, n) \<in> set rs. blocks h b = None \<and> (\<exists>blk. blocks h2 b = Some blk \<and> i + n \<le> bsize blk)) \<and>
    (\<exists>h3. msgpack_zone_destroy z' h2 = Some h3 \<and> blocks h3 = blocks h)"
proof -
  have i: "zone_inv h1 z [brk h] []" "zone_frame h {} h1 (zone_blocks z [brk h])" "fa_items (z_fins z) = []"
    using zone_init_inv assms by blast+
  obtain bs where inv: "zone_inv h2 z' bs (rs @ [])"
    and "zone_frame h1 (zone_blocks z [brk h]) h2 (zone_blocks z' bs)"
    using zone_run_inv [OF assms(5,6) i(1)] i(3) assms(7) by auto
  then have fr: "zone_frame h {} h2 (zone_blocks z' bs)"
    using i(2) by (blast intro: zone_frame_trans)
  have "blocks (drop_blocks (zone_blocks z' bs) h2) = blocks h"
    using fr by (auto simp: zone_frame_def)
  moreover have "blocks h b = None \<and> (\<exists>blk. blocks h2 b = Some blk \<and> i + n \<le> bsize blk)"
    if "(b, i, n) \<in> set rs" for b i n
    using that inv fr by (fastforce simp: zone_inv_def regions_ok_def list_all_iff zone_frame_def zone_blocks_def split: option.splits)
  ultimately show ?thesis
    using inv zone_destroy_inv [OF inv] by (auto simp: zone_inv_def regions_ok_def)
qed

lemma zone_lifecycle_witness:
  "\<exists>z h1 rs z' h2.
     msgpack_zone_init 16 (init_heap (\<lambda>_ _. False)) = Some (Some z, h1) \<and>
     zone_run [Zmalloc 5, Zpush \<lparr>fin_func = \<lambda>_ h. Some h, fin_data = Null\<rparr>, Zmalloc 100] z h1 = Some (rs, z', h2) \<and>
     length rs = 2 \<and> sorted_wrt regions_apart rs \<and>
     (\<exists>h3. msgpack_zone_destroy z' h2 = Some h3 \<and> blocks h3 = blocks (init_heap (\<lambda>_ _. False)))"
proof -
  have "\<exists>z h1 rs z' h2.
     msgpack_zone_init 16 (init_heap (\<lambda>_ _. False)) = Some (Some z, h1) \<and>
     zone_run [Zmalloc 5, Zpush \<lparr>fin_func = \<lambda>_ h. Some h, fin_data = Null\<rparr>, Zmalloc 100] z h1 = Some (rs, z', h2) \<and>
     length rs = 2"
    by (simp add: zone_eval)
  then obtain z h1 rs z' h2 where
    run: "msgpack_zone_init 16 (init_heap (\<lambda>_ _. False)) = Some (Some z, h1)"
      "zone_run [Zmalloc 5, Zpush \<lparr>fin_func = \<lambda>_ h. Some h, fin_data = Null\<rparr>, Zmalloc 100] z h1 = Some (rs, z', h2)"
      "length rs = 2" by blast
  have "sorted_wrt regions_apart rs \<and>
    (\<exists>h3. msgpack_zone_destroy z' h2 = Some h3 \<and> blocks h3 = blocks (init_heap (\<lambda>_ _. False)))"
    using zone_lifecycle [OF _ _ _ run(1,2)] by simp
  with run show ?thesis by blast
qed



text \<open>
  C31: when \<open>msgpack_zone_malloc\<close> needs a new chunk and the allocator has none, it does not
  return \<open>NULL\<close>: it writes the link word through the null pointer. It has no normal return
  exactly then.
\<close>

theorem zone_malloc_out_of_memory:
  assumes "zone_ok h z bs" "need \<le> 2 ^ 62"
  shows "msgpack_zone_malloc_no_align z need h = None \<longleftrightarrow>
    cl_free (z_chunks z) < need \<and>
    (\<exists>sz. double_until (z_chunk_size z) need = Some sz \<and> oom h (brk h) (unat (8 + sz)))"
proof -
  have pos: "0 < z_chunk_size z" and nd: "unat need \<le> 2 ^ 62"
    using assms by (simp_all add: zone_ok_def word_le_nat_alt)
  obtain sz where "double_until (z_chunk_size z) need = Some sz"
    using double_until_returns [OF pos, of need] nd by auto
  then show ?thesis
    by (auto simp: msgpack_zone_malloc_no_align_def msgpack_zone_malloc_expand_def sizeof_chunk_def Let_def
        malloc_c_def set_next_def)
qed

lemma zone_malloc_out_of_memory_witness:
  "\<exists>z h. msgpack_zone_init 16 (init_heap (\<lambda>k _. 0 < k)) = Some (Some z, h) \<and>
     msgpack_zone_malloc_no_align z 100 h = None"
proof -
  have "\<exists>z h. msgpack_zone_init 16 (init_heap (\<lambda>k _. 0 < k)) = Some (Some z, h) \<and>
    cl_free (z_chunks z) < 100 \<and> z_chunk_size z = 16 \<and> oom h (brk h) (unat (8 + 128 :: u64))"
    by (simp add: zone_eval)
  then obtain z h where z: "msgpack_zone_init 16 (init_heap (\<lambda>k _. 0 < k)) = Some (Some z, h)"
    "cl_free (z_chunks z) < 100" "z_chunk_size z = 16" "oom h (brk h) (unat (8 + 128 :: u64))" by blast
  have "zone_ok h z [0]" using zone_init_inv [OF z(1)] by (simp add: zone_inv_def)
  moreover have "double_until 16 100 = Some 128" by (simp add: double_until.simps)
  ultimately show ?thesis using zone_malloc_out_of_memory [of h z "[0]" 100] z by auto
qed

text \<open>
  C32: the rounding of \<open>msgpack_zone_malloc\<close> wraps for a size within three of \<open>SIZE_MAX\<close>:
  such a request succeeds, whatever the state of the zone, and reserves nothing.
\<close>

theorem zone_malloc_rounding_wraps:
  fixes need :: u64
  assumes "2 ^ 64 - 3 \<le> unat need"
  shows "\<exists>z'. msgpack_zone_malloc z need h = Some (cl_ptr (z_chunks z), z', h) \<and>
    cl_free (z_chunks z') = cl_free (z_chunks z)"
proof -
  have ub: "unat need < 2 ^ LENGTH(64)" by (rule unsigned_less)
  have "unat need = 2 ^ 64 - 3 \<or> unat need = 2 ^ 64 - 2 \<or> unat need = 2 ^ 64 - 1"
    using assms ub by auto
  moreover have eq: "need = of_nat (unat need)" by simp
  ultimately have "need = of_nat (2 ^ 64 - 3) \<or> need = of_nat (2 ^ 64 - 2) \<or> need = of_nat (2 ^ 64 - 1)"
    by metis
  then have "(need + (zone_align - 1)) AND NOT (zone_align - 1) = 0"
    by (auto simp: zone_align_def)
  then show ?thesis
    by (simp add: msgpack_zone_malloc_def msgpack_zone_malloc_no_align_def Let_def)
qed

lemma zone_malloc_rounding_wraps_witness:
  "\<exists>z h z'. msgpack_zone_init 16 (init_heap (\<lambda>_ _. False)) = Some (Some z, h) \<and>
     msgpack_zone_malloc z (2 ^ 64 - 1) h = Some (cl_ptr (z_chunks z), z', h) \<and>
     cl_free (z_chunks z') = 16"
proof -
  have "\<exists>z h. msgpack_zone_init 16 (init_heap (\<lambda>_ _. False)) = Some (Some z, h) \<and> cl_free (z_chunks z) = 16"
    by (simp add: zone_eval)
  then obtain z h where "msgpack_zone_init 16 (init_heap (\<lambda>_ _. False)) = Some (Some z, h)" "cl_free (z_chunks z) = 16"
    by blast
  then show ?thesis using zone_malloc_rounding_wraps [of "2 ^ 64 - 1" z h] by auto
qed

end
