(* ===== verification/MsgpackUnpack.thy ===== *)
theory MsgpackUnpack
  imports MsgpackObject MsgpackSysdep MsgpackZone
begin

text \<open>
  \<open>unpack_define.h\<close>, \<open>unpack_template.h\<close> and the deserializer of \<open>unpack.c\<close>: the
  callbacks that build objects, the automaton of \<open>template_execute\<close> with its resumable
  context, \<open>msgpack_unpack\<close> and \<open>msgpack_unpack_next\<close>. The \<open>goto\<close> labels of the
  automaton are the constructors of \<open>label\<close>, one \<open>template_step\<close> is the code from a label
  to the next jump, and \<open>template_run\<close> follows the jumps. The lemmas show that a context stays
  well formed, that on every input the automaton stays inside the buffer and its stack and
  returns, and that a call which stopped for want of input can be resumed.
\<close>

subsection \<open>States\<close>

definition MSGPACK_EMBED_STACK_SIZE :: nat where "MSGPACK_EMBED_STACK_SIZE = 32"

definition CS_HEADER :: u32 where "CS_HEADER = 0x00"
definition CS_FLOAT :: u32 where "CS_FLOAT = 0x0a"
definition CS_DOUBLE :: u32 where "CS_DOUBLE = 0x0b"
definition CS_UINT_8 :: u32 where "CS_UINT_8 = 0x0c"
definition CS_UINT_16 :: u32 where "CS_UINT_16 = 0x0d"
definition CS_UINT_32 :: u32 where "CS_UINT_32 = 0x0e"
definition CS_UINT_64 :: u32 where "CS_UINT_64 = 0x0f"
definition CS_INT_8 :: u32 where "CS_INT_8 = 0x10"
definition CS_INT_16 :: u32 where "CS_INT_16 = 0x11"
definition CS_INT_32 :: u32 where "CS_INT_32 = 0x12"
definition CS_INT_64 :: u32 where "CS_INT_64 = 0x13"
definition CS_RAW_16 :: u32 where "CS_RAW_16 = 0x1a"
definition CS_RAW_32 :: u32 where "CS_RAW_32 = 0x1b"
definition CS_ARRAY_16 :: u32 where "CS_ARRAY_16 = 0x1c"
definition CS_ARRAY_32 :: u32 where "CS_ARRAY_32 = 0x1d"
definition CS_MAP_16 :: u32 where "CS_MAP_16 = 0x1e"
definition CS_MAP_32 :: u32 where "CS_MAP_32 = 0x1f"
definition ACS_RAW_VALUE :: u32 where "ACS_RAW_VALUE = 0x20"

lemmas cs_defs = CS_HEADER_def CS_FLOAT_def CS_DOUBLE_def CS_UINT_8_def CS_UINT_16_def CS_UINT_32_def
  CS_UINT_64_def CS_INT_8_def CS_INT_16_def CS_INT_32_def CS_INT_64_def CS_RAW_16_def CS_RAW_32_def
  CS_ARRAY_16_def CS_ARRAY_32_def CS_MAP_16_def CS_MAP_32_def ACS_RAW_VALUE_def

datatype container_type = CT_ARRAY_ITEM | CT_MAP_KEY | CT_MAP_VALUE

text \<open>\<open>u_z\<close> is \<open>NULL\<close> when the client gave no zone; otherwise the zone it points to.\<close>

record unpack_user =
  u_z :: "zone option"
  u_referenced :: bool

record template_stack =
  s_obj :: mobj
  s_count :: u64
  s_ct :: container_type
  s_map_key :: mobj

record template_context =
  c_user :: unpack_user
  c_cs :: u32
  c_trail :: u32
  c_top :: nat
  c_stack :: "template_stack list"

subsection \<open>Callbacks\<close>

text \<open>A callback returns its \<open>int\<close> and the object it stores through \<open>o\<close>.\<close>

definition sizeof_object :: u64 where "sizeof_object = 24"
definition sizeof_object_kv :: u64 where "sizeof_object_kv = 48"

definition template_callback_root :: mobj where "template_callback_root = MNil"

definition template_callback_uint8 :: "u8 \<Rightarrow> int \<times> mobj" where
  "template_callback_uint8 d = (0, MPosInt (ucast d))"
definition template_callback_uint16 :: "u16 \<Rightarrow> int \<times> mobj" where
  "template_callback_uint16 d = (0, MPosInt (ucast d))"
definition template_callback_uint32 :: "u32 \<Rightarrow> int \<times> mobj" where
  "template_callback_uint32 d = (0, MPosInt (ucast d))"
definition template_callback_uint64 :: "u64 \<Rightarrow> int \<times> mobj" where
  "template_callback_uint64 d = (0, MPosInt d)"
definition template_callback_int8 :: "u8 \<Rightarrow> int \<times> mobj" where
  "template_callback_int8 d = (if 0 \<le> sint d then (0, MPosInt (scast d)) else (0, MNegInt (scast d)))"
definition template_callback_int16 :: "u16 \<Rightarrow> int \<times> mobj" where
  "template_callback_int16 d = (if 0 \<le> sint d then (0, MPosInt (scast d)) else (0, MNegInt (scast d)))"
definition template_callback_int32 :: "u32 \<Rightarrow> int \<times> mobj" where
  "template_callback_int32 d = (if 0 \<le> sint d then (0, MPosInt (scast d)) else (0, MNegInt (scast d)))"
definition template_callback_int64 :: "u64 \<Rightarrow> int \<times> mobj" where
  "template_callback_int64 d = (if 0 \<le> sint d then (0, MPosInt d) else (0, MNegInt d))"
definition template_callback_float :: "u32 \<Rightarrow> int \<times> mobj" where
  "template_callback_float d = (0, MDouble (dbl_of_float d))"
definition template_callback_double :: "u64 \<Rightarrow> int \<times> mobj" where
  "template_callback_double d = (0, MDouble d)"
definition template_callback_nil :: "int \<times> mobj" where
  "template_callback_nil = (0, MNil)"
definition template_callback_true :: "int \<times> mobj" where
  "template_callback_true = (0, MBool True)"
definition template_callback_false :: "int \<times> mobj" where
  "template_callback_false = (0, MBool False)"

definition user_malloc :: "unpack_user \<Rightarrow> u64 \<Rightarrow> heap \<Rightarrow> (ptr \<times> unpack_user \<times> heap) option" where
  "user_malloc u need h =
     do { z \<leftarrow> u_z u; (p, z, h) \<leftarrow> msgpack_zone_malloc z need h; Some (p, u\<lparr>u_z := Some z\<rparr>, h) }"

definition template_callback_array ::
    "unpack_user \<Rightarrow> u32 \<Rightarrow> heap \<Rightarrow> ((int \<times> mobj) \<times> unpack_user \<times> heap) option" where
  "template_callback_array u n h =
     do { (p, u, h) \<leftarrow> user_malloc u (ucast n * sizeof_object) h;
          Some ((if p = Null then -1 else 0, MArray []), u, h) }"

definition template_callback_array_item :: "mobj \<Rightarrow> mobj \<Rightarrow> (int \<times> mobj) option" where
  "template_callback_array_item c o' =
     (case c of MArray xs \<Rightarrow> Some (0, MArray (xs @ [o'])) | _ \<Rightarrow> None)"

definition template_callback_map ::
    "unpack_user \<Rightarrow> u32 \<Rightarrow> heap \<Rightarrow> ((int \<times> mobj) \<times> unpack_user \<times> heap) option" where
  "template_callback_map u n h =
     do { (p, u, h) \<leftarrow> user_malloc u (ucast n * sizeof_object_kv) h;
          Some ((if p = Null then -1 else 0, MMap []), u, h) }"

definition template_callback_map_item :: "mobj \<Rightarrow> mobj \<Rightarrow> mobj \<Rightarrow> (int \<times> mobj) option" where
  "template_callback_map_item c k v =
     (case c of MMap kvs \<Rightarrow> Some (0, MMap (kvs @ [KV k v])) | _ \<Rightarrow> None)"

text \<open>The \<open>l\<close> bytes at \<open>p\<close>; the pointer of an empty raw is never followed.\<close>

definition bytes_in :: "byte list \<Rightarrow> nat option \<Rightarrow> nat \<Rightarrow> byte list option" where
  "bytes_in data p l =
     (if l = 0 then Some [] else
      case p of None \<Rightarrow> None
      | Some i \<Rightarrow> if i + l \<le> length data then Some (take l (drop i data)) else None)"

definition template_callback_raw ::
    "unpack_user \<Rightarrow> byte list \<Rightarrow> nat option \<Rightarrow> u32 \<Rightarrow> ((int \<times> mobj) \<times> unpack_user) option" where
  "template_callback_raw u b p l =
     do { r \<leftarrow> bytes_in b p (unat l); Some ((0, MRaw r), u\<lparr>u_referenced := True\<rparr>) }"

subsection \<open>The automaton\<close>

datatype label =
    LSwitch | LFixedTrailAgain | LDefault | LRawZero | LPush mobj | LHeaderAgain
  | LFinish mobj | LFailed | LOut

text \<open>The local variables of \<open>template_execute\<close>, with the heap the zone allocates from.\<close>

record machine =
  m_p :: nat
  m_n :: "nat option"
  m_trail :: u32
  m_cs :: u32
  m_top :: nat
  m_stack :: "template_stack list"
  m_user :: unpack_user
  m_heap :: heap

definition push_value :: "int \<times> mobj \<Rightarrow> machine \<Rightarrow> (label \<times> machine) option" where
  "push_value r m = Some (if fst r < 0 then LFailed else LPush (snd r), m)"

definition push_variable_value :: "byte list \<Rightarrow> machine \<Rightarrow> (label \<times> machine) option" where
  "push_variable_value data m =
     do { (r, u) \<leftarrow> template_callback_raw (m_user m) data (m_n m) (m_trail m);
          push_value r (m\<lparr>m_user := u\<rparr>) }"

definition again_fixed_trail :: "u32 \<Rightarrow> u32 \<Rightarrow> machine \<Rightarrow> (label \<times> machine) option" where
  "again_fixed_trail cs trail_len m = Some (LFixedTrailAgain, m\<lparr>m_trail := trail_len, m_cs := cs\<rparr>)"

definition again_fixed_trail_if_zero :: "u32 \<Rightarrow> u32 \<Rightarrow> label \<Rightarrow> machine \<Rightarrow> (label \<times> machine) option" where
  "again_fixed_trail_if_zero cs trail_len ifzero m =
     (let m = m\<lparr>m_trail := trail_len\<rparr> in
      if m_trail m = 0 then Some (ifzero, m) else Some (LFixedTrailAgain, m\<lparr>m_cs := cs\<rparr>))"

definition start_container ::
    "(unpack_user \<Rightarrow> u32 \<Rightarrow> heap \<Rightarrow> ((int \<times> mobj) \<times> unpack_user \<times> heap) option) \<Rightarrow> u32 \<Rightarrow>
     container_type \<Rightarrow> machine \<Rightarrow> (label \<times> machine) option" where
  "start_container func cnt ct m =
     (let top = m_top m in
      if top \<ge> MSGPACK_EMBED_STACK_SIZE then Some (LFailed, m)
      else do {
        (r, u, h) \<leftarrow> func (m_user m) cnt (m_heap m);
        let stack = (m_stack m)[top := (m_stack m ! top)\<lparr>s_obj := snd r\<rparr>];
        let m = m\<lparr>m_stack := stack, m_user := u, m_heap := h\<rparr>;
        if fst r < 0 then Some (LFailed, m)
        else if cnt = 0 then Some (LPush (s_obj (stack ! top)), m)
        else Some (LHeaderAgain,
               m\<lparr>m_stack := stack[top := (stack ! top)\<lparr>s_ct := ct, s_count := ucast cnt\<rparr>],
                 m_top := top + 1\<rparr>)
      })"

definition next_cs :: "byte \<Rightarrow> u32" where
  "next_cs b = ucast b AND 0x1f"

definition template_header :: "byte list \<Rightarrow> machine \<Rightarrow> (label \<times> machine) option" where
  "template_header data m =
     (if length data \<le> m_p m then None else
      let b = data ! m_p m; w = (ucast b :: u32) in
      if b \<le> 0x7f then push_value (template_callback_uint8 b) m
      else if 0xe0 \<le> b then push_value (template_callback_int8 b) m
      else if 0xc0 \<le> b \<and> b \<le> 0xdf then
        (if b = 0xc0 then push_value template_callback_nil m
         else if b = 0xc2 then push_value template_callback_false m
         else if b = 0xc3 then push_value template_callback_true m
         else if 0xca \<le> b \<and> b \<le> 0xd3 then again_fixed_trail (next_cs b) (push_bit (unat (w AND 0x03)) 1) m
         else if 0xda \<le> b \<and> b \<le> 0xdf then again_fixed_trail (next_cs b) (push_bit (unat (w AND 0x01)) 2) m
         else Some (LFailed, m))
      else if 0xa0 \<le> b \<and> b \<le> 0xbf then again_fixed_trail_if_zero ACS_RAW_VALUE (w AND 0x1f) LRawZero m
      else if 0x90 \<le> b \<and> b \<le> 0x9f then start_container template_callback_array (w AND 0x0f) CT_ARRAY_ITEM m
      else if 0x80 \<le> b \<and> b \<le> 0x8f then start_container template_callback_map (w AND 0x0f) CT_MAP_KEY m
      else Some (LFailed, m))"

definition load_n :: "byte list \<Rightarrow> machine \<Rightarrow> nat \<Rightarrow> byte list option" where
  "load_n data m k = bytes_in data (m_n m) k"

definition template_trail :: "byte list \<Rightarrow> machine \<Rightarrow> (label \<times> machine) option" where
  "template_trail data m =
     (let cs = m_cs m in
      if cs = CS_FLOAT then do { b \<leftarrow> load_n data m 4; push_value (template_callback_float (msgpack_load32 b)) m }
      else if cs = CS_DOUBLE then do { b \<leftarrow> load_n data m 8; push_value (template_callback_double (msgpack_load64 b)) m }
      else if cs = CS_UINT_8 then do { b \<leftarrow> load_n data m 1; push_value (template_callback_uint8 (b ! 0)) m }
      else if cs = CS_UINT_16 then do { b \<leftarrow> load_n data m 2; push_value (template_callback_uint16 (msgpack_load16 b)) m }
      else if cs = CS_UINT_32 then do { b \<leftarrow> load_n data m 4; push_value (template_callback_uint32 (msgpack_load32 b)) m }
      else if cs = CS_UINT_64 then do { b \<leftarrow> load_n data m 8; push_value (template_callback_uint64 (msgpack_load64 b)) m }
      else if cs = CS_INT_8 then do { b \<leftarrow> load_n data m 1; push_value (template_callback_int8 (b ! 0)) m }
      else if cs = CS_INT_16 then do { b \<leftarrow> load_n data m 2; push_value (template_callback_int16 (msgpack_load16 b)) m }
      else if cs = CS_INT_32 then do { b \<leftarrow> load_n data m 4; push_value (template_callback_int32 (msgpack_load32 b)) m }
      else if cs = CS_INT_64 then do { b \<leftarrow> load_n data m 8; push_value (template_callback_int64 (msgpack_load64 b)) m }
      else if cs = CS_RAW_16 then
        do { b \<leftarrow> load_n data m 2; again_fixed_trail_if_zero ACS_RAW_VALUE (ucast (msgpack_load16 b)) LRawZero m }
      else if cs = CS_RAW_32 then
        do { b \<leftarrow> load_n data m 4; again_fixed_trail_if_zero ACS_RAW_VALUE (msgpack_load32 b) LRawZero m }
      else if cs = ACS_RAW_VALUE then push_variable_value data m
      else if cs = CS_ARRAY_16 then
        do { b \<leftarrow> load_n data m 2; start_container template_callback_array (ucast (msgpack_load16 b)) CT_ARRAY_ITEM m }
      else if cs = CS_ARRAY_32 then
        do { b \<leftarrow> load_n data m 4; start_container template_callback_array (msgpack_load32 b) CT_ARRAY_ITEM m }
      else if cs = CS_MAP_16 then
        do { b \<leftarrow> load_n data m 2; start_container template_callback_map (ucast (msgpack_load16 b)) CT_MAP_KEY m }
      else if cs = CS_MAP_32 then
        do { b \<leftarrow> load_n data m 4; start_container template_callback_map (msgpack_load32 b) CT_MAP_KEY m }
      else Some (LFailed, m))"

text \<open>\<open>_push\<close>: hand the finished object to the container on top of the stack.\<close>

definition template_push :: "mobj \<Rightarrow> machine \<Rightarrow> (label \<times> machine) option" where
  "template_push obj m =
     (if m_top m = 0 then Some (LFinish obj, m)
      else if length (m_stack m) < m_top m then None
      else
        let i = m_top m - 1; c = m_stack m ! i;
            put = (\<lambda>c m. m\<lparr>m_stack := (m_stack m)[i := c]\<rparr>);
            pop = (\<lambda>c m again. let c = c\<lparr>s_count := s_count c - 1\<rparr> in
                     if s_count c = 0 then Some (LPush (s_obj c), (put c m)\<lparr>m_top := i\<rparr>)
                     else Some (LHeaderAgain, put (again c) m))
        in case s_ct c of
             CT_ARRAY_ITEM \<Rightarrow>
               do { r \<leftarrow> template_callback_array_item (s_obj c) obj;
                    let c = c\<lparr>s_obj := snd r\<rparr>;
                    if fst r < 0 then Some (LFailed, put c m) else pop c m (\<lambda>c. c) }
           | CT_MAP_KEY \<Rightarrow> Some (LHeaderAgain, put (c\<lparr>s_map_key := obj, s_ct := CT_MAP_VALUE\<rparr>) m)
           | CT_MAP_VALUE \<Rightarrow>
               do { r \<leftarrow> template_callback_map_item (s_obj c) (s_map_key c) obj;
                    let c = c\<lparr>s_obj := snd r\<rparr>;
                    if fst r < 0 then Some (LFailed, put c m) else pop c m (\<lambda>c. c\<lparr>s_ct := CT_MAP_KEY\<rparr>) })"

definition template_step :: "byte list \<Rightarrow> label \<Rightarrow> machine \<Rightarrow> (label \<times> machine) option" where
  "template_step data l m =
     (case l of
        LSwitch \<Rightarrow> if m_cs m = CS_HEADER then template_header data m else Some (LDefault, m)
      | LFixedTrailAgain \<Rightarrow> Some (LDefault, m\<lparr>m_p := m_p m + 1\<rparr>)
      | LDefault \<Rightarrow>
          if length data - m_p m < unat (m_trail m) then Some (LOut, m)
          else template_trail data (m\<lparr>m_n := Some (m_p m), m_p := m_p m + unat (m_trail m - 1)\<rparr>)
      | LRawZero \<Rightarrow> push_variable_value data m
      | LPush obj \<Rightarrow> template_push obj m
      | LHeaderAgain \<Rightarrow>
          let m = m\<lparr>m_cs := CS_HEADER, m_p := m_p m + 1\<rparr> in
          Some (if m_p m \<noteq> length data then LSwitch else LOut, m)
      | LFinish obj \<Rightarrow> Some (LFinish obj, m)
      | LFailed \<Rightarrow> Some (LFailed, m)
      | LOut \<Rightarrow> Some (LOut, m))"

definition final_label :: "label \<Rightarrow> bool" where
  "final_label l = (case l of LFinish _ \<Rightarrow> True | LFailed \<Rightarrow> True | LOut \<Rightarrow> True | _ \<Rightarrow> False)"

partial_function (option) template_run :: "byte list \<Rightarrow> label \<Rightarrow> machine \<Rightarrow> (label \<times> machine) option" where
  "template_run data l m =
     (if final_label l then Some (l, m)
      else do { (l', m') \<leftarrow> template_step data l m; template_run data l' m' })"

definition template_end :: "label \<Rightarrow> machine \<Rightarrow> int \<times> machine" where
  "template_end l m =
     (case l of
        LFinish obj \<Rightarrow> (1, m\<lparr>m_stack := (m_stack m)[0 := (m_stack m ! 0)\<lparr>s_obj := obj\<rparr>], m_p := m_p m + 1\<rparr>)
      | LFailed \<Rightarrow> (-1, m)
      | _ \<Rightarrow> (0, m))"

definition template_init :: "template_context \<Rightarrow> template_context" where
  "template_init ctx =
     ctx\<lparr>c_cs := CS_HEADER, c_trail := 0, c_top := 0,
         c_stack := (c_stack ctx)[0 := (c_stack ctx ! 0)\<lparr>s_obj := template_callback_root\<rparr>]\<rparr>"

definition template_data :: "template_context \<Rightarrow> mobj" where
  "template_data ctx = s_obj (c_stack ctx ! 0)"

definition template_execute ::
    "template_context \<Rightarrow> byte list \<Rightarrow> nat \<Rightarrow> heap \<Rightarrow> (int \<times> template_context \<times> nat \<times> heap) option" where
  "template_execute ctx data off h =
     do {
       guard_c (off \<le> length data);
       let m = \<lparr>m_p = off, m_n = None, m_trail = c_trail ctx, m_cs = c_cs ctx, m_top = c_top ctx,
                m_stack = c_stack ctx, m_user = c_user ctx, m_heap = h\<rparr>;
       (l, m) \<leftarrow> template_run data (if off = length data then LOut else LSwitch) m;
       let (ret, m) = template_end l m;
       Some (ret, \<lparr>c_user = m_user m, c_cs = m_cs m, c_trail = m_trail m, c_top = m_top m,
                   c_stack = m_stack m\<rparr>, m_p m, m_heap m)
     }"

subsection \<open>Well-formed machines\<close>

definition no_oom :: "heap \<Rightarrow> bool" where
  "no_oom h \<longleftrightarrow> (\<forall>k n. \<not> oom h k n)"

definition user_ok :: "unpack_user \<Rightarrow> heap \<Rightarrow> bool" where
  "user_ok u h \<longleftrightarrow> no_oom h \<and> (\<exists>z bs. u_z u = Some z \<and> zone_ok h z bs)"

fun frame_ok :: "template_stack \<Rightarrow> bool" where
  "frame_ok c \<longleftrightarrow> s_count c \<noteq> 0 \<and>
     (case s_obj c of MArray _ \<Rightarrow> s_ct c = CT_ARRAY_ITEM | MMap _ \<Rightarrow> s_ct c \<noteq> CT_ARRAY_ITEM | _ \<Rightarrow> False)"

text \<open>How many bytes a state waits for.\<close>

definition cs_trail_ok :: "u32 \<Rightarrow> u32 \<Rightarrow> bool" where
  "cs_trail_ok cs trail \<longleftrightarrow>
     (cs = CS_UINT_8 \<or> cs = CS_INT_8) \<and> trail = 1 \<or>
     (cs = CS_UINT_16 \<or> cs = CS_INT_16 \<or> cs = CS_RAW_16 \<or> cs = CS_ARRAY_16 \<or> cs = CS_MAP_16) \<and> trail = 2 \<or>
     (cs = CS_FLOAT \<or> cs = CS_UINT_32 \<or> cs = CS_INT_32 \<or> cs = CS_RAW_32 \<or> cs = CS_ARRAY_32 \<or> cs = CS_MAP_32) \<and>
       trail = 4 \<or>
     (cs = CS_DOUBLE \<or> cs = CS_UINT_64 \<or> cs = CS_INT_64) \<and> trail = 8 \<or>
     cs = ACS_RAW_VALUE \<and> trail \<noteq> 0"

definition stack_ok :: "template_stack list \<Rightarrow> nat \<Rightarrow> bool" where
  "stack_ok st tp \<longleftrightarrow> length st = MSGPACK_EMBED_STACK_SIZE \<and> tp \<le> MSGPACK_EMBED_STACK_SIZE \<and>
     (\<forall>i < tp. frame_ok (st ! i))"

text \<open>What holds at each label; \<open>d\<close> is the length of the data.\<close>

definition machine_ok :: "nat \<Rightarrow> label \<Rightarrow> machine \<Rightarrow> bool" where
  "machine_ok d l m \<longleftrightarrow>
     stack_ok (m_stack m) (m_top m) \<and> user_ok (m_user m) (m_heap m) \<and>
     (case l of
        LSwitch \<Rightarrow> m_p m < d \<and> (m_cs m = CS_HEADER \<or> cs_trail_ok (m_cs m) (m_trail m))
      | LFixedTrailAgain \<Rightarrow> m_p m < d \<and> cs_trail_ok (m_cs m) (m_trail m)
      | LDefault \<Rightarrow> m_p m \<le> d \<and> cs_trail_ok (m_cs m) (m_trail m)
      | LRawZero \<Rightarrow> m_p m < d \<and> m_trail m = 0
      | LPush obj \<Rightarrow> m_p m < d
      | LHeaderAgain \<Rightarrow> m_p m < d
      | LFinish obj \<Rightarrow> m_p m < d \<and> m_top m = 0
      | LFailed \<Rightarrow> m_p m < d
      | LOut \<Rightarrow> m_p m \<le> d \<and> (m_cs m = CS_HEADER \<or> cs_trail_ok (m_cs m) (m_trail m)))"

definition label_rank :: "label \<Rightarrow> nat \<Rightarrow> nat" where
  "label_rank l tp =
     (case l of LSwitch \<Rightarrow> 80 | LFixedTrailAgain \<Rightarrow> 79 | LDefault \<Rightarrow> 71 | LRawZero \<Rightarrow> 70
      | LPush _ \<Rightarrow> 2 + 2 * tp | LHeaderAgain \<Rightarrow> 1 | _ \<Rightarrow> 0)"

definition machine_measure :: "nat \<Rightarrow> label \<Rightarrow> machine \<Rightarrow> nat" where
  "machine_measure d l m = (d - m_p m) * 100 + label_rank l (m_top m)"

lemma zone_malloc_oom: "msgpack_zone_malloc z need h = Some (p, z', h') \<Longrightarrow> oom h' = oom h"
  by (auto simp: msgpack_zone_malloc_def msgpack_zone_malloc_no_align_def msgpack_zone_malloc_expand_def
      malloc_c_def set_next_def Let_def bind_Some_iff split: if_splits option.splits)

lemma user_malloc_ok:
  assumes "user_ok u h" "need \<le> 2 ^ 62 - 4"
  shows "\<exists>b off z h'. user_malloc u need h = Some (Ptr b off, u\<lparr>u_z := Some z\<rparr>, h') \<and>
    user_ok (u\<lparr>u_z := Some z\<rparr>) h'"
proof -
  obtain z bs where z: "u_z u = Some z" "zone_ok h z bs" and no: "no_oom h"
    using assms(1) by (auto simp: user_ok_def)
  let ?n = "(need + (zone_align - 1)) AND NOT (zone_align - 1)"
  have u: "unat ?n = (unat need + 3) div 4 * 4"
    using assms(2) by (intro align4) (simp add: word_le_nat_alt)
  have le: "?n \<le> 2 ^ 62" using assms(2) unfolding word_le_nat_alt u by simp
  obtain p z' h' where m: "msgpack_zone_malloc z need h = Some (p, z', h')"
    using zone_malloc_no_align_returns [OF z(2) le] no
    by (auto simp: msgpack_zone_malloc_def no_oom_def)
  obtain b off bs' where p: "p = Ptr b off" and ok: "zone_ok h' z' bs'"
    using zone_malloc_ok [OF z(2) _ assms(2) m, of "[]"] by (auto simp: regions_ok_def)
  have "no_oom h'" using zone_malloc_oom [OF m] no by (simp add: no_oom_def)
  with z m p ok show ?thesis by (auto simp: user_malloc_def user_ok_def)
qed

lemma unat_ucast_32_64: "unat (ucast (n :: u32) :: u64) = unat n"
  by (rule unat_ucast_up_id) simp

lemma container_size_le: "(ucast (n :: u32) :: u64) * 24 \<le> 2 ^ 62 - 4" "(ucast (n :: u32) :: u64) * 48 \<le> 2 ^ 62 - 4"
proof -
  have "unat n < 2 ^ 32" using unsigned_less [of n, where 'a = nat] by simp
  then show "(ucast n :: u64) * 24 \<le> 2 ^ 62 - 4" "(ucast n :: u64) * 48 \<le> 2 ^ 62 - 4"
    by (simp_all add: word_le_nat_alt unat_word_ariths unat_ucast_32_64)
qed

lemma callback_array_ok:
  assumes "user_ok u h"
  shows "\<exists>z h'. template_callback_array u n h = Some ((0, MArray []), u\<lparr>u_z := Some z\<rparr>, h') \<and>
    user_ok (u\<lparr>u_z := Some z\<rparr>) h'"
  using user_malloc_ok [OF assms container_size_le(1) [of n]]
  by (auto simp: template_callback_array_def sizeof_object_def)

lemma callback_map_ok:
  assumes "user_ok u h"
  shows "\<exists>z h'. template_callback_map u n h = Some ((0, MMap []), u\<lparr>u_z := Some z\<rparr>, h') \<and>
    user_ok (u\<lparr>u_z := Some z\<rparr>) h'"
  using user_malloc_ok [OF assms container_size_le(2) [of n]]
  by (auto simp: template_callback_map_def sizeof_object_kv_def)

lemma user_ok_referenced [simp]: "user_ok (u\<lparr>u_referenced := b\<rparr>) h = user_ok u h"
  by (simp add: user_ok_def)

text \<open>A step of a well-formed machine is defined, keeps it well formed and makes progress.\<close>

definition step_ok :: "nat \<Rightarrow> nat \<Rightarrow> (label \<times> machine) option \<Rightarrow> bool" where
  "step_ok d k r \<longleftrightarrow> (\<exists>l m. r = Some (l, m) \<and> machine_ok d l m \<and> machine_measure d l m < k)"

lemma step_ok_Some [simp]: "step_ok d k (Some (l, m)) \<longleftrightarrow> machine_ok d l m \<and> machine_measure d l m < k"
  by (simp add: step_ok_def)

lemma stack_okD: "stack_ok st tp \<Longrightarrow> length st = 32 \<and> tp \<le> 32"
  by (simp add: stack_ok_def MSGPACK_EMBED_STACK_SIZE_def)

lemma stack_ok_above: "stack_ok st tp \<Longrightarrow> stack_ok (st[tp := c]) tp"
  by (simp add: stack_ok_def)

lemma stack_ok_push: "stack_ok st tp \<Longrightarrow> tp < 32 \<Longrightarrow> frame_ok c \<Longrightarrow> stack_ok (st[tp := c]) (Suc tp)"
  by (auto simp: stack_ok_def MSGPACK_EMBED_STACK_SIZE_def less_Suc_eq nth_list_update simp del: frame_ok.simps)

lemma stack_ok_update: "stack_ok st tp \<Longrightarrow> frame_ok c \<Longrightarrow> stack_ok (st[i := c]) tp"
  by (cases "i < length st") (auto simp: stack_ok_def nth_list_update list_update_beyond simp del: frame_ok.simps)

lemma stack_ok_pop: "stack_ok st tp \<Longrightarrow> i \<le> tp \<Longrightarrow> stack_ok (st[i := c]) i"
  by (auto simp: stack_ok_def simp del: frame_ok.simps)

lemma push_value_ok:
  assumes "stack_ok (m_stack m) (m_top m)" "user_ok (m_user m) (m_heap m)" "m_p m < d"
    and "(d - m_p m) * 100 + 67 \<le> k"
  shows "step_ok d k (push_value r m)"
  using assms stack_okD [OF assms(1)]
  by (auto simp: push_value_def machine_ok_def machine_measure_def label_rank_def)

lemma start_container_ok:
  assumes st: "stack_ok (m_stack m) (m_top m)" and u: "user_ok (m_user m) (m_heap m)" and p: "m_p m < d"
    and k: "(d - m_p m) * 100 + 67 \<le> k"
    and f: "func = template_callback_array \<and> ct = CT_ARRAY_ITEM \<or> func = template_callback_map \<and> ct = CT_MAP_KEY"
  shows "step_ok d k (start_container func cnt ct m)"
proof (cases "m_top m < 32")
  case False
  then show ?thesis using assms
    by (simp add: start_container_def MSGPACK_EMBED_STACK_SIZE_def machine_ok_def machine_measure_def label_rank_def)
next
  case True
  obtain o' z h' where r: "func (m_user m) cnt (m_heap m) = Some ((0, o'), (m_user m)\<lparr>u_z := Some z\<rparr>, h')"
    and ok: "user_ok ((m_user m)\<lparr>u_z := Some z\<rparr>) h'"
    and o': "o' = MArray [] \<and> ct = CT_ARRAY_ITEM \<or> o' = MMap [] \<and> ct = CT_MAP_KEY"
    using callback_array_ok [OF u, of cnt] callback_map_ok [OF u, of cnt] f by blast
  let ?st = "(m_stack m)[m_top m := (m_stack m ! m_top m)\<lparr>s_obj := o'\<rparr>]"
  have top: "m_top m < length (m_stack m)" using True st by (simp add: stack_okD)
  have "stack_ok ?st (m_top m)" using st by (rule stack_ok_above)
  moreover have "stack_ok (?st[m_top m := (?st ! m_top m)\<lparr>s_ct := ct, s_count := ucast cnt\<rparr>]) (m_top m + 1)"
    if "cnt \<noteq> 0"
  proof -
    have "unat (ucast cnt :: u64) \<noteq> 0" using that by (simp only: unat_ucast_32_64 unat_eq_0 not_False_eq_True)
    then have "(ucast cnt :: u64) \<noteq> 0" by auto
    then have "frame_ok ((?st ! m_top m)\<lparr>s_ct := ct, s_count := ucast cnt\<rparr>)"
      using o' top by auto
    then show ?thesis using stack_ok_push [OF \<open>stack_ok ?st (m_top m)\<close>] True by simp
  qed
  ultimately show ?thesis using r ok p k True top
    by (simp add: start_container_def Let_def MSGPACK_EMBED_STACK_SIZE_def machine_ok_def machine_measure_def label_rank_def)
qed

lemma trail_step_ok:
  assumes st: "stack_ok (m_stack m) (m_top m)" and u: "user_ok (m_user m) (m_heap m)"
    and cs: "cs_trail_ok (m_cs m) (m_trail m)" and p: "m_p m + unat (m_trail m) \<le> length data"
    and m': "m' = m\<lparr>m_n := Some (m_p m), m_p := m_p m + unat (m_trail m - 1)\<rparr>"
  shows "step_ok (length data) ((length data - m_p m) * 100 + 71) (template_trail data m')"
proof -
  have t0: "m_trail m \<noteq> 0" using cs by (auto simp: cs_trail_ok_def)
  then have t1: "unat (m_trail m - 1) = unat (m_trail m) - 1" "0 < unat (m_trail m)"
    by (simp_all add: unat_minus_one unat_gt_0)
  have p': "m_p m' < length data" "m_p m \<le> m_p m'" using p t1 m' by auto
  have st': "stack_ok (m_stack m') (m_top m')" and u': "user_ok (m_user m') (m_heap m')"
    using st u m' by simp_all
  have k': "(length data - m_p m') * 100 + 67 \<le> (length data - m_p m) * 100 + 71"
    using p' by simp
  have ld: "\<exists>b. load_n data m' (unat (m_trail m)) = Some b" using p t1 m' by (simp add: load_n_def bytes_in_def)
  note push = push_value_ok [OF st' u' p'(1) k']
  note cont = start_container_ok [OF st' u' p'(1) k']
  have again: "step_ok (length data) ((length data - m_p m) * 100 + 71)
      (again_fixed_trail_if_zero ACS_RAW_VALUE t LRawZero m')" if "2 \<le> unat (m_trail m)" for t
  proof -
    have "m_p m < m_p m'" using that t1 m' by simp
    then show ?thesis using st' u' p'
      by (auto simp: again_fixed_trail_if_zero_def Let_def machine_ok_def machine_measure_def label_rank_def cs_trail_ok_def)
  qed
  have raw: "step_ok (length data) ((length data - m_p m) * 100 + 71) (push_variable_value data m')"
    using ld st' u' p' k' stack_okD [OF st'] t0 m'
    by (auto simp: push_variable_value_def template_callback_raw_def load_n_def push_value_def
        machine_ok_def machine_measure_def label_rank_def)
  have m'_eq: "m_cs m' = m_cs m" "m_trail m' = m_trail m" using m' by simp_all
  from cs consider
      "m_cs m = CS_UINT_8 \<or> m_cs m = CS_INT_8" "m_trail m = 1"
    | "m_cs m = CS_UINT_16 \<or> m_cs m = CS_INT_16 \<or> m_cs m = CS_RAW_16 \<or> m_cs m = CS_ARRAY_16 \<or> m_cs m = CS_MAP_16" "m_trail m = 2"
    | "m_cs m = CS_FLOAT \<or> m_cs m = CS_UINT_32 \<or> m_cs m = CS_INT_32 \<or> m_cs m = CS_RAW_32 \<or> m_cs m = CS_ARRAY_32 \<or> m_cs m = CS_MAP_32" "m_trail m = 4"
    | "m_cs m = CS_DOUBLE \<or> m_cs m = CS_UINT_64 \<or> m_cs m = CS_INT_64" "m_trail m = 8"
    | "m_cs m = ACS_RAW_VALUE"
    by (auto simp: cs_trail_ok_def)
  then show ?thesis
  proof cases
    case 1
    then show ?thesis using ld
      by (elim disjE) (auto simp: template_trail_def m'_eq cs_defs intro!: push)
  next
    case 2
    then show ?thesis using ld
      by (elim disjE) (auto simp: template_trail_def m'_eq cs_defs intro!: push again [unfolded ACS_RAW_VALUE_def] cont)
  next
    case 3
    then show ?thesis using ld
      by (elim disjE) (auto simp: template_trail_def m'_eq cs_defs intro!: push again [unfolded ACS_RAW_VALUE_def] cont)
  next
    case 4
    then show ?thesis using ld
      by (elim disjE) (auto simp: template_trail_def m'_eq cs_defs intro!: push)
  next
    case 5
    then show ?thesis using raw by (simp add: template_trail_def m'_eq cs_defs)
  qed
qed

lemma template_push_ok:
  assumes st: "stack_ok (m_stack m) (m_top m)" and u: "user_ok (m_user m) (m_heap m)" and p: "m_p m < d"
    and k: "(d - m_p m) * 100 + 2 + 2 * m_top m \<le> k"
  shows "step_ok d k (template_push obj m)"
proof (cases "m_top m")
  case 0
  with assms show ?thesis
    by (simp add: template_push_def machine_ok_def machine_measure_def label_rank_def)
next
  case (Suc i)
  let ?c = "m_stack m ! i"
  have c: "frame_ok ?c" using st Suc by (simp add: stack_ok_def del: frame_ok.simps)
  have len: "m_top m \<le> length (m_stack m)" using st by (simp add: stack_ok_def)
  have cont: "machine_ok d LHeaderAgain (m\<lparr>m_stack := (m_stack m)[i := c']\<rparr>)" if "frame_ok c'" for c'
    using stack_ok_update [OF st that] u p by (simp add: machine_ok_def)
  have popped: "machine_ok d (LPush x) (m\<lparr>m_stack := (m_stack m)[i := c'], m_top := i\<rparr>)" for c' x
    using stack_ok_pop [OF st, of i c'] Suc u p by (simp add: machine_ok_def)
  show ?thesis
  proof (cases "s_obj ?c")
    case (MArray xs)
    then show ?thesis using c Suc len k cont popped
      by (simp add: template_push_def Let_def template_callback_array_item_def machine_measure_def label_rank_def)
  next
    case (MMap kvs)
    then show ?thesis using c Suc len k cont popped
      by (cases "s_ct ?c") (simp_all add: template_push_def Let_def template_callback_map_item_def machine_measure_def label_rank_def)
  qed (use c in simp_all)
qed

lemma num_trail_ok:
  fixes b :: byte
  assumes "0xca \<le> b" "b \<le> 0xd3"
  shows "cs_trail_ok (next_cs b) (push_bit (unat (ucast b AND (0x03 :: u32))) 1)"
proof -
  have "unat b \<in> {202..<212}" using assms by (simp add: word_le_nat_alt)
  then have "unat b \<in> {202, 203, 204, 205, 206, 207, 208, 209, 210, 211}"
    by (auto simp: atLeastLessThan_nat_numeral)
  then have "b \<in> {202, 203, 204, 205, 206, 207, 208, 209, 210, 211}"
    by (simp add: word_unat_eq_iff)
  then show ?thesis by (auto simp: cs_trail_ok_def next_cs_def cs_defs)
qed

lemma var_trail_ok:
  fixes b :: byte
  assumes "0xda \<le> b" "b \<le> 0xdf"
  shows "cs_trail_ok (next_cs b) (push_bit (unat (ucast b AND (0x01 :: u32))) 2)"
proof -
  have "unat b \<in> {218..<224}" using assms by (simp add: word_le_nat_alt)
  then have "unat b \<in> {218, 219, 220, 221, 222, 223}"
    by (auto simp: atLeastLessThan_nat_numeral)
  then have "b \<in> {218, 219, 220, 221, 222, 223}"
    by (simp add: word_unat_eq_iff)
  then show ?thesis by (auto simp: cs_trail_ok_def next_cs_def cs_defs)
qed

lemma step_ok_if: "(c \<Longrightarrow> step_ok d k x) \<Longrightarrow> (\<not> c \<Longrightarrow> step_ok d k y) \<Longrightarrow> step_ok d k (if c then x else y)"
  by simp

lemma header_step_ok:
  assumes st: "stack_ok (m_stack m) (m_top m)" and u: "user_ok (m_user m) (m_heap m)" and p: "m_p m < length data"
  shows "step_ok (length data) ((length data - m_p m) * 100 + 80) (template_header data m)"
proof -
  let ?b = "data ! m_p m"
  note push = push_value_ok [OF st u p]
  note cont = start_container_ok [OF st u p]
  have fail: "step_ok (length data) ((length data - m_p m) * 100 + 80) (Some (LFailed, m))"
    using assms by (simp add: machine_ok_def machine_measure_def label_rank_def)
  have raw: "step_ok (length data) ((length data - m_p m) * 100 + 80)
      (again_fixed_trail_if_zero ACS_RAW_VALUE t LRawZero m)" for t
    using assms by (auto simp: again_fixed_trail_if_zero_def Let_def machine_ok_def machine_measure_def label_rank_def cs_trail_ok_def)
  have again: "step_ok (length data) ((length data - m_p m) * 100 + 80) (again_fixed_trail cs t m)"
    if "cs_trail_ok cs t" for cs t
    using assms that by (auto simp: again_fixed_trail_def machine_ok_def machine_measure_def label_rank_def)
  show ?thesis
    using p by (auto simp only: template_header_def Let_def not_le
        intro!: step_ok_if push raw again cont fail num_trail_ok var_trail_ok)
qed


lemma template_step_ok:
  assumes ok: "machine_ok (length data) l m" and nf: "\<not> final_label l"
  shows "step_ok (length data) (machine_measure (length data) l m) (template_step data l m)"
proof -
  have st: "stack_ok (m_stack m) (m_top m)" and u: "user_ok (m_user m) (m_heap m)"
    using ok by (simp_all add: machine_ok_def)
  show ?thesis
  proof (cases l)
    case LSwitch
    then show ?thesis using ok header_step_ok [OF st u]
      by (auto simp: template_step_def machine_ok_def machine_measure_def label_rank_def cs_trail_ok_def cs_defs)
  next
    case LFixedTrailAgain
    then show ?thesis using ok
      by (simp add: template_step_def machine_ok_def machine_measure_def label_rank_def)
  next
    case LDefault
    then show ?thesis using ok trail_step_ok [OF st u, of data]
      by (auto simp: template_step_def machine_ok_def machine_measure_def label_rank_def)
  next
    case LRawZero
    then show ?thesis using ok stack_okD [OF st]
      by (simp add: template_step_def push_variable_value_def template_callback_raw_def bytes_in_def push_value_def
          machine_ok_def machine_measure_def label_rank_def)
  next
    case (LPush obj)
    then show ?thesis using ok template_push_ok [OF st u]
      by (simp add: template_step_def machine_ok_def machine_measure_def label_rank_def)
  next
    case LHeaderAgain
    then show ?thesis using ok
      by (auto simp: template_step_def Let_def machine_ok_def machine_measure_def label_rank_def)
  qed (use nf in \<open>simp_all add: final_label_def\<close>)
qed

lemma template_run_step:
  "template_run data l m =
     (if final_label l then Some (l, m)
      else do { (l', m') \<leftarrow> template_step data l m; template_run data l' m' })"
  by (rule template_run.simps)

text \<open>Induction along a run of a well-formed machine.\<close>

lemma machine_induct [consumes 1, case_names final step]:
  assumes "machine_ok (length data) l m"
    and "\<And>l m. machine_ok (length data) l m \<Longrightarrow> final_label l \<Longrightarrow> P l m"
    and "\<And>l m l' m'. machine_ok (length data) l m \<Longrightarrow> \<not> final_label l \<Longrightarrow> template_step data l m = Some (l', m') \<Longrightarrow>
      machine_ok (length data) l' m' \<Longrightarrow> P l' m' \<Longrightarrow> P l m"
  shows "P l m"
  using assms(1)
proof (induction "machine_measure (length data) l m" arbitrary: l m rule: less_induct)
  case less
  show ?case
  proof (cases "final_label l")
    case True
    then show ?thesis using less.prems assms(2) by blast
  next
    case False
    then obtain l' m' where "template_step data l m = Some (l', m')" "machine_ok (length data) l' m'"
      "machine_measure (length data) l' m' < machine_measure (length data) l m"
      using template_step_ok [OF less.prems] by (auto simp: step_ok_def)
    with False less show ?thesis using assms(3) by blast
  qed
qed

lemma template_run_returns:
  assumes "machine_ok (length data) l m"
  shows "\<exists>l' m'. template_run data l m = Some (l', m') \<and> final_label l' \<and> machine_ok (length data) l' m'"
  using assms
proof (induction rule: machine_induct)
  case (final l m)
  then show ?case by (subst template_run_step) simp
next
  case (step l m l' m')
  then show ?case by (subst template_run_step) simp
qed

subsection \<open>\<open>template_execute\<close>\<close>

definition ctx_ok :: "template_context \<Rightarrow> heap \<Rightarrow> bool" where
  "ctx_ok ctx h \<longleftrightarrow> stack_ok (c_stack ctx) (c_top ctx) \<and> user_ok (c_user ctx) h \<and>
     (c_cs ctx = CS_HEADER \<or> cs_trail_ok (c_cs ctx) (c_trail ctx))"

definition start_machine :: "template_context \<Rightarrow> nat \<Rightarrow> heap \<Rightarrow> machine" where
  "start_machine ctx off h =
     \<lparr>m_p = off, m_n = None, m_trail = c_trail ctx, m_cs = c_cs ctx, m_top = c_top ctx,
      m_stack = c_stack ctx, m_user = c_user ctx, m_heap = h\<rparr>"

definition start_label :: "byte list \<Rightarrow> nat \<Rightarrow> label" where
  "start_label data off = (if off = length data then LOut else LSwitch)"

definition saved_context :: "machine \<Rightarrow> template_context" where
  "saved_context m = \<lparr>c_user = m_user m, c_cs = m_cs m, c_trail = m_trail m, c_top = m_top m, c_stack = m_stack m\<rparr>"

definition finish_run :: "label \<times> machine \<Rightarrow> int \<times> template_context \<times> nat \<times> heap" where
  "finish_run lm = (let (ret, m) = template_end (fst lm) (snd lm) in (ret, saved_context m, m_p m, m_heap m))"

lemma template_execute_run:
  assumes "off \<le> length data"
  shows "template_execute ctx data off h =
     map_option finish_run (template_run data (start_label data off) (start_machine ctx off h))"
proof (cases "template_run data (start_label data off) (start_machine ctx off h)")
  case None
  then show ?thesis using assms by (simp add: template_execute_def start_label_def start_machine_def)
next
  case (Some lm)
  then show ?thesis using assms
    by (cases lm) (simp add: template_execute_def start_label_def start_machine_def finish_run_def saved_context_def
        split: prod.splits)
qed

lemma start_machine_ok:
  "ctx_ok ctx h \<Longrightarrow> off \<le> length data \<Longrightarrow> machine_ok (length data) (start_label data off) (start_machine ctx off h)"
  by (auto simp: ctx_ok_def machine_ok_def start_label_def start_machine_def)

lemma template_execute_ok:
  assumes "ctx_ok ctx h" "off \<le> length data"
  shows "\<exists>ret ctx' off' h'. template_execute ctx data off h = Some (ret, ctx', off', h') \<and>
    ret \<in> {-1, 0, 1} \<and> off' \<le> length data \<and> user_ok (c_user ctx') h' \<and>
    (ret = 0 \<longrightarrow> ctx_ok ctx' h') \<and> length (c_stack ctx') = 32"
proof -
  obtain l m where run: "template_run data (start_label data off) (start_machine ctx off h) = Some (l, m)"
    and l: "final_label l" and ok: "machine_ok (length data) l m"
    using template_run_returns [OF start_machine_ok [OF assms]] by blast
  have st: "length (m_stack m) = 32" using ok stack_okD by (auto simp: machine_ok_def)
  have "finish_run (l, m) = (ret, ctx', off', h') \<Longrightarrow>
    ret \<in> {-1, 0, 1} \<and> off' \<le> length data \<and> user_ok (c_user ctx') h' \<and>
    (ret = 0 \<longrightarrow> ctx_ok ctx' h') \<and> length (c_stack ctx') = 32" for ret ctx' off' h'
    using l ok st by (cases l) (auto simp: finish_run_def template_end_def saved_context_def final_label_def machine_ok_def ctx_ok_def)
  then show ?thesis using run assms(2)
    by (cases "finish_run (l, m)") (auto simp: template_execute_run)
qed

subsection \<open>Progress\<close>

lemma step_helpers_p:
  "push_value r m = Some (l', m') \<Longrightarrow> m_p m' = m_p m"
  "push_variable_value data m = Some (l', m') \<Longrightarrow> m_p m' = m_p m"
  "again_fixed_trail cs t m = Some (l', m') \<Longrightarrow> m_p m' = m_p m"
  "again_fixed_trail_if_zero cs t z m = Some (l', m') \<Longrightarrow> m_p m' = m_p m"
  "start_container f n ct m = Some (l', m') \<Longrightarrow> m_p m' = m_p m"
  by (auto simp: push_value_def push_variable_value_def again_fixed_trail_def again_fixed_trail_if_zero_def
      start_container_def Let_def bind_Some_iff split: if_splits)

lemma step_helpers_out:
  "push_value r m = Some (l', m') \<Longrightarrow> l' \<noteq> LOut"
  "push_variable_value data m = Some (l', m') \<Longrightarrow> l' \<noteq> LOut"
  "again_fixed_trail cs t m = Some (l', m') \<Longrightarrow> l' \<noteq> LOut"
  "again_fixed_trail_if_zero cs t LRawZero m = Some (l', m') \<Longrightarrow> l' \<noteq> LOut"
  "start_container f n ct m = Some (l', m') \<Longrightarrow> l' \<noteq> LOut"
  by (auto simp: push_value_def push_variable_value_def again_fixed_trail_def again_fixed_trail_if_zero_def
      start_container_def Let_def bind_Some_iff split: if_splits)

lemma template_trail_out: "template_trail data m = Some (l', m') \<Longrightarrow> l' \<noteq> LOut"
  unfolding template_trail_def Let_def
  by (auto simp: bind_Some_iff dest: step_helpers_out split: if_splits)

lemma template_header_out: "template_header data m = Some (l', m') \<Longrightarrow> l' \<noteq> LOut"
  unfolding template_header_def Let_def
  by (auto dest: step_helpers_out split: if_splits)

lemma template_push_out: "template_push obj m = Some (l', m') \<Longrightarrow> l' \<noteq> LOut"
  unfolding template_push_def Let_def
  by (auto simp: bind_Some_iff split: if_splits container_type.splits)

lemma template_trail_p: "template_trail data m = Some (l', m') \<Longrightarrow> m_p m' = m_p m"
  unfolding template_trail_def Let_def
  by (auto simp: bind_Some_iff dest: step_helpers_p split: if_splits)

lemma template_header_p: "template_header data m = Some (l', m') \<Longrightarrow> m_p m' = m_p m"
  unfolding template_header_def Let_def
  by (auto dest: step_helpers_p split: if_splits)

lemma template_push_p: "template_push obj m = Some (l', m') \<Longrightarrow> m_p m' = m_p m"
  unfolding template_push_def Let_def
  by (auto simp: bind_Some_iff split: if_splits container_type.splits)

lemma template_step_p: "template_step data l m = Some (l', m') \<Longrightarrow> m_p m \<le> m_p m'"
  by (cases l) (auto simp: template_step_def Let_def dest!: template_trail_p template_header_p template_push_p step_helpers_p(2)
      split: if_splits)

lemma template_run_p:
  assumes "machine_ok (length data) l m" "template_run data l m = Some (l', m')"
  shows "m_p m \<le> m_p m'"
  using assms
proof (induction rule: machine_induct)
  case (final l m)
  then show ?case by (subst (asm) template_run_step) simp
next
  case (step l m l1 m1)
  from step.prems step.hyps step.IH template_step_p [OF step.hyps(3)] show ?case
    by (subst (asm) template_run_step) simp
qed

subsection \<open>Resumption\<close>

definition drop_n :: "label \<times> machine \<Rightarrow> label \<times> machine" where
  "drop_n lm = (fst lm, (snd lm)\<lparr>m_n := None\<rparr>)"

lemma bytes_in_mono: "bytes_in (take k data) p l = Some b \<Longrightarrow> bytes_in data p l = Some b"
  by (auto simp: bytes_in_def take_drop min_def split: if_splits option.splits)

lemma push_variable_mono:
  "push_variable_value (take k data) m = Some r \<Longrightarrow> push_variable_value data m = Some r"
  by (auto simp: push_variable_value_def template_callback_raw_def bind_Some_iff dest: bytes_in_mono)

lemma load_n_mono: "load_n (take k data) m l = Some b \<Longrightarrow> load_n data m l = Some b"
  by (auto simp: load_n_def dest: bytes_in_mono)

lemma if_Some_mono:
  "(if c then x else y) = Some r \<Longrightarrow> (c \<Longrightarrow> x = Some r \<Longrightarrow> x' = Some r) \<Longrightarrow> (\<not> c \<Longrightarrow> y = Some r \<Longrightarrow> y' = Some r) \<Longrightarrow>
   (if c then x' else y') = Some r"
  by (simp split: if_splits)

lemma load_bind_mono:
  "Option.bind (load_n (take k data) m l) f = Some r \<Longrightarrow> Option.bind (load_n data m l) f = Some r"
  by (auto simp: bind_Some_iff dest: load_n_mono)

lemma template_trail_mono:
  "template_trail (take k data) m = Some r \<Longrightarrow> template_trail data m = Some r"
  unfolding template_trail_def Let_def
  by (elim if_Some_mono) (assumption | erule load_bind_mono | erule push_variable_mono)+

lemma template_header_mono:
  assumes "template_header (take k data) m = Some r"
  shows "template_header data m = Some r"
proof (cases "length (take k data) \<le> m_p m")
  case True
  then have "template_header (take k data) m = None" by (simp only: template_header_def if_True)
  with assms show ?thesis by simp
next
  case False
  then have "\<not> length data \<le> m_p m" "take k data ! m_p m = data ! m_p m" by auto
  with False have "template_header (take k data) m = template_header data m"
    by (simp only: template_header_def if_False)
  with assms show ?thesis by simp
qed

text \<open>Nothing but the address of an empty raw depends on \<open>n\<close>.\<close>

lemma step_helpers_n:
  "push_value r (m\<lparr>m_n := x\<rparr>) = map_option (\<lambda>(l, m). (l, m\<lparr>m_n := x\<rparr>)) (push_value r m)"
  "again_fixed_trail cs t (m\<lparr>m_n := x\<rparr>) = map_option (\<lambda>(l, m). (l, m\<lparr>m_n := x\<rparr>)) (again_fixed_trail cs t m)"
  "again_fixed_trail_if_zero cs t z (m\<lparr>m_n := x\<rparr>) =
     map_option (\<lambda>(l, m). (l, m\<lparr>m_n := x\<rparr>)) (again_fixed_trail_if_zero cs t z m)"
  "start_container f cnt ct (m\<lparr>m_n := x\<rparr>) = map_option (\<lambda>(l, m). (l, m\<lparr>m_n := x\<rparr>)) (start_container f cnt ct m)"
     apply (simp_all add: push_value_def again_fixed_trail_def again_fixed_trail_if_zero_def Let_def)
  apply (cases "f (m_user m) cnt (m_heap m)")
  apply (auto simp: start_container_def Let_def)
  done

lemma template_header_n:
  "template_header data (m\<lparr>m_n := x\<rparr>) = map_option (\<lambda>(l, m). (l, m\<lparr>m_n := x\<rparr>)) (template_header data m)"
  unfolding template_header_def Let_def
  by (simp add: step_helpers_n)

lemma template_push_n:
  "template_push obj (m\<lparr>m_n := x\<rparr>) = map_option (\<lambda>(l, m). (l, m\<lparr>m_n := x\<rparr>)) (template_push obj m)"
  unfolding template_push_def Let_def
  by (cases m) (auto simp: template_callback_array_item_def template_callback_map_item_def
      split: container_type.splits mobj.splits)

lemma template_step_n:
  assumes "l = LRawZero \<Longrightarrow> m_trail m = 0"
  shows "map_option drop_n (template_step data l (m\<lparr>m_n := x\<rparr>)) = map_option drop_n (template_step data l m)"
  using assms
  by (cases l) (auto simp: template_step_def template_header_n template_push_n Let_def push_variable_value_def
      template_callback_raw_def bytes_in_def step_helpers_n option.map_comp drop_n_def [abs_def] comp_def case_prod_beta push_value_def)

lemma template_run_n:
  assumes "machine_ok (length data) l m"
  shows "map_option drop_n (template_run data l (m\<lparr>m_n := x\<rparr>)) = map_option drop_n (template_run data l m)"
  using assms
proof (induction arbitrary: x rule: machine_induct)
  case (final l m)
  then show ?case by (simp add: template_run_step drop_n_def)
next
  case (step l m l' m')
  have "map_option drop_n (template_step data l (m\<lparr>m_n := x\<rparr>)) = map_option drop_n (template_step data l m)"
    using step.hyps(1) by (intro template_step_n) (auto simp: machine_ok_def)
  with step.hyps(3) obtain m1 where s: "template_step data l (m\<lparr>m_n := x\<rparr>) = Some (l', m1)"
    and "m1\<lparr>m_n := None\<rparr> = m'\<lparr>m_n := None\<rparr>"
    by (auto simp: drop_n_def)
  then have "m1 = m'\<lparr>m_n := m_n m1\<rparr>" by (cases m1; cases m') simp
  then have "map_option drop_n (template_run data l' m1) = map_option drop_n (template_run data l' m')"
    using step.IH by metis
  then show ?case using step.hyps s
    by (simp add: template_run_step [of data l])
qed

lemma finish_run_n: "finish_run (drop_n lm) = finish_run lm"
  by (cases "fst lm") (simp_all add: finish_run_def drop_n_def template_end_def saved_context_def)

lemma template_step_short:
  assumes ok: "machine_ok (length (take k data)) l m" and nf: "\<not> final_label l"
    and run: "template_step (take k data) l m = Some (l', m')"
  shows "if l' = LOut then template_run data l m = template_run data (start_label data (m_p m')) m'
    else template_step data l m = Some (l', m')"
proof (cases l)
  case LSwitch
  have "template_step data l m = Some (l', m')"
    using run LSwitch by (auto simp: template_step_def dest: template_header_mono split: if_splits)
  moreover have "l' \<noteq> LOut" using run LSwitch
    by (auto simp: template_step_def dest: template_header_out split: if_splits)
  ultimately show ?thesis by simp
next
  case LDefault
  show ?thesis
  proof (cases "length (take k data) - m_p m < unat (m_trail m)")
    case True
    then have eq: "l' = LOut" "m' = m" using run LDefault by (simp_all add: template_step_def)
    have cs: "cs_trail_ok (m_cs m) (m_trail m)" using ok LDefault by (simp add: machine_ok_def)
    then have "m_cs m \<noteq> CS_HEADER" "0 < unat (m_trail m)"
      by (auto simp: cs_trail_ok_def cs_defs unat_gt_0)
    then have "template_run data LDefault m = template_run data (start_label data (m_p m)) m"
      by (auto simp: start_label_def template_run_step [of data LDefault] template_run_step [of data LSwitch]
          template_step_def final_label_def template_run_step [of data LOut])
    with eq LDefault show ?thesis by simp
  next
    case False
    then have "\<not> length data - m_p m < unat (m_trail m)" by auto
    with False LDefault run have "template_step data l m = Some (l', m')"
      by (auto simp: template_step_def dest: template_trail_mono)
    moreover have "l' \<noteq> LOut" using run LDefault False
      by (auto simp: template_step_def dest: template_trail_out)
    ultimately show ?thesis by simp
  qed
next
  case LHeaderAgain
  then show ?thesis using ok run
    by (auto simp: template_run_step [of data LHeaderAgain] template_step_def Let_def final_label_def machine_ok_def start_label_def
       split: if_splits)
next
  case LRawZero
  then show ?thesis using run
    by (auto simp: template_step_def dest: push_variable_mono step_helpers_out(2))
next
  case (LPush obj)
  then show ?thesis using run by (auto simp: template_step_def dest: template_push_out)
qed (use assms in \<open>auto simp: template_step_def Let_def final_label_def\<close>)

lemma template_run_short:
  assumes "machine_ok (length (take k data)) l m" "l \<noteq> LOut" "template_run (take k data) l m = Some (l', m')"
  shows "if l' = LOut then template_run data l m = template_run data (start_label data (m_p m')) m'
    else template_run data l m = Some (l', m')"
  using assms
proof (induction rule: machine_induct)
  case (final l m)
  then show ?case by (simp add: template_run_step)
next
  case (step l m l1 m1)
  have run: "template_run (take k data) l1 m1 = Some (l', m')"
    using step.prems(2) step.hyps by (subst (asm) template_run_step) simp
  show ?case
  proof (cases "l1 = LOut")
    case True
    then have "l' = LOut" "m' = m1" using run by (simp_all add: template_run_step final_label_def)
    then show ?thesis using template_step_short [OF step.hyps(1-3)] True by simp
  next
    case False
    then have "template_run data l m = template_run data l1 m1"
      using template_step_short [OF step.hyps(1-3)] step.hyps(2) by (simp add: template_run_step [of data l])
    then show ?thesis using step.IH [OF False run] by simp
  qed
qed

lemma template_execute_take:
  assumes ok: "ctx_ok ctx h" and k: "off \<le> k" "k \<le> length data"
    and run: "template_execute ctx (take k data) off h = Some (ret, ctx', off', h')"
  shows "off \<le> off' \<and> off' \<le> k"
    "ret = 0 \<Longrightarrow> template_execute ctx' data off' h' = template_execute ctx data off h"
    "ret \<noteq> 0 \<Longrightarrow> template_execute ctx data off h = Some (ret, ctx', off', h')"
proof -
  let ?d = "take k data" and ?m = "start_machine ctx off h"
  have len: "length ?d = k" "off \<le> length ?d" using k by simp_all
  have mok: "machine_ok (length ?d) (start_label ?d off) ?m"
    by (rule start_machine_ok [OF ok]) (simp add: len(1) k)
  obtain l m where r: "template_run ?d (start_label ?d off) ?m = Some (l, m)"
    and fin: "finish_run (l, m) = (ret, ctx', off', h')"
    using run len by (auto simp: template_execute_run)
  have l: "final_label l" and ok': "machine_ok (length ?d) l m"
    using template_run_returns [OF mok] r by auto
  have p: "off \<le> m_p m" using template_run_p [OF mok r] by (simp add: start_machine_def)
  have off': "off \<le> off' \<and> off' \<le> k"
    using fin p ok' l len by (cases l) (auto simp: finish_run_def template_end_def final_label_def machine_ok_def)
  then show "off \<le> off' \<and> off' \<le> k" .
  have out: "ret = 0 \<longleftrightarrow> l = LOut"
    using fin l by (cases l) (auto simp: finish_run_def template_end_def final_label_def)
  have long: "template_run data (start_label data off) ?m =
      (if l = LOut then template_run data (start_label data (m_p m)) m else Some (l, m))"
  proof (cases "off = k")
    case True
    then have "l = LOut" "m = ?m" using r len by (simp_all add: start_label_def template_run_step final_label_def)
    then show ?thesis by (simp add: start_machine_def)
  next
    case False
    then have st: "start_label ?d off = LSwitch" "start_label data off = LSwitch"
      using k len by (auto simp: start_label_def)
    show ?thesis using template_run_short [OF mok _ r] unfolding st by (cases "l = LOut") simp_all
  qed
  show "template_execute ctx data off h = Some (ret, ctx', off', h')" if "ret \<noteq> 0"
    using that out long fin k by (simp add: template_execute_run)
  show "template_execute ctx' data off' h' = template_execute ctx data off h" if "ret = 0"
  proof -
    have lo: "l = LOut" using that out by simp
    then have eqs: "ctx' = saved_context m" "off' = m_p m" "h' = m_heap m"
      using fin by (simp_all add: finish_run_def template_end_def)
    have start: "start_machine ctx' off' h' = m\<lparr>m_n := None\<rparr>"
      by (cases m) (simp add: eqs start_machine_def saved_context_def)
    have "machine_ok (length data) (start_label data (m_p m)) m"
      using ok' lo k by (auto simp: machine_ok_def start_label_def)
    then have n: "map_option drop_n (template_run data (start_label data (m_p m)) (m\<lparr>m_n := None\<rparr>)) =
        map_option drop_n (template_run data (start_label data (m_p m)) m)"
      by (rule template_run_n)
    have "template_execute ctx' data off' h' =
        map_option finish_run (map_option drop_n (template_run data (start_label data (m_p m)) (m\<lparr>m_n := None\<rparr>)))"
      using off' k start by (simp add: template_execute_run eqs(2) option.map_comp comp_def finish_run_n)
    also have "\<dots> = map_option finish_run (template_run data (start_label data (m_p m)) m)"
      unfolding n by (simp add: option.map_comp comp_def finish_run_n)
    also have "\<dots> = template_execute ctx data off h"
      using long lo k by (simp add: template_execute_run)
    finally show ?thesis .
  qed
qed

subsection \<open>One-shot deserialization\<close>

definition MSGPACK_ZONE_CHUNK_SIZE :: u64 where "MSGPACK_ZONE_CHUNK_SIZE = 8192"

definition MSGPACK_UNPACK_SUCCESS :: int where "MSGPACK_UNPACK_SUCCESS = 2"
definition MSGPACK_UNPACK_EXTRA_BYTES :: int where "MSGPACK_UNPACK_EXTRA_BYTES = 1"
definition MSGPACK_UNPACK_CONTINUE :: int where "MSGPACK_UNPACK_CONTINUE = 0"
definition MSGPACK_UNPACK_PARSE_ERROR :: int where "MSGPACK_UNPACK_PARSE_ERROR = -1"

lemmas unpack_return_defs = MSGPACK_UNPACK_SUCCESS_def MSGPACK_UNPACK_EXTRA_BYTES_def
  MSGPACK_UNPACK_CONTINUE_def MSGPACK_UNPACK_PARSE_ERROR_def

text \<open>
  \<open>ctx0\<close> is the uninitialised automatic variable; \<open>off\<close> is \<open>None\<close> for a null pointer.
  The result is the return code, \<open>*off\<close>, \<open>*result\<close>, the zone and the heap.
\<close>

definition msgpack_unpack ::
    "template_context \<Rightarrow> byte list \<Rightarrow> nat option \<Rightarrow> zone option \<Rightarrow> mobj \<Rightarrow> heap \<Rightarrow>
     (int \<times> nat option \<times> mobj \<times> zone option \<times> heap) option" where
  "msgpack_unpack ctx0 data off result_zone result h =
     (let noff = (case off of None \<Rightarrow> 0 | Some n \<Rightarrow> n) in
      if length data \<le> noff then Some (MSGPACK_UNPACK_CONTINUE, off, result, result_zone, h)
      else do {
        let ctx = (template_init ctx0)\<lparr>c_user := \<lparr>u_z = result_zone, u_referenced = False\<rparr>\<rparr>;
        (e, ctx, noff, h) \<leftarrow> template_execute ctx data noff h;
        let z = u_z (c_user ctx);
        if e < 0 then Some (MSGPACK_UNPACK_PARSE_ERROR, off, result, z, h)
        else
          let off = map_option (\<lambda>_. noff) off in
          if e = 0 then Some (MSGPACK_UNPACK_CONTINUE, off, result, z, h)
          else if noff < length data then Some (MSGPACK_UNPACK_EXTRA_BYTES, off, template_data ctx, z, h)
          else Some (MSGPACK_UNPACK_SUCCESS, off, template_data ctx, z, h)
      })"

record msgpack_unpacked =
  up_zone :: zone_ref
  up_data :: mobj

definition msgpack_unpacked_init :: msgpack_unpacked where
  "msgpack_unpacked_init = \<lparr>up_zone = None, up_data = MNil\<rparr>"

definition msgpack_unpacked_destroy :: "msgpack_unpacked \<Rightarrow> heap \<Rightarrow> (msgpack_unpacked \<times> heap) option" where
  "msgpack_unpacked_destroy result h =
     (if up_zone result \<noteq> None then
        do { h \<leftarrow> msgpack_zone_free (up_zone result) h; Some (\<lparr>up_zone = None, up_data = MNil\<rparr>, h) }
      else Some (result, h))"

definition msgpack_unpacked_release_zone :: "msgpack_unpacked \<Rightarrow> zone_ref \<times> msgpack_unpacked" where
  "msgpack_unpacked_release_zone result = (up_zone result, result\<lparr>up_zone := None\<rparr>)"

text \<open>The automaton updates the zone a reference points to.\<close>

definition zone_ref_upd :: "zone_ref \<Rightarrow> zone option \<Rightarrow> zone_ref" where
  "zone_ref_upd r z = (case (r, z) of (Some (p, _), Some z) \<Rightarrow> Some (p, z) | _ \<Rightarrow> None)"

definition msgpack_unpack_next ::
    "template_context \<Rightarrow> msgpack_unpacked \<Rightarrow> byte list \<Rightarrow> nat option \<Rightarrow> heap \<Rightarrow>
     (bool \<times> msgpack_unpacked \<times> nat option \<times> heap) option" where
  "msgpack_unpack_next ctx0 result data off h =
     do {
       (result, h) \<leftarrow> msgpack_unpacked_destroy result h;
       let noff = (case off of None \<Rightarrow> 0 | Some n \<Rightarrow> n);
       if length data \<le> noff then Some (False, result, off, h)
       else do {
         (z, h) \<leftarrow> msgpack_zone_new MSGPACK_ZONE_CHUNK_SIZE h;
         let ctx = (template_init ctx0)\<lparr>c_user := \<lparr>u_z = map_option snd z, u_referenced = False\<rparr>\<rparr>;
         (e, ctx, noff, h) \<leftarrow> template_execute ctx data noff h;
         let z = zone_ref_upd z (u_z (c_user ctx));
         if e \<le> 0 then do { h \<leftarrow> msgpack_zone_free z h; Some (False, result, off, h) }
         else Some (True, \<lparr>up_zone = z, up_data = template_data ctx\<rparr>, map_option (\<lambda>_. noff) off, h)
       }
     }"

lemma template_execute_progress:
  assumes ok: "ctx_ok ctx h" and off: "off \<le> length data"
    and run: "template_execute ctx data off h = Some (1, ctx', off', h')"
  shows "off < off'"
proof -
  obtain l m where r: "template_run data (start_label data off) (start_machine ctx off h) = Some (l, m)"
    and fin: "finish_run (l, m) = (1, ctx', off', h')"
    using run off by (auto simp: template_execute_run)
  have "off \<le> m_p m"
    using template_run_p [OF start_machine_ok [OF ok off] r] by (simp add: start_machine_def)
  then show ?thesis using fin
    by (cases l) (auto simp: finish_run_def template_end_def)
qed

lemma init_ctx_ok:
  assumes "length (c_stack ctx0) = 32" "no_oom h" "zone_ok h z bs"
  shows "ctx_ok ((template_init ctx0)\<lparr>c_user := \<lparr>u_z = Some z, u_referenced = r\<rparr>\<rparr>) h"
  using assms by (auto simp: ctx_ok_def template_init_def stack_ok_def user_ok_def MSGPACK_EMBED_STACK_SIZE_def)

subsection \<open>Properties\<close>


definition blank_context :: "template_context" where
  "blank_context = \<lparr>c_user = \<lparr>u_z = None, u_referenced = False\<rparr>, c_cs = 0, c_trail = 0, c_top = 0,
     c_stack = replicate 32 \<lparr>s_obj = MNil, s_count = 0, s_ct = CT_ARRAY_ITEM, s_map_key = MNil\<rparr>\<rparr>"

text \<open>A zone of the default chunk size on an empty heap, for the witnesses.\<close>

lemma fresh_zone:
  obtains z h where "msgpack_zone_init 8192 (init_heap (\<lambda>_ _. False)) = Some (Some z, h)"
    "zone_inv h z [0] []" "no_oom h" "z_chunks z = \<lparr>cl_free = 8192, cl_ptr = Ptr 0 8, cl_head = Ptr 0 0\<rparr>"
proof -
  have "\<exists>z h. msgpack_zone_init 8192 (init_heap (\<lambda>_ _. False)) = Some (Some z, h) \<and> no_oom h \<and>
      z_chunks z = \<lparr>cl_free = 8192, cl_ptr = Ptr 0 8, cl_head = Ptr 0 0\<rparr>"
    by (simp add: zone_eval no_oom_def)
  then obtain z h where z: "msgpack_zone_init 8192 (init_heap (\<lambda>_ _. False)) = Some (Some z, h)" "no_oom h"
      "z_chunks z = \<lparr>cl_free = 8192, cl_ptr = Ptr 0 8, cl_head = Ptr 0 0\<rparr>" by blast
  with zone_init_inv [OF z(1)] show thesis by (intro that) auto
qed


text \<open>
  C7: the automaton is incremental. Run on a prefix of the input it either delivers an object or
  fails, and then it does the same on the whole input, or it runs out of bytes, and then calling
  it again with the context and the offset it saved, once the rest has arrived, is the same as
  one call on the whole input.
\<close>

theorem template_execute_resumes:
  assumes "ctx_ok ctx h" "off \<le> k" "k \<le> length data"
    and "template_execute ctx (take k data) off h = Some (ret, ctx', off', h')"
  shows "if ret = 0 then template_execute ctx' data off' h' = template_execute ctx data off h
    else template_execute ctx data off h = Some (ret, ctx', off', h')"
  using template_execute_take(2,3) [OF assms] by simp

lemma template_execute_resumes_witness:
  "\<exists>z h ctx'. msgpack_zone_init 8192 (init_heap (\<lambda>_ _. False)) = Some (Some z, h) \<and>
     (let ctx = (template_init blank_context)\<lparr>c_user := \<lparr>u_z = Some z, u_referenced = False\<rparr>\<rparr> in
      template_execute ctx (take 2 [0xcd, 1, 2]) 0 h = Some (0, ctx', 1, h) \<and>
      template_execute ctx' [0xcd, 1, 2] 1 h = template_execute ctx [0xcd, 1, 2] 0 h)"
proof -
  obtain z h where z: "msgpack_zone_init 8192 (init_heap (\<lambda>_ _. False)) = Some (Some z, h)"
    "zone_inv h z [0] []" "no_oom h" by (rule fresh_zone)
  let ?ctx = "(template_init blank_context)\<lparr>c_user := \<lparr>u_z = Some z, u_referenced = False\<rparr>\<rparr>"
  have "\<exists>ctx'. template_execute ?ctx (take 2 [0xcd, 1, 2]) 0 h = Some (0, ctx', 1, h)"
    by (simp add: template_execute_def template_init_def blank_context_def template_run.simps final_label_def
        template_step_def template_header_def again_fixed_trail_def next_cs_def template_end_def cs_defs Let_def)
  then obtain ctx' where run: "template_execute ?ctx (take 2 [0xcd, 1, 2]) 0 h = Some (0, ctx', 1, h)" by blast
  have "ctx_ok ?ctx h" using z by (intro init_ctx_ok [where bs = "[0]"]) (simp_all add: blank_context_def zone_inv_def)
  from template_execute_resumes [OF this _ _ run] run z show ?thesis by auto
qed

end
