(* ===== verification/MsgpackDecode.thy ===== *)
theory MsgpackDecode
  imports MsgpackFormat MsgpackUnpack
begin

text \<open>
  The deserializer against the format. \<open>reads_at\<close> is what it means for the automaton to read a
  byte string as an object: the lemmas follow the automaton through a scalar, a raw and the two
  kinds of containers, and \<open>format_read\<close> puts them together along the rules of \<open>mp_format\<close>.
  The properties are that what the serializer wrote is read back, from the middle of a buffer
  and whatever follows, and the limit of the 32 embedded stack frames.
\<close>

subsection \<open>Reading a value\<close>

text \<open>
  \<open>delivers data m x k m'\<close>: from the header state \<open>m\<close> the automaton reaches \<open>_push\<close> with the
  object \<open>x\<close> in state \<open>m'\<close>, having moved to the last of the next \<open>k\<close> bytes, with the open
  containers as they were.
\<close>

definition delivers :: "byte list \<Rightarrow> machine \<Rightarrow> mobj \<Rightarrow> nat \<Rightarrow> machine \<Rightarrow> bool" where
  "delivers data m x k m' \<longleftrightarrow>
     template_run data LSwitch m = template_run data (LPush x) m' \<and>
     m_p m' + 1 = m_p m + k \<and> m_top m' = m_top m \<and>
     take (m_top m) (m_stack m') = take (m_top m) (m_stack m) \<and>
     machine_ok (length data) (LPush x) m'"

definition at_value :: "byte list \<Rightarrow> machine \<Rightarrow> byte list \<Rightarrow> bool" where
  "at_value data m bs \<longleftrightarrow>
     machine_ok (length data) LSwitch m \<and> m_cs m = CS_HEADER \<and> (\<exists>rest. drop (m_p m) data = bs @ rest)"

lemma at_valueD:
  assumes "at_value data m (b # bs)"
  shows "m_p m < length data" "data ! m_p m = b" "m_p m + length bs < length data"
    "take (length bs) (drop (m_p m + 1) data) = bs"
    "stack_ok (m_stack m) (m_top m)" "user_ok (m_user m) (m_heap m)" "m_cs m = CS_HEADER"
proof -
  obtain rest where d: "drop (m_p m) data = (b # bs) @ rest" and ok: "machine_ok (length data) LSwitch m"
    and cs: "m_cs m = CS_HEADER"
    using assms by (auto simp: at_value_def)
  then show lt: "m_p m < length data" by (simp add: machine_ok_def)
  show "stack_ok (m_stack m) (m_top m)" "user_ok (m_user m) (m_heap m)" "m_cs m = CS_HEADER"
    using ok cs by (simp_all add: machine_ok_def)
  show "data ! m_p m = b" using d lt by (metis append_Cons nth_via_drop)
  have "length (drop (m_p m) data) = length ((b # bs) @ rest)" using d by simp
  then show "m_p m + length bs < length data" by simp
  have "drop (m_p m + 1) data = drop 1 (drop (m_p m) data)" by simp
  also have "\<dots> = bs @ rest" unfolding d by simp
  finally have "drop (m_p m + 1) data = bs @ rest" .
  then show "take (length bs) (drop (m_p m + 1) data) = bs" by simp
qed

lemma delivers_simple:
  assumes v: "at_value data m [b]" and h: "template_header data m = Some (LPush x, m)"
  shows "delivers data m x 1 m"
proof -
  note d = at_valueD [OF v]
  have "template_step data LSwitch m = Some (LPush x, m)" using d h by (simp add: template_step_def)
  then show ?thesis using d
    by (simp add: delivers_def template_run_step [of data LSwitch] final_label_def machine_ok_def)
qed

text \<open>The part common to everything with a fixed trail.\<close>

definition at_trail :: "machine \<Rightarrow> u32 \<Rightarrow> u32 \<Rightarrow> machine" where
  "at_trail m cs t = m\<lparr>m_trail := t, m_cs := cs, m_n := Some (m_p m + 1), m_p := m_p m + unat t\<rparr>"

lemma run_trail:
  assumes v: "at_value data m (b # bs)" and h: "template_header data m = again_fixed_trail cs t m"
    and t: "unat t = length bs" "bs \<noteq> []"
  shows "template_run data LSwitch m =
      do { (l, m') \<leftarrow> template_trail data (at_trail m cs t); template_run data l m' }"
    and "load_n data (at_trail m cs t) (length bs) = Some bs"
proof -
  note d = at_valueD [OF v]
  have "t \<noteq> 0" using t by (metis length_0_conv unat_0)
  then have t1: "unat (t - 1) = unat t - 1" by (simp add: unat_minus_one)
  have pos: "0 < unat t" using t by simp
  obtain j where j: "length bs = Suc j" using t(2) by (cases bs) auto
  have room: "\<not> length data - Suc (m_p m) < Suc j" using d(3) j by simp
  let ?m = "m\<lparr>m_trail := t, m_cs := cs\<rparr>"
  let ?m1 = "?m\<lparr>m_p := m_p m + 1\<rparr>"
  have "template_run data LSwitch m = template_run data LFixedTrailAgain ?m"
    using d h by (simp add: template_run_step [of data LSwitch] final_label_def template_step_def again_fixed_trail_def)
  also have "\<dots> = template_run data LDefault ?m1"
    by (simp add: template_run_step [of data LFixedTrailAgain] final_label_def template_step_def)
  also have "\<dots> = do { (l, m') \<leftarrow> template_trail data (at_trail m cs t); template_run data l m' }"
    using room j t(1)
    by (simp add: template_run_step [of data LDefault] final_label_def template_step_def at_trail_def t1)
  finally show "template_run data LSwitch m = \<dots>" .
  show "load_n data (at_trail m cs t) (length bs) = Some bs"
    using d(3,4) t by (simp add: load_n_def bytes_in_def at_trail_def)
qed

lemma delivers_trail:
  assumes v: "at_value data m (b # bs)" and h: "template_header data m = again_fixed_trail cs t m"
    and t: "unat t = length bs" "bs \<noteq> []"
    and r: "load_n data (at_trail m cs t) (length bs) = Some bs \<Longrightarrow>
      template_trail data (at_trail m cs t) = Some (LPush x, at_trail m cs t)"
  shows "delivers data m x (length (b # bs)) (at_trail m cs t)"
  using r [OF run_trail(2) [OF v h t]] run_trail(1) [OF v h t] at_valueD [OF v] t
  by (simp add: delivers_def at_trail_def machine_ok_def)

subsection \<open>Scalars\<close>

lemma signed_callbacks:
  "template_callback_int8 b = (0, signed_obj (scast b))"
  "template_callback_int16 v = (0, signed_obj (scast v))"
  "template_callback_int32 w = (0, signed_obj (scast w))"
  "template_callback_int64 d = (0, signed_obj d)"
  by (simp_all add: template_callback_int8_def template_callback_int16_def template_callback_int32_def
      template_callback_int64_def signed_obj_def sint_up_scast is_up)

lemma unsigned_callbacks:
  "template_callback_uint8 b = (0, MPosInt (ucast b))"
  "template_callback_uint16 v = (0, MPosInt (ucast v))"
  "template_callback_uint32 w = (0, MPosInt (ucast w))"
  "template_callback_uint64 d = (0, MPosInt d)"
  "template_callback_float w = (0, MDouble (dbl_of_float w))"
  "template_callback_double d = (0, MDouble d)"
  by (simp_all add: template_callback_uint8_def template_callback_uint16_def template_callback_uint32_def
      template_callback_uint64_def template_callback_float_def template_callback_double_def)

lemmas leaf_callbacks = signed_callbacks unsigned_callbacks template_callback_nil_def
  template_callback_true_def template_callback_false_def push_value_def

lemma header_fixed:
  assumes "m_p m < length data" "data ! m_p m = b"
  shows "b = 0xc0 \<Longrightarrow> template_header data m = Some (LPush MNil, m)"
    "b = 0xc2 \<Longrightarrow> template_header data m = Some (LPush (MBool False), m)"
    "b = 0xc3 \<Longrightarrow> template_header data m = Some (LPush (MBool True), m)"
    "uint b < 128 \<Longrightarrow> template_header data m = Some (LPush (MPosInt (ucast b)), m)"
    "224 \<le> uint b \<Longrightarrow> template_header data m = Some (LPush (signed_obj (scast b)), m)"
  using assms by (simp_all add: template_header_def leaf_callbacks word_le_def not_le)

lemma header_trail:
  assumes "m_p m < length data" "data ! m_p m = b"
  shows "b = 0xca \<Longrightarrow> template_header data m = again_fixed_trail CS_FLOAT 4 m"
    "b = 0xcb \<Longrightarrow> template_header data m = again_fixed_trail CS_DOUBLE 8 m"
    "b = 0xcc \<Longrightarrow> template_header data m = again_fixed_trail CS_UINT_8 1 m"
    "b = 0xcd \<Longrightarrow> template_header data m = again_fixed_trail CS_UINT_16 2 m"
    "b = 0xce \<Longrightarrow> template_header data m = again_fixed_trail CS_UINT_32 4 m"
    "b = 0xcf \<Longrightarrow> template_header data m = again_fixed_trail CS_UINT_64 8 m"
    "b = 0xd0 \<Longrightarrow> template_header data m = again_fixed_trail CS_INT_8 1 m"
    "b = 0xd1 \<Longrightarrow> template_header data m = again_fixed_trail CS_INT_16 2 m"
    "b = 0xd2 \<Longrightarrow> template_header data m = again_fixed_trail CS_INT_32 4 m"
    "b = 0xd3 \<Longrightarrow> template_header data m = again_fixed_trail CS_INT_64 8 m"
    "b = 0xda \<Longrightarrow> template_header data m = again_fixed_trail CS_RAW_16 2 m"
    "b = 0xdb \<Longrightarrow> template_header data m = again_fixed_trail CS_RAW_32 4 m"
    "b = 0xdc \<Longrightarrow> template_header data m = again_fixed_trail CS_ARRAY_16 2 m"
    "b = 0xdd \<Longrightarrow> template_header data m = again_fixed_trail CS_ARRAY_32 4 m"
    "b = 0xde \<Longrightarrow> template_header data m = again_fixed_trail CS_MAP_16 2 m"
    "b = 0xdf \<Longrightarrow> template_header data m = again_fixed_trail CS_MAP_32 4 m"
  using assms by (simp_all add: template_header_def next_cs_def cs_defs)

lemma at_trail_cs [simp]: "m_cs (at_trail m cs t) = cs"
  by (simp add: at_trail_def)

lemma trail_leaf:
  assumes "load_n data (at_trail m cs t) k = Some bs"
  shows "cs = CS_FLOAT \<Longrightarrow> k = 4 \<Longrightarrow> template_trail data (at_trail m cs t) = Some (LPush (MDouble (dbl_of_float (msgpack_load32 bs))), at_trail m cs t)"
    "cs = CS_DOUBLE \<Longrightarrow> k = 8 \<Longrightarrow> template_trail data (at_trail m cs t) = Some (LPush (MDouble (msgpack_load64 bs)), at_trail m cs t)"
    "cs = CS_UINT_8 \<Longrightarrow> k = 1 \<Longrightarrow> template_trail data (at_trail m cs t) = Some (LPush (MPosInt (ucast (bs ! 0))), at_trail m cs t)"
    "cs = CS_UINT_16 \<Longrightarrow> k = 2 \<Longrightarrow> template_trail data (at_trail m cs t) = Some (LPush (MPosInt (ucast (msgpack_load16 bs))), at_trail m cs t)"
    "cs = CS_UINT_32 \<Longrightarrow> k = 4 \<Longrightarrow> template_trail data (at_trail m cs t) = Some (LPush (MPosInt (ucast (msgpack_load32 bs))), at_trail m cs t)"
    "cs = CS_UINT_64 \<Longrightarrow> k = 8 \<Longrightarrow> template_trail data (at_trail m cs t) = Some (LPush (MPosInt (msgpack_load64 bs)), at_trail m cs t)"
    "cs = CS_INT_8 \<Longrightarrow> k = 1 \<Longrightarrow> template_trail data (at_trail m cs t) = Some (LPush (signed_obj (scast (bs ! 0))), at_trail m cs t)"
    "cs = CS_INT_16 \<Longrightarrow> k = 2 \<Longrightarrow> template_trail data (at_trail m cs t) = Some (LPush (signed_obj (scast (msgpack_load16 bs))), at_trail m cs t)"
    "cs = CS_INT_32 \<Longrightarrow> k = 4 \<Longrightarrow> template_trail data (at_trail m cs t) = Some (LPush (signed_obj (scast (msgpack_load32 bs))), at_trail m cs t)"
    "cs = CS_INT_64 \<Longrightarrow> k = 8 \<Longrightarrow> template_trail data (at_trail m cs t) = Some (LPush (signed_obj (msgpack_load64 bs)), at_trail m cs t)"
  using assms by (simp_all add: template_trail_def cs_defs leaf_callbacks)

subsection \<open>Raws\<close>

lemma fix_bytes:
  assumes "n < 16"
  shows "(0x80 :: byte) \<le> 0x80 OR of_nat n" "0x80 OR of_nat n \<le> (0x8f :: byte)" "ucast (0x80 OR of_nat n :: byte) AND 0x0f = (of_nat n :: u32)"
    "(0x90 :: byte) \<le> 0x90 OR of_nat n" "0x90 OR of_nat n \<le> (0x9f :: byte)" "ucast (0x90 OR of_nat n :: byte) AND 0x0f = (of_nat n :: u32)"
proof -
  have "n \<in> set [0..<16]" using assms by simp
  then have "n \<in> {0, 1, 2, 3, 4, 5, 6, 7, 8, 9, 10, 11, 12, 13, 14, 15}" by (simp add: upt_rec numeral_eq_Suc)
  then show "(0x80 :: byte) \<le> 0x80 OR of_nat n" "0x80 OR of_nat n \<le> (0x8f :: byte)" "ucast (0x80 OR of_nat n :: byte) AND 0x0f = (of_nat n :: u32)"
    "(0x90 :: byte) \<le> 0x90 OR of_nat n" "0x90 OR of_nat n \<le> (0x9f :: byte)" "ucast (0x90 OR of_nat n :: byte) AND 0x0f = (of_nat n :: u32)"
    by auto
qed

lemma fix_raw_bytes:
  assumes "n < 32"
  shows "(0xa0 :: byte) \<le> 0xa0 OR of_nat n" "0xa0 OR of_nat n \<le> (0xbf :: byte)" "ucast (0xa0 OR of_nat n :: byte) AND 0x1f = (of_nat n :: u32)"
proof -
  have "n \<in> set [0..<32]" using assms by simp
  then have "n \<in> {0, 1, 2, 3, 4, 5, 6, 7, 8, 9, 10, 11, 12, 13, 14, 15, 16, 17, 18, 19, 20, 21, 22, 23, 24, 25, 26, 27, 28, 29, 30, 31}"
    by (simp add: upt_rec numeral_eq_Suc)
  then show "(0xa0 :: byte) \<le> 0xa0 OR of_nat n" "0xa0 OR of_nat n \<le> (0xbf :: byte)" "ucast (0xa0 OR of_nat n :: byte) AND 0x1f = (of_nat n :: u32)"
    by auto
qed

text \<open>A body of known length, whichever header announced it: \<open>p\<close> is at the last byte of the header.\<close>

lemma run_raw_body:
  assumes ok: "stack_ok (m_stack m) (m_top m)" "user_ok (m_user m) (m_heap m)" and p: "m_p m < length data"
    and d: "drop (m_p m + 1) data = r @ rest" and len: "length r < 2 ^ 32"
  shows "\<exists>m'. (case again_fixed_trail_if_zero ACS_RAW_VALUE (of_nat (length r)) LRawZero m of
           Some (l, m1) \<Rightarrow> template_run data l m1 | None \<Rightarrow> None) = template_run data (LPush (MRaw r)) m' \<and>
    m_p m' = m_p m + length r \<and> m_top m' = m_top m \<and> m_stack m' = m_stack m \<and>
    machine_ok (length data) (LPush (MRaw r)) m'"
proof -
  let ?t = "of_nat (length r) :: u32"
  have t: "unat ?t = length r" using len by (simp add: unsigned_of_nat take_bit_nat_eq_self)
  have room: "m_p m + length r < length data"
    using arg_cong [OF d, of length] p by simp
  let ?m = "m\<lparr>m_trail := ?t\<rparr>"
  show ?thesis
  proof (cases r)
    case Nil
    then show ?thesis using ok p
      by (intro exI [of _ "?m\<lparr>m_user := (m_user m)\<lparr>u_referenced := True\<rparr>\<rparr>"])
        (simp add: again_fixed_trail_if_zero_def template_run_step [of data LRawZero] template_step_def
          push_variable_value_def template_callback_raw_def bytes_in_def push_value_def final_label_def machine_ok_def)
  next
    case (Cons a as)
    then have nz: "?t \<noteq> 0" using t by (metis length_0_conv list.discI unat_0)
    have t1: "unat (?t - 1) = length as" using len Cons by (simp add: unsigned_of_nat take_bit_nat_eq_self)
    let ?m' = "m\<lparr>m_trail := ?t, m_cs := ACS_RAW_VALUE, m_n := Some (m_p m + 1), m_p := m_p m + length r,
        m_user := (m_user m)\<lparr>u_referenced := True\<rparr>\<rparr>"
    have "\<not> length data - Suc (m_p m) < Suc (length as)" using room Cons by simp
    moreover have "take (length r) (drop (m_p m + 1) data) = r" using d by simp
    ultimately show ?thesis using ok room nz t t1 Cons
      by (intro exI [of _ ?m'])
        (simp add: again_fixed_trail_if_zero_def Let_def template_run_step [of data LFixedTrailAgain]
          template_run_step [of data LDefault] template_step_def template_trail_def cs_defs
          push_variable_value_def template_callback_raw_def bytes_in_def push_value_def final_label_def machine_ok_def)
  qed
qed

lemma at_value_rest:
  assumes "at_value data m (bs @ r)" "bs \<noteq> []"
  shows "\<exists>rest. drop (m_p m + length bs) data = r @ rest" "m_p m + length bs \<le> length data"
proof -
  obtain rest where d: "drop (m_p m) data = (bs @ r) @ rest" and p: "m_p m < length data"
    using assms by (auto simp: at_value_def machine_ok_def)
  have "drop (m_p m + length bs) data = drop (length bs) (drop (m_p m) data)" by (simp add: add.commute)
  then show "\<exists>rest. drop (m_p m + length bs) data = r @ rest" unfolding d by simp
  show "m_p m + length bs \<le> length data" using arg_cong [OF d, of length] p by simp
qed

lemma delivers_raw:
  assumes len: "length r < 2 ^ 32" and v: "at_value data m (hb @ r)" and hb: "hb \<noteq> []"
    and run: "template_run data LSwitch m =
      (case again_fixed_trail_if_zero ACS_RAW_VALUE (of_nat (length r)) LRawZero m1 of
         Some (l, m2) \<Rightarrow> template_run data l m2 | None \<Rightarrow> None)"
    and m1: "m_p m1 + 1 = m_p m + length hb" "m_top m1 = m_top m" "m_stack m1 = m_stack m"
      "m_user m1 = m_user m" "m_heap m1 = m_heap m"
  shows "\<exists>m'. delivers data m (MRaw r) (length (hb @ r)) m'"
proof -
  have ok: "stack_ok (m_stack m1) (m_top m1)" "user_ok (m_user m1) (m_heap m1)"
    using v m1 by (simp_all add: at_value_def machine_ok_def)
  obtain rest where d: "drop (m_p m1 + 1) data = r @ rest"
    using at_value_rest(1) [OF v hb] m1(1) by auto
  have p: "m_p m1 < length data"
    using at_value_rest(2) [OF v hb] m1(1) by linarith
  from run_raw_body [OF ok p d len] obtain m' where
    "template_run data LSwitch m = template_run data (LPush (MRaw r)) m'"
    "m_p m' = m_p m1 + length r" "m_top m' = m_top m1" "m_stack m' = m_stack m1"
    "machine_ok (length data) (LPush (MRaw r)) m'"
    unfolding run by blast
  then show ?thesis using m1 by (auto simp: delivers_def)
qed

lemma delivers_fix_raw:
  assumes len: "length r < 32" and v: "at_value data m ((0xa0 OR of_nat (length r)) # r)"
  shows "\<exists>m'. delivers data m (MRaw r) (length ((0xa0 OR of_nat (length r)) # r)) m'"
proof -
  note b = fix_raw_bytes [OF len] and d = at_valueD [OF v]
  have "\<not> 0xc0 \<le> (0xa0 OR of_nat (length r) :: byte)" "\<not> 0xe0 \<le> (0xa0 OR of_nat (length r) :: byte)"
    "\<not> (0xa0 OR of_nat (length r) :: byte) \<le> 0x7f"
    using b by (simp_all add: word_le_nat_alt)
  then have "template_header data m = again_fixed_trail_if_zero ACS_RAW_VALUE (of_nat (length r)) LRawZero m"
    using b d by (simp add: template_header_def)
  then have "template_run data LSwitch m =
      (case again_fixed_trail_if_zero ACS_RAW_VALUE (of_nat (length r)) LRawZero m of
         Some (l, m2) \<Rightarrow> template_run data l m2 | None \<Rightarrow> None)"
    using d(7) by (simp add: template_run_step [of data LSwitch] final_label_def template_step_def
        split: option.splits)
  from delivers_raw [of r data m "[0xa0 OR of_nat (length r)]", OF _ _ _ this] len v show ?thesis by simp
qed

lemma delivers_raw16:
  assumes len: "length r < 2 ^ 16" and v: "at_value data m (0xda # be_bytes16 (of_nat (length r)) @ r)"
  shows "\<exists>m'. delivers data m (MRaw r) (length (0xda # be_bytes16 (of_nat (length r)) @ r)) m'"
proof -
  let ?hb = "be_bytes16 (of_nat (length r))" and ?m = "at_trail m CS_RAW_16 2"
  have v': "at_value data m (0xda # ?hb)" using v by (auto simp: at_value_def)
  note h = header_trail(11) [OF at_valueD(1,2) [OF v'] refl]
  have "(ucast (of_nat (length r) :: u16) :: u32) = of_nat (length r)"
    using len by (intro ucast_of_nat_up) simp_all
  then have "template_run data LSwitch m =
      (case again_fixed_trail_if_zero ACS_RAW_VALUE (of_nat (length r)) LRawZero ?m of
         Some (l, m2) \<Rightarrow> template_run data l m2 | None \<Rightarrow> None)"
    using run_trail [OF v' h]
    by (simp add: template_trail_def cs_defs split: option.splits)
  from delivers_raw [OF _ _ _ this, of "0xda # ?hb"] len v show ?thesis by (simp add: at_trail_def)
qed

lemma delivers_raw32:
  assumes len: "length r < 2 ^ 32" and v: "at_value data m (0xdb # be_bytes32 (of_nat (length r)) @ r)"
  shows "\<exists>m'. delivers data m (MRaw r) (length (0xdb # be_bytes32 (of_nat (length r)) @ r)) m'"
proof -
  let ?hb = "be_bytes32 (of_nat (length r))" and ?m = "at_trail m CS_RAW_32 4"
  have v': "at_value data m (0xdb # ?hb)" using v by (auto simp: at_value_def)
  note h = header_trail(12) [OF at_valueD(1,2) [OF v'] refl]
  have "template_run data LSwitch m =
      (case again_fixed_trail_if_zero ACS_RAW_VALUE (of_nat (length r)) LRawZero ?m of
         Some (l, m2) \<Rightarrow> template_run data l m2 | None \<Rightarrow> None)"
    using run_trail [OF v' h]
    by (simp add: template_trail_def cs_defs split: option.splits)
  from delivers_raw [OF _ _ _ this, of "0xdb # ?hb"] len v show ?thesis by (simp add: at_trail_def)
qed

subsection \<open>Containers\<close>

lemma run_header_again:
  assumes ok: "machine_ok (length data) LHeaderAgain m" and d: "drop (m_p m + 1) data = bs @ rest" "bs \<noteq> []"
  defines "m1 \<equiv> m\<lparr>m_cs := CS_HEADER, m_p := m_p m + 1\<rparr>"
  shows "template_run data LHeaderAgain m = template_run data LSwitch m1" "at_value data m1 bs"
proof -
  have "m_p m + 1 < length data" using arg_cong [OF d(1), of length] d(2) by (cases bs) auto
  then show "template_run data LHeaderAgain m = template_run data LSwitch m1" "at_value data m1 bs"
    using ok d by (auto simp: template_run_step [of data LHeaderAgain] final_label_def template_step_def m1_def
        at_value_def machine_ok_def)
qed

lemma start_container_run:
  assumes st: "stack_ok (m_stack m) (m_top m)" and u: "user_ok (m_user m) (m_heap m)" and p: "m_p m < d"
    and top: "m_top m < 32"
    and f: "func = template_callback_array \<and> ct = CT_ARRAY_ITEM \<and> x = MArray [] \<or>
            func = template_callback_map \<and> ct = CT_MAP_KEY \<and> x = MMap []"
  shows "\<exists>m'. start_container func cnt ct m = Some (if cnt = 0 then LPush x else LHeaderAgain, m') \<and>
    machine_ok d (if cnt = 0 then LPush x else LHeaderAgain) m' \<and> m_p m' = m_p m \<and>
    take (m_top m) (m_stack m') = take (m_top m) (m_stack m) \<and>
    m_top m' = (if cnt = 0 then m_top m else Suc (m_top m)) \<and>
    (cnt \<noteq> 0 \<longrightarrow> s_obj (m_stack m' ! m_top m) = x \<and> s_ct (m_stack m' ! m_top m) = ct \<and>
      s_count (m_stack m' ! m_top m) = ucast cnt)"
proof -
  obtain z h' where r: "func (m_user m) cnt (m_heap m) = Some ((0, x), (m_user m)\<lparr>u_z := Some z\<rparr>, h')"
    using callback_array_ok [OF u, of cnt] callback_map_ok [OF u, of cnt] f by blast
  have top': "m_top m < length (m_stack m)" using top st by (simp add: stack_okD)
  have "step_ok d ((d - m_p m) * 100 + 67) (start_container func cnt ct m)"
    by (rule start_container_ok [OF st u p order_refl]) (use f in blast)
  then obtain l m' where s: "start_container func cnt ct m = Some (l, m')" and ok: "machine_ok d l m'"
    by (auto simp: step_ok_def)
  have "l = (if cnt = 0 then LPush x else LHeaderAgain) \<and> m_p m' = m_p m \<and>
    take (m_top m) (m_stack m') = take (m_top m) (m_stack m) \<and>
    m_top m' = (if cnt = 0 then m_top m else Suc (m_top m)) \<and>
    (cnt \<noteq> 0 \<longrightarrow> s_obj (m_stack m' ! m_top m) = x \<and> s_ct (m_stack m' ! m_top m) = ct \<and>
      s_count (m_stack m' ! m_top m) = ucast cnt)"
    using s r top top' by (auto simp: start_container_def Let_def MSGPACK_EMBED_STACK_SIZE_def split: if_splits)
  with s ok show ?thesis by blast
qed

text \<open>\<open>_push\<close> into an open container.\<close>

lemma run_push:
  assumes ok: "machine_ok (length data) (LPush x) m" and top: "m_top m = Suc i"
  shows "\<exists>l m'. template_step data (LPush x) m = Some (l, m') \<and> machine_ok (length data) l m' \<and>
    template_run data (LPush x) m = template_run data l m'"
  using template_step_ok [OF ok] by (auto simp: final_label_def template_run_step [of data "LPush x"] step_ok_def)

definition reads_at :: "byte list \<Rightarrow> nat \<Rightarrow> mobj \<Rightarrow> byte list \<Rightarrow> bool" where
  "reads_at data tp x bs \<longleftrightarrow> bs \<noteq> [] \<and>
     (\<forall>m. at_value data m bs \<longrightarrow> m_top m = tp \<longrightarrow> (\<exists>m'. delivers data m x (length bs) m'))"

lemma read_one:
  assumes ok: "machine_ok (length data) LHeaderAgain m" and top: "m_top m = Suc i"
    and r: "reads_at data (Suc i) x bs" and d: "drop (m_p m + 1) data = bs @ rest"
  shows "\<exists>m1. template_run data LHeaderAgain m = template_run data (LPush x) m1 \<and> m_p m1 = m_p m + length bs \<and>
    m_top m1 = Suc i \<and> take i (m_stack m1) = take i (m_stack m) \<and> m_stack m1 ! i = m_stack m ! i \<and>
    machine_ok (length data) (LPush x) m1 \<and> drop (m_p m1 + 1) data = rest"
proof -
  have ne: "bs \<noteq> []" using r by (simp add: reads_at_def)
  note h = run_header_again [OF ok d ne]
  let ?m = "m\<lparr>m_cs := CS_HEADER, m_p := m_p m + 1\<rparr>"
  obtain m1 where dl: "delivers data ?m x (length bs) m1"
    using r h(2) top by (auto simp: reads_at_def)
  then have st: "take (Suc i) (m_stack m1) = take (Suc i) (m_stack m)" using top by (simp add: delivers_def)
  have "take i (m_stack m1) = take i (m_stack m)"
    using arg_cong [OF st, of "take i"] by (simp add: min_def)
  moreover have "m_stack m1 ! i = m_stack m ! i"
    using arg_cong [OF st, of "\<lambda>s. s ! i"] by simp
  moreover have p: "m_p m1 = m_p m + length bs" using dl by (simp add: delivers_def)
  moreover have "drop (m_p m1 + 1) data = drop (length bs) (drop (m_p m + 1) data)"
    using p by (simp add: add.commute)
  then have "drop (m_p m1 + 1) data = rest" unfolding d by simp
  ultimately show ?thesis using dl h(1) top by (auto simp: delivers_def)
qed

lemma read_items:
  assumes "list_all2 (reads_at data (Suc i)) xs bss" "xs \<noteq> []" "length xs < 2 ^ 32"
    and "machine_ok (length data) LHeaderAgain m" "m_top m = Suc i"
    and "s_obj (m_stack m ! i) = MArray done'" "s_ct (m_stack m ! i) = CT_ARRAY_ITEM"
    and "s_count (m_stack m ! i) = of_nat (length xs)"
    and "drop (m_p m + 1) data = concat bss @ rest"
  shows "\<exists>m'. template_run data LHeaderAgain m = template_run data (LPush (MArray (done' @ xs))) m' \<and>
    m_p m' = m_p m + length (concat bss) \<and> m_top m' = i \<and> take i (m_stack m') = take i (m_stack m) \<and>
    machine_ok (length data) (LPush (MArray (done' @ xs))) m'"
  using assms
proof (induction xs arbitrary: bss m done')
  case (Cons x xs)
  then obtain bs bss' where bss: "bss = bs # bss'" and r: "reads_at data (Suc i) x bs"
    and rs: "list_all2 (reads_at data (Suc i)) xs bss'"
    by (auto simp: list_all2_Cons1)
  obtain m1 where m1: "template_run data LHeaderAgain m = template_run data (LPush x) m1" "m_p m1 = m_p m + length bs"
    "m_top m1 = Suc i" "take i (m_stack m1) = take i (m_stack m)" "m_stack m1 ! i = m_stack m ! i"
    "machine_ok (length data) (LPush x) m1" "drop (m_p m1 + 1) data = concat bss' @ rest"
    using read_one [OF Cons.prems(4,5) r, of "concat bss' @ rest"] Cons.prems(9) bss by auto
  have len: "Suc i \<le> length (m_stack m1)"
    using m1(3,6) stack_okD by (fastforce simp: machine_ok_def)
  obtain l m2 where p: "template_step data (LPush x) m1 = Some (l, m2)" "machine_ok (length data) l m2"
    "template_run data (LPush x) m1 = template_run data l m2"
    using run_push [OF m1(6,3)] by blast
  have cnt: "s_count (m_stack m ! i) - 1 = of_nat (length xs)" using Cons.prems(8) by simp
  have zero: "(of_nat (length xs) :: u64) = 0 \<longleftrightarrow> xs = []"
    using Cons.prems(3) by (auto simp: word_unat_eq_iff unat_of_nat_less)
  have one: "s_count (m_stack m ! i) = 1 \<longleftrightarrow> xs = []" using cnt zero by (metis right_minus_eq)
  let ?c = "(m_stack m1 ! i)\<lparr>s_obj := MArray (done' @ [x]), s_count := of_nat (length xs)\<rparr>"
  have step: "template_step data (LPush x) m1 =
      (if xs = [] then Some (LPush (MArray (done' @ [x])), m1\<lparr>m_stack := (m_stack m1)[i := ?c], m_top := i\<rparr>)
       else Some (LHeaderAgain, m1\<lparr>m_stack := (m_stack m1)[i := ?c]\<rparr>))"
    using Cons.prems(6,7) m1(3,5) len cnt one
    by (simp add: template_step_def template_push_def template_callback_array_item_def Let_def)
  show ?case
  proof (cases "xs = []")
    case True
    then have "l = LPush (MArray (done' @ [x]))" "m2 = m1\<lparr>m_stack := (m_stack m1)[i := ?c], m_top := i\<rparr>"
      using step p(1) by simp_all
    then show ?thesis using True m1 p bss rs by (intro exI [of _ m2]) simp
  next
    case False
    then have m2: "l = LHeaderAgain" "m2 = m1\<lparr>m_stack := (m_stack m1)[i := ?c]\<rparr>"
      using step p(1) by simp_all
    have "\<exists>m'. template_run data LHeaderAgain m2 = template_run data (LPush (MArray ((done' @ [x]) @ xs))) m' \<and>
      m_p m' = m_p m2 + length (concat bss') \<and> m_top m' = i \<and> take i (m_stack m') = take i (m_stack m2) \<and>
      machine_ok (length data) (LPush (MArray ((done' @ [x]) @ xs))) m'"
      using Cons.prems(3,7) m1 m2 p(2) len False
      by (intro Cons.IH [OF rs]) auto
    then show ?thesis using m1 m2 p(3) bss by (auto simp: add.assoc)
  qed
qed simp

lemma read_kvs:
  assumes "list_all2 (reads_at data (Suc i)) (map kv_key kvs) kss" "list_all2 (reads_at data (Suc i)) (map kv_val kvs) vss"
    and "kvs \<noteq> []" "length kvs < 2 ^ 32"
    and "machine_ok (length data) LHeaderAgain m" "m_top m = Suc i"
    and "s_obj (m_stack m ! i) = MMap done'" "s_ct (m_stack m ! i) = CT_MAP_KEY"
    and "s_count (m_stack m ! i) = of_nat (length kvs)"
    and "drop (m_p m + 1) data = concat (map2 (@) kss vss) @ rest"
  shows "\<exists>m'. template_run data LHeaderAgain m = template_run data (LPush (MMap (done' @ kvs))) m' \<and>
    m_p m' = m_p m + length (concat (map2 (@) kss vss)) \<and> m_top m' = i \<and> take i (m_stack m') = take i (m_stack m) \<and>
    machine_ok (length data) (LPush (MMap (done' @ kvs))) m'"
  using assms
proof (induction kvs arbitrary: kss vss m done')
  case (Cons kv kvs)
  then obtain ks kss' vs vss' where kss: "kss = ks # kss'" "vss = vs # vss'"
    and r: "reads_at data (Suc i) (kv_key kv) ks" "reads_at data (Suc i) (kv_val kv) vs"
    and rs: "list_all2 (reads_at data (Suc i)) (map kv_key kvs) kss'" "list_all2 (reads_at data (Suc i)) (map kv_val kvs) vss'"
    by (auto simp: list_all2_Cons1)
  let ?tl = "concat (map2 (@) kss' vss') @ rest"
  obtain m1 where m1: "template_run data LHeaderAgain m = template_run data (LPush (kv_key kv)) m1" "m_p m1 = m_p m + length ks"
    "m_top m1 = Suc i" "take i (m_stack m1) = take i (m_stack m)" "m_stack m1 ! i = m_stack m ! i"
    "machine_ok (length data) (LPush (kv_key kv)) m1" "drop (m_p m1 + 1) data = vs @ ?tl"
    using read_one [OF Cons.prems(5,6) r(1), of "vs @ ?tl"] Cons.prems(10) kss by auto
  have len1: "Suc i \<le> length (m_stack m1)"
    using m1(3,6) stack_okD by (fastforce simp: machine_ok_def)
  let ?c1 = "(m_stack m1 ! i)\<lparr>s_map_key := kv_key kv, s_ct := CT_MAP_VALUE\<rparr>"
  let ?m2 = "m1\<lparr>m_stack := (m_stack m1)[i := ?c1]\<rparr>"
  have step1: "template_step data (LPush (kv_key kv)) m1 = Some (LHeaderAgain, ?m2)"
    using Cons.prems(7,8) m1(3,5) len1 by (simp add: template_step_def template_push_def Let_def)
  then have p1: "machine_ok (length data) LHeaderAgain ?m2"
    "template_run data (LPush (kv_key kv)) m1 = template_run data LHeaderAgain ?m2"
    using run_push [OF m1(6,3)] by auto
  obtain m3 where m3: "template_run data LHeaderAgain ?m2 = template_run data (LPush (kv_val kv)) m3"
    "m_p m3 = m_p m1 + length vs" "m_top m3 = Suc i" "take i (m_stack m3) = take i (m_stack m)" "m_stack m3 ! i = ?c1"
    "machine_ok (length data) (LPush (kv_val kv)) m3" "drop (m_p m3 + 1) data = ?tl"
    using read_one [OF p1(1) _ r(2), of ?tl] m1 len1 by auto
  have len3: "Suc i \<le> length (m_stack m3)"
    using m3(3,6) stack_okD by (fastforce simp: machine_ok_def)
  have cnt: "s_count (m_stack m ! i) - 1 = of_nat (length kvs)" using Cons.prems(9) by simp
  have "(of_nat (length kvs) :: u64) = 0 \<longleftrightarrow> kvs = []"
    using Cons.prems(4) by (auto simp: word_unat_eq_iff unat_of_nat_less)
  then have one: "s_count (m_stack m ! i) = 1 \<longleftrightarrow> kvs = []" using cnt by (metis right_minus_eq)
  let ?c = "(m_stack m3 ! i)\<lparr>s_obj := MMap (done' @ [kv]), s_count := of_nat (length kvs)\<rparr>"
  have kv: "KV (kv_key kv) (kv_val kv) = kv" by simp
  have step: "template_step data (LPush (kv_val kv)) m3 =
      (if kvs = [] then Some (LPush (MMap (done' @ [kv])), m3\<lparr>m_stack := (m_stack m3)[i := ?c], m_top := i\<rparr>)
       else Some (LHeaderAgain, m3\<lparr>m_stack := (m_stack m3)[i := ?c\<lparr>s_ct := CT_MAP_KEY\<rparr>]\<rparr>))"
    using Cons.prems(7,8) m1(5) m3(3,5) len3 cnt one
    by (simp add: template_step_def template_push_def template_callback_map_item_def Let_def)
  obtain l m4 where p: "template_step data (LPush (kv_val kv)) m3 = Some (l, m4)" "machine_ok (length data) l m4"
    "template_run data (LPush (kv_val kv)) m3 = template_run data l m4"
    using run_push [OF m3(6,3)] by blast
  show ?case
  proof (cases "kvs = []")
    case True
    then have "l = LPush (MMap (done' @ [kv]))" "m4 = m3\<lparr>m_stack := (m_stack m3)[i := ?c], m_top := i\<rparr>"
      using step p(1) by simp_all
    then show ?thesis using True m1 m3 p p1(2) kss rs by (intro exI [of _ m4]) simp
  next
    case False
    then have m4: "l = LHeaderAgain" "m4 = m3\<lparr>m_stack := (m_stack m3)[i := ?c\<lparr>s_ct := CT_MAP_KEY\<rparr>]\<rparr>"
      using step p(1) by simp_all
    have "\<exists>m'. template_run data LHeaderAgain m4 = template_run data (LPush (MMap ((done' @ [kv]) @ kvs))) m' \<and>
      m_p m' = m_p m4 + length (concat (map2 (@) kss' vss')) \<and> m_top m' = i \<and> take i (m_stack m') = take i (m_stack m4) \<and>
      machine_ok (length data) (LPush (MMap ((done' @ [kv]) @ kvs))) m'"
      using Cons.prems(4) m3 m4 p(2) len3 False
      by (intro Cons.IH [OF rs]) auto
    then show ?thesis using m1 m3 m4 p(3) p1(2) kss by (auto simp: add.assoc)
  qed
qed simp

lemma mp_format_not_Nil: "mp_format x bs \<Longrightarrow> bs \<noteq> []"
  by (cases rule: mp_format.cases) auto

text \<open>A container header: \<open>m1\<close> is the machine at the last byte of the header.\<close>

definition opens :: "byte list \<Rightarrow> machine \<Rightarrow> nat \<Rightarrow> u32 \<Rightarrow>
    (unpack_user \<Rightarrow> u32 \<Rightarrow> heap \<Rightarrow> ((int \<times> mobj) \<times> unpack_user \<times> heap) option) \<Rightarrow> container_type \<Rightarrow> bool" where
  "opens data m k cnt func ct \<longleftrightarrow>
     (\<exists>m1. template_run data LSwitch m =
        (case start_container func cnt ct m1 of Some (l, m2) \<Rightarrow> template_run data l m2 | None \<Rightarrow> None) \<and>
      m_p m1 + 1 = m_p m + k \<and> m_top m1 = m_top m \<and> m_stack m1 = m_stack m \<and>
      m_user m1 = m_user m \<and> m_heap m1 = m_heap m)"

lemma opens_trail:
  assumes v: "at_value data m (b # bs)" and h: "template_header data m = again_fixed_trail cs t m"
    and t: "unat t = length bs" "bs \<noteq> []"
    and r: "load_n data (at_trail m cs t) (length bs) = Some bs \<Longrightarrow>
      template_trail data (at_trail m cs t) = start_container func cnt ct (at_trail m cs t)"
  shows "opens data m (length (b # bs)) cnt func ct"
  using run_trail(1) [OF v h t] r [OF run_trail(2) [OF v h t]] t(1)
  by (auto simp: opens_def at_trail_def split: option.splits intro!: exI [of _ "at_trail m cs t"])

lemma at_value_prefix: "at_value data m (xs @ ys) \<Longrightarrow> at_value data m xs"
  by (auto simp: at_value_def)

lemma opens_fix:
  assumes n: "n < 16"
  shows "at_value data m ((0x90 OR of_nat n) # bs) \<Longrightarrow> opens data m 1 (of_nat n) template_callback_array CT_ARRAY_ITEM"
    "at_value data m ((0x80 OR of_nat n) # bs) \<Longrightarrow> opens data m 1 (of_nat n) template_callback_map CT_MAP_KEY"
proof -
  note b = fix_bytes [OF n]
  have nb: "\<not> 0xa0 \<le> (0x90 OR of_nat n :: byte)" "\<not> 0xc0 \<le> (0x90 OR of_nat n :: byte)"
    "\<not> 0xe0 \<le> (0x90 OR of_nat n :: byte)" "\<not> (0x90 OR of_nat n :: byte) \<le> 0x7f"
    "\<not> 0x90 \<le> (0x80 OR of_nat n :: byte)" "\<not> 0xa0 \<le> (0x80 OR of_nat n :: byte)"
    "\<not> 0xc0 \<le> (0x80 OR of_nat n :: byte)" "\<not> 0xe0 \<le> (0x80 OR of_nat n :: byte)"
    "\<not> (0x80 OR of_nat n :: byte) \<le> 0x7f"
    using b by (simp_all add: word_le_nat_alt)
  have run: "template_run data LSwitch m =
      (case template_header data m of Some (l, m2) \<Rightarrow> template_run data l m2 | None \<Rightarrow> None)"
    if "m_cs m = CS_HEADER"
    using that by (simp add: template_run_step [of data LSwitch] final_label_def template_step_def split: option.splits)
  show "opens data m 1 (of_nat n) template_callback_array CT_ARRAY_ITEM" if v: "at_value data m ((0x90 OR of_nat n) # bs)"
  proof -
    have "template_header data m = start_container template_callback_array (of_nat n) CT_ARRAY_ITEM m"
      using b nb at_valueD(1,2) [OF v] by (simp add: template_header_def)
    with run [OF at_valueD(7) [OF v]] show ?thesis by (auto simp: opens_def intro!: exI [of _ m])
  qed
  show "opens data m 1 (of_nat n) template_callback_map CT_MAP_KEY" if v: "at_value data m ((0x80 OR of_nat n) # bs)"
  proof -
    have "template_header data m = start_container template_callback_map (of_nat n) CT_MAP_KEY m"
      using b nb at_valueD(1,2) [OF v] by (simp add: template_header_def)
    with run [OF at_valueD(7) [OF v]] show ?thesis by (auto simp: opens_def intro!: exI [of _ m])
  qed
qed

lemma opens_wide:
  "at_value data m ((0xdc # be_bytes16 v) @ r) \<Longrightarrow> opens data m 3 (ucast v) template_callback_array CT_ARRAY_ITEM"
  "at_value data m ((0xdd # be_bytes32 w) @ r) \<Longrightarrow> opens data m 5 w template_callback_array CT_ARRAY_ITEM"
  "at_value data m ((0xde # be_bytes16 v) @ r) \<Longrightarrow> opens data m 3 (ucast v) template_callback_map CT_MAP_KEY"
  "at_value data m ((0xdf # be_bytes32 w) @ r) \<Longrightarrow> opens data m 5 w template_callback_map CT_MAP_KEY"
proof -
  show "opens data m 3 (ucast v) template_callback_array CT_ARRAY_ITEM" if "at_value data m ((0xdc # be_bytes16 v) @ r)"
  proof -
    note v = at_value_prefix [OF that]
    have "opens data m (length (0xdc # be_bytes16 v)) (ucast v) template_callback_array CT_ARRAY_ITEM"
      by (rule opens_trail [OF v header_trail(13) [OF at_valueD(1,2) [OF v] refl]])
        (simp_all add: template_trail_def cs_defs)
    then show ?thesis by simp
  qed
  show "opens data m 5 w template_callback_array CT_ARRAY_ITEM" if "at_value data m ((0xdd # be_bytes32 w) @ r)"
  proof -
    note v = at_value_prefix [OF that]
    have "opens data m (length (0xdd # be_bytes32 w)) w template_callback_array CT_ARRAY_ITEM"
      by (rule opens_trail [OF v header_trail(14) [OF at_valueD(1,2) [OF v] refl]])
        (simp_all add: template_trail_def cs_defs)
    then show ?thesis by simp
  qed
  show "opens data m 3 (ucast v) template_callback_map CT_MAP_KEY" if "at_value data m ((0xde # be_bytes16 v) @ r)"
  proof -
    note v = at_value_prefix [OF that]
    have "opens data m (length (0xde # be_bytes16 v)) (ucast v) template_callback_map CT_MAP_KEY"
      by (rule opens_trail [OF v header_trail(15) [OF at_valueD(1,2) [OF v] refl]])
        (simp_all add: template_trail_def cs_defs)
    then show ?thesis by simp
  qed
  show "opens data m 5 w template_callback_map CT_MAP_KEY" if "at_value data m ((0xdf # be_bytes32 w) @ r)"
  proof -
    note v = at_value_prefix [OF that]
    have "opens data m (length (0xdf # be_bytes32 w)) w template_callback_map CT_MAP_KEY"
      by (rule opens_trail [OF v header_trail(16) [OF at_valueD(1,2) [OF v] refl]])
        (simp_all add: template_trail_def cs_defs)
    then show ?thesis by simp
  qed
qed

lemma delivers_array:
  assumes v: "at_value data m (hb @ concat bss)" and hb: "hb \<noteq> []" and top: "m_top m < 32"
    and o: "opens data m (length hb) (of_nat (length xs)) template_callback_array CT_ARRAY_ITEM"
    and len: "length xs < 2 ^ 32" and items: "list_all2 (reads_at data (Suc (m_top m))) xs bss"
  shows "\<exists>m'. delivers data m (MArray xs) (length (hb @ concat bss)) m'"
proof -
  let ?n = "of_nat (length xs) :: u32"
  have n: "?n = 0 \<longleftrightarrow> xs = []" "(ucast ?n :: u64) = of_nat (length xs)"
    using len by (auto simp: word_unat_eq_iff unat_of_nat_less unat_ucast_up_id)
  obtain m1 where run: "template_run data LSwitch m =
        (case start_container template_callback_array ?n CT_ARRAY_ITEM m1 of Some (l, m2) \<Rightarrow> template_run data l m2 | None \<Rightarrow> None)"
    and m1: "m_p m1 + 1 = m_p m + length hb" "m_top m1 = m_top m" "m_stack m1 = m_stack m"
      "m_user m1 = m_user m" "m_heap m1 = m_heap m"
    using o by (auto simp: opens_def)
  have ok: "stack_ok (m_stack m1) (m_top m1)" "user_ok (m_user m1) (m_heap m1)"
    using v m1 by (simp_all add: at_value_def machine_ok_def)
  have p: "m_p m1 < length data" using at_value_rest(2) [OF v hb] m1(1) by linarith
  obtain rest where d: "drop (m_p m1 + 1) data = concat bss @ rest"
    using at_value_rest(1) [OF v hb] m1(1) by auto
  obtain m2 where sc: "start_container template_callback_array ?n CT_ARRAY_ITEM m1 =
      Some (if ?n = 0 then LPush (MArray []) else LHeaderAgain, m2)"
    and m2: "machine_ok (length data) (if ?n = 0 then LPush (MArray []) else LHeaderAgain) m2" "m_p m2 = m_p m1"
      "take (m_top m1) (m_stack m2) = take (m_top m1) (m_stack m1)"
      "m_top m2 = (if ?n = 0 then m_top m1 else Suc (m_top m1))"
      "?n \<noteq> 0 \<Longrightarrow> s_obj (m_stack m2 ! m_top m1) = MArray [] \<and> s_ct (m_stack m2 ! m_top m1) = CT_ARRAY_ITEM \<and>
        s_count (m_stack m2 ! m_top m1) = ucast ?n"
    using start_container_run [OF ok p, of template_callback_array CT_ARRAY_ITEM "MArray []" ?n] top m1(2) by auto
  show ?thesis
  proof (cases "xs = []")
    case True
    then have "bss = []" using items by simp
    with True show ?thesis using run sc m1 m2 n by (intro exI [of _ m2]) (simp add: delivers_def)
  next
    case False
    then have nz: "?n \<noteq> 0" using n by simp
    have fr: "s_obj (m_stack m2 ! m_top m) = MArray []" "s_ct (m_stack m2 ! m_top m) = CT_ARRAY_ITEM"
      "s_count (m_stack m2 ! m_top m) = of_nat (length xs)"
      using m2(5) [OF nz] m1(2) n(2) by simp_all
    have "machine_ok (length data) LHeaderAgain m2" "m_top m2 = Suc (m_top m)" "drop (m_p m2 + 1) data = concat bss @ rest"
      using m1 m2(1,2,4) nz d by simp_all
    from read_items [OF items False len this(1,2) fr this(3)]
    show ?thesis using run sc m1 m2(2,3) nz by (auto simp: delivers_def)
  qed
qed

lemma delivers_map:
  fixes kss vss
  defines "body \<equiv> concat (map2 (@) kss vss)"
  assumes v: "at_value data m (hb @ body)" and hb: "hb \<noteq> []" and top: "m_top m < 32"
    and o: "opens data m (length hb) (of_nat (length kvs)) template_callback_map CT_MAP_KEY"
    and len: "length kvs < 2 ^ 32" and keys: "list_all2 (reads_at data (Suc (m_top m))) (map kv_key kvs) kss"
    and vals: "list_all2 (reads_at data (Suc (m_top m))) (map kv_val kvs) vss"
  shows "\<exists>m'. delivers data m (MMap kvs) (length (hb @ body)) m'"
proof -
  let ?n = "of_nat (length kvs) :: u32"
  have n: "?n = 0 \<longleftrightarrow> kvs = []" "(ucast ?n :: u64) = of_nat (length kvs)"
    using len by (auto simp: word_unat_eq_iff unat_of_nat_less unat_ucast_up_id)
  obtain m1 where run: "template_run data LSwitch m =
        (case start_container template_callback_map ?n CT_MAP_KEY m1 of Some (l, m2) \<Rightarrow> template_run data l m2 | None \<Rightarrow> None)"
    and m1: "m_p m1 + 1 = m_p m + length hb" "m_top m1 = m_top m" "m_stack m1 = m_stack m"
      "m_user m1 = m_user m" "m_heap m1 = m_heap m"
    using o by (auto simp: opens_def)
  have ok: "stack_ok (m_stack m1) (m_top m1)" "user_ok (m_user m1) (m_heap m1)"
    using v m1 by (simp_all add: at_value_def machine_ok_def)
  have p: "m_p m1 < length data" using at_value_rest(2) [OF v hb] m1(1) by linarith
  obtain rest where d: "drop (m_p m1 + 1) data = body @ rest"
    using at_value_rest(1) [OF v hb] m1(1) by auto
  obtain m2 where sc: "start_container template_callback_map ?n CT_MAP_KEY m1 =
      Some (if ?n = 0 then LPush (MMap []) else LHeaderAgain, m2)"
    and m2: "machine_ok (length data) (if ?n = 0 then LPush (MMap []) else LHeaderAgain) m2" "m_p m2 = m_p m1"
      "take (m_top m1) (m_stack m2) = take (m_top m1) (m_stack m1)"
      "m_top m2 = (if ?n = 0 then m_top m1 else Suc (m_top m1))"
      "?n \<noteq> 0 \<Longrightarrow> s_obj (m_stack m2 ! m_top m1) = MMap [] \<and> s_ct (m_stack m2 ! m_top m1) = CT_MAP_KEY \<and>
        s_count (m_stack m2 ! m_top m1) = ucast ?n"
    using start_container_run [OF ok p, of template_callback_map CT_MAP_KEY "MMap []" ?n] top m1(2) by auto
  show ?thesis
  proof (cases "kvs = []")
    case True
    then have "body = []" using keys by (simp add: body_def)
    with True show ?thesis using run sc m1 m2 n by (intro exI [of _ m2]) (simp add: delivers_def)
  next
    case False
    then have nz: "?n \<noteq> 0" using n by simp
    have fr: "s_obj (m_stack m2 ! m_top m) = MMap []" "s_ct (m_stack m2 ! m_top m) = CT_MAP_KEY"
      "s_count (m_stack m2 ! m_top m) = of_nat (length kvs)"
      using m2(5) [OF nz] m1(2) n(2) by simp_all
    have "machine_ok (length data) LHeaderAgain m2" "m_top m2 = Suc (m_top m)" "drop (m_p m2 + 1) data = concat (map2 (@) kss vss) @ rest"
      using m1 m2(1,2,4) nz d by (simp_all add: body_def)
    from read_kvs [OF keys vals False len this(1,2) fr this(3)]
    show ?thesis using run sc m1 m2(2,3) nz by (auto simp: delivers_def body_def)
  qed
qed

lemma depth_items: "x \<in> set xs \<Longrightarrow> Suc (obj_depth x) \<le> obj_depth (MArray xs)"
  by (induction xs) auto

lemma depth_kvs: "kv \<in> set kvs \<Longrightarrow> Suc (obj_depth (kv_key kv)) \<le> obj_depth (MMap kvs) \<and> Suc (obj_depth (kv_val kv)) \<le> obj_depth (MMap kvs)"
  by (induction kvs) auto

lemma reads_items:
  assumes "list_all2 (\<lambda>x bs. mp_format x bs \<and> (\<forall>tp. obj_depth x + tp \<le> 32 \<longrightarrow> reads_at data tp x bs)) xs bss"
    and "\<And>x. x \<in> set xs \<Longrightarrow> obj_depth x + tp \<le> 32"
  shows "list_all2 (reads_at data tp) xs bss"
  using assms by (auto simp: list_all2_conv_all_nth)

lemma reads_simple:
  assumes "\<And>m. m_p m < length data \<Longrightarrow> data ! m_p m = b \<Longrightarrow> template_header data m = Some (LPush x, m)"
  shows "reads_at data tp x [b]"
  using assms by (auto simp: reads_at_def dest: at_valueD intro!: exI delivers_simple [simplified])

lemma reads_trail:
  assumes "\<And>m. m_p m < length data \<Longrightarrow> data ! m_p m = b \<Longrightarrow> template_header data m = again_fixed_trail cs t m"
    and "unat t = length bs" "bs \<noteq> []"
    and "\<And>m. load_n data (at_trail m cs t) (length bs) = Some bs \<Longrightarrow>
      template_trail data (at_trail m cs t) = Some (LPush x, at_trail m cs t)"
  shows "reads_at data tp x (b # bs)"
  unfolding reads_at_def
proof (intro conjI allI impI)
  fix m assume v: "at_value data m (b # bs)"
  show "\<exists>m'. delivers data m x (length (b # bs)) m'"
    by (rule exI, rule delivers_trail [OF v assms(1) [OF at_valueD(1,2) [OF v]] assms(2-4)])
qed simp

lemma reads_array:
  assumes top: "obj_depth (MArray xs) + tp \<le> 32" and hb: "hb \<noteq> []" and len: "length xs < 2 ^ 32"
    and o: "\<And>m. at_value data m (hb @ concat bss) \<Longrightarrow> opens data m (length hb) (of_nat (length xs)) template_callback_array CT_ARRAY_ITEM"
    and items: "list_all2 (\<lambda>x bs. mp_format x bs \<and> (\<forall>tp. obj_depth x + tp \<le> 32 \<longrightarrow> reads_at data tp x bs)) xs bss"
  shows "reads_at data tp (MArray xs) (hb @ concat bss)"
proof -
  have tp: "tp < 32" using top by simp
  have "list_all2 (reads_at data (Suc tp)) xs bss"
    using top by (intro reads_items [OF items]) (auto dest!: depth_items)
  then show ?thesis using delivers_array [OF _ hb _ o len] hb tp by (auto simp: reads_at_def)
qed

lemma reads_map:
  assumes top: "obj_depth (MMap kvs) + tp \<le> 32" and hb: "hb \<noteq> []" and len: "length kvs < 2 ^ 32"
    and o: "\<And>m. at_value data m (hb @ concat (map2 (@) kss vss)) \<Longrightarrow> opens data m (length hb) (of_nat (length kvs)) template_callback_map CT_MAP_KEY"
    and keys: "list_all2 (\<lambda>x bs. mp_format x bs \<and> (\<forall>tp. obj_depth x + tp \<le> 32 \<longrightarrow> reads_at data tp x bs)) (map kv_key kvs) kss"
    and vals: "list_all2 (\<lambda>x bs. mp_format x bs \<and> (\<forall>tp. obj_depth x + tp \<le> 32 \<longrightarrow> reads_at data tp x bs)) (map kv_val kvs) vss"
  shows "reads_at data tp (MMap kvs) (hb @ concat (map2 (@) kss vss))"
proof -
  have tp: "tp < 32" using top by simp
  have "list_all2 (reads_at data (Suc tp)) (map kv_key kvs) kss" "list_all2 (reads_at data (Suc tp)) (map kv_val kvs) vss"
    using top by (intro reads_items [OF keys] reads_items [OF vals]; auto dest!: depth_kvs)+
  then show ?thesis using delivers_map [OF _ hb _ o len] hb tp by (auto simp: reads_at_def)
qed

text \<open>Every byte string of the format is read as its object, whatever is on the stack below.\<close>

lemma format_read: "mp_format x bs \<Longrightarrow> obj_depth x + tp \<le> 32 \<Longrightarrow> reads_at data tp x bs"
proof (induction arbitrary: tp rule: mp_format.induct)
  case nil
  show ?case by (rule reads_simple) (erule (1) header_fixed(1), rule refl)
next
  case false
  show ?case by (rule reads_simple) (erule (1) header_fixed(2), rule refl)
next
  case true
  show ?case by (rule reads_simple) (erule (1) header_fixed(3), rule refl)
next
  case (pos_fixnum b)
  show ?case by (rule reads_simple) (erule (1) header_fixed(4), rule pos_fixnum)
next
  case (neg_fixnum b)
  show ?case by (rule reads_simple) (erule (1) header_fixed(5), rule neg_fixnum)
next
  case (uint8 b)
  show ?case by (rule reads_trail, erule (1) header_trail(3), rule refl) (simp_all add: trail_leaf)
next
  case (uint16 v)
  show ?case by (rule reads_trail, erule (1) header_trail(4), rule refl) (simp_all add: trail_leaf)
next
  case (uint32 w)
  show ?case by (rule reads_trail, erule (1) header_trail(5), rule refl) (simp_all add: trail_leaf)
next
  case (uint64 d)
  show ?case by (rule reads_trail, erule (1) header_trail(6), rule refl) (simp_all add: trail_leaf)
next
  case (int8 b)
  show ?case by (rule reads_trail, erule (1) header_trail(7), rule refl) (simp_all add: trail_leaf)
next
  case (int16 v)
  show ?case by (rule reads_trail, erule (1) header_trail(8), rule refl) (simp_all add: trail_leaf)
next
  case (int32 w)
  show ?case by (rule reads_trail, erule (1) header_trail(9), rule refl) (simp_all add: trail_leaf)
next
  case (int64 d)
  show ?case by (rule reads_trail, erule (1) header_trail(10), rule refl) (simp_all add: trail_leaf)
next
  case (float f)
  show ?case by (rule reads_trail, erule (1) header_trail(1), rule refl) (simp_all add: trail_leaf)
next
  case (double d)
  show ?case by (rule reads_trail, erule (1) header_trail(2), rule refl) (simp_all add: trail_leaf)
next
  case (fix_raw r)
  then show ?case using delivers_fix_raw by (auto simp: reads_at_def)
next
  case (raw16 r)
  then show ?case using delivers_raw16 by (auto simp: reads_at_def)
next
  case (raw32 r)
  then show ?case using delivers_raw32 by (auto simp: reads_at_def)
next
  case (fix_array xs bss)
  have "reads_at data tp (MArray xs) ([0x90 OR of_nat (length xs)] @ concat bss)"
    using fix_array.hyps by (intro reads_array [OF fix_array.prems _ _ _ fix_array.IH]) (auto intro: opens_fix [unfolded One_nat_def])
  then show ?case by simp
next
  case (array16 xs bss)
  have "(ucast (of_nat (length xs) :: u16) :: u32) = of_nat (length xs)"
    using array16.hyps by (intro ucast_of_nat_up) simp_all
  then have "reads_at data tp (MArray xs) ((0xdc # be_bytes16 (of_nat (length xs))) @ concat bss)"
    using array16.hyps by (intro reads_array [OF array16.prems _ _ _ array16.IH]) (auto dest: opens_wide(1) [simplified])
  then show ?case by simp
next
  case (array32 xs bss)
  have "reads_at data tp (MArray xs) ((0xdd # be_bytes32 (of_nat (length xs))) @ concat bss)"
    using array32.hyps by (intro reads_array [OF array32.prems _ _ _ array32.IH]) (auto dest: opens_wide(2) [simplified])
  then show ?case by simp
next
  case (fix_map kvs kss vss)
  have "reads_at data tp (MMap kvs) ([0x80 OR of_nat (length kvs)] @ concat (map2 (@) kss vss))"
    using fix_map.hyps by (intro reads_map [OF fix_map.prems _ _ _ fix_map.IH]) (auto intro: opens_fix [unfolded One_nat_def])
  then show ?case by simp
next
  case (map16 kvs kss vss)
  have "(ucast (of_nat (length kvs) :: u16) :: u32) = of_nat (length kvs)"
    using map16.hyps by (intro ucast_of_nat_up) simp_all
  then have "reads_at data tp (MMap kvs) ((0xde # be_bytes16 (of_nat (length kvs))) @ concat (map2 (@) kss vss))"
    using map16.hyps by (intro reads_map [OF map16.prems _ _ _ map16.IH]) (auto dest: opens_wide(3) [simplified])
  then show ?case by simp
next
  case (map32 kvs kss vss)
  have "reads_at data tp (MMap kvs) ((0xdf # be_bytes32 (of_nat (length kvs))) @ concat (map2 (@) kss vss))"
    using map32.hyps by (intro reads_map [OF map32.prems _ _ _ map32.IH]) (auto dest: opens_wide(4) [simplified])
  then show ?case by simp
qed

subsection \<open>One object\<close>

lemma execute_format:
  assumes ok: "ctx_ok ctx h" and fresh: "c_top ctx = 0" "c_cs ctx = CS_HEADER"
    and f: "mp_format x bs" and depth: "obj_depth x \<le> 32"
  shows "\<exists>ctx' h'. template_execute ctx (pre @ bs @ rest) (length pre) h = Some (1, ctx', length pre + length bs, h') \<and>
    template_data ctx' = x"
proof -
  let ?data = "pre @ bs @ rest" and ?m = "start_machine ctx (length pre) h"
  have ne: "bs \<noteq> []" using f by (rule mp_format_not_Nil)
  have off: "length pre \<le> length ?data" by simp
  have lab: "start_label ?data (length pre) = LSwitch" using ne by (simp add: start_label_def)
  have "at_value ?data ?m bs"
    using start_machine_ok [OF ok off] lab fresh by (simp add: at_value_def start_machine_def)
  then obtain m' where d: "delivers ?data ?m x (length bs) m'"
    using format_read [OF f, of 0 ?data] depth fresh by (auto simp: reads_at_def start_machine_def)
  have st: "length (m_stack m') = 32" and top: "m_top m' = 0" and p: "m_p m' + 1 = length pre + length bs"
    using d stack_okD fresh by (auto simp: delivers_def machine_ok_def start_machine_def)
  have "template_run ?data (LPush x) m' = Some (LFinish x, m')"
    using top by (simp add: template_run_step final_label_def template_step_def template_push_def)
  then have "template_run ?data LSwitch ?m = Some (LFinish x, m')" using d by (simp add: delivers_def)
  then show ?thesis using lab p st
    by (simp add: template_execute_run finish_run_def template_end_def saved_context_def template_data_def Let_def)
qed

subsection \<open>The depth limit\<close>

fun nest :: "nat \<Rightarrow> mobj" where
  "nest 0 = MNil"
| "nest (Suc n) = MArray [nest n]"

lemma nest_ok: "obj_ok (nest n)" "obj_depth (nest n) = n" "mp_encode (nest n) = replicate n 0x91 @ [0xc0]"
  by (induction n) (simp_all add: array_header_def)

lemma header_nest:
  assumes "m_p m < length data" "data ! m_p m = 0x91"
  shows "template_header data m = start_container template_callback_array 1 CT_ARRAY_ITEM m"
  using assms by (simp add: template_header_def)

lemma run_too_deep:
  assumes "machine_ok (length data) LSwitch m" "m_cs m = CS_HEADER" "m_top m + k = 32"
    and "drop (m_p m) data = replicate (Suc k) 0x91 @ rest"
  shows "\<exists>m'. template_run data LSwitch m = Some (LFailed, m')"
  using assms
proof (induction k arbitrary: m)
  case 0
  have v: "at_value data m [0x91]" using 0 by (simp add: at_value_def)
  have "template_header data m = Some (LFailed, m)"
    using header_nest [OF at_valueD(1,2) [OF v]] 0(3) by (simp add: start_container_def MSGPACK_EMBED_STACK_SIZE_def)
  then show ?case
    using 0(2) by (simp add: template_run_step final_label_def template_step_def)
next
  case (Suc k)
  have v: "at_value data m (0x91 # replicate (Suc k) 0x91)" using Suc.prems by (simp add: at_value_def)
  note d = at_valueD [OF v]
  obtain m' where sc: "start_container template_callback_array 1 CT_ARRAY_ITEM m = Some (LHeaderAgain, m')"
    and m': "machine_ok (length data) LHeaderAgain m'" "m_p m' = m_p m" "m_top m' = Suc (m_top m)"
    using start_container_run [OF d(5,6,1), of template_callback_array CT_ARRAY_ITEM "MArray []" 1] Suc.prems(3) by auto
  have run: "template_run data LSwitch m = template_run data LHeaderAgain m'"
    using header_nest [OF d(1,2)] sc d(7) by (simp add: template_run_step [of data LSwitch] final_label_def template_step_def)
  have "drop (m_p m' + 1) data = drop 1 (drop (m_p m) data)" using m'(2) by simp
  also have "\<dots> = replicate (Suc k) 0x91 @ rest" unfolding Suc.prems(4) by simp
  finally have rest: "drop (m_p m' + 1) data = replicate (Suc k) 0x91 @ rest" .
  let ?m1 = "m'\<lparr>m_cs := CS_HEADER, m_p := m_p m' + 1\<rparr>"
  note h = run_header_again [OF m'(1) rest]
  have "\<exists>m''. template_run data LSwitch ?m1 = Some (LFailed, m'')"
    using h(2) m'(3) Suc.prems(3) rest by (intro Suc.IH) (auto simp: at_value_def)
  with run h(1) show ?case by simp
qed

subsection \<open>Properties\<close>

text \<open>
  C4: \<open>msgpack_unpack\<close> decodes the whole format. Whichever of the admissible byte strings of an
  object stands at the offset, short or long form, with whatever bytes before and after it, the
  call delivers exactly that object, moves the offset past exactly those bytes and tells apart
  whether bytes are left. The object nests at most 32 containers, the size of the embedded stack,
  and memory does not run out.
\<close>

theorem msgpack_unpack_decodes_format:
  assumes "length (c_stack ctx0) = 32" "no_oom h" "zone_ok h z bs'"
    and "mp_format x bs" "obj_depth x \<le> 32"
  shows "\<exists>z' h'. msgpack_unpack ctx0 (pre @ bs @ rest) (Some (length pre)) (Some z) result h =
    Some (if rest = [] then MSGPACK_UNPACK_SUCCESS else MSGPACK_UNPACK_EXTRA_BYTES,
          Some (length pre + length bs), x, z', h')"
proof -
  let ?ctx = "(template_init ctx0)\<lparr>c_user := \<lparr>u_z = Some z, u_referenced = False\<rparr>\<rparr>"
  have ok: "ctx_ok ?ctx h" by (rule init_ctx_ok [OF assms(1-3)])
  have "c_top ?ctx = 0" "c_cs ?ctx = CS_HEADER" by (simp_all add: template_init_def)
  from execute_format [OF ok this assms(4,5), of pre rest] mp_format_not_Nil [OF assms(4)] show ?thesis
    by (auto simp: msgpack_unpack_def Let_def)
qed

lemma msgpack_unpack_decodes_format_witness:
  "\<exists>z h z' h'. msgpack_zone_init 8192 (init_heap (\<lambda>_ _. False)) = Some (Some z, h) \<and>
     msgpack_unpack blank_context ([7] @ [0xdc, 0, 1, 0xd1, 0xff, 0xfe] @ [9]) (Some 1) (Some z) MNil h =
       Some (1, Some 7, MArray [MNegInt (- 2)], z', h')"
proof -
  obtain z h where z: "msgpack_zone_init 8192 (init_heap (\<lambda>_ _. False)) = Some (Some z, h)"
    "zone_inv h z [0] []" "no_oom h" by (rule fresh_zone)
  have i: "mp_format (MNegInt (- 2)) [0xd1, 0xff, 0xfe]"
  proof -
    have "[0xd1, 0xff, 0xfe] = 0xd1 # be_bytes16 0xfffe" "signed_obj (scast (0xfffe :: u16)) = MNegInt (- 2)"
      by (simp_all add: be_bytes16_def signed_obj_def)
    then show ?thesis by (metis mp_format.int16)
  qed
  have "mp_format (MArray [MNegInt (- 2)]) [0xdc, 0, 1, 0xd1, 0xff, 0xfe]"
    using mp_format.array16 [of "[MNegInt (- 2)]" "[[0xd1, 0xff, 0xfe]]"] i by (simp add: be_bytes16_def)
  from msgpack_unpack_decodes_format [OF _ z(3) _ this, of blank_context z "[0]" "[7]" "[9]" MNil] z
  show ?thesis by (auto simp: blank_context_def zone_inv_def unpack_return_defs)
qed



text \<open>
  C29: the serializer and the deserializer disagree on depth. An object of more than 32 nested
  arrays is packed without an error, and the bytes are a parse error to \<open>msgpack_unpack\<close>.
\<close>

theorem unpack_rejects_deep_nesting:
  assumes "length (c_stack ctx0) = 32" "no_oom h" "zone_ok h z bs'" and "32 < n"
  shows "\<exists>bs z' h'. msgpack_pack_object list_write (nest n) [] = Some (0, bs) \<and>
    msgpack_unpack ctx0 bs (Some 0) (Some z) result h = Some (MSGPACK_UNPACK_PARSE_ERROR, Some 0, result, z', h')"
proof -
  let ?ctx = "(template_init ctx0)\<lparr>c_user := \<lparr>u_z = Some z, u_referenced = False\<rparr>\<rparr>"
  let ?data = "mp_encode (nest n)" and ?m = "start_machine ?ctx 0 h"
  have ok: "ctx_ok ?ctx h" by (rule init_ctx_ok [OF assms(1-3)])
  define k where "k = n - 33"
  have n: "n = Suc 32 + k" using assms(4) by (simp add: k_def)
  have data: "?data = replicate (Suc 32) 0x91 @ replicate k 0x91 @ [0xc0]"
    unfolding nest_ok n replicate_add by simp
  have lab: "start_label ?data 0 = LSwitch" by (simp add: start_label_def data)
  have mok: "machine_ok (length ?data) LSwitch ?m"
    using start_machine_ok [OF ok, of 0 ?data] lab by simp
  obtain m' where "template_run ?data LSwitch ?m = Some (LFailed, m')"
    using run_too_deep [OF mok, of 32 "replicate k 0x91 @ [0xc0]"] data
    by (auto simp: start_machine_def template_init_def)
  moreover have "?data \<noteq> []" by (simp add: data)
  ultimately have "\<exists>z' h'. msgpack_unpack ctx0 ?data (Some 0) (Some z) result h =
      Some (MSGPACK_UNPACK_PARSE_ERROR, Some 0, result, z', h')"
    by (simp add: msgpack_unpack_def template_execute_run lab finish_run_def template_end_def)
  then show ?thesis using pack_object_list [OF nest_ok(1), of n "[]"] by auto
qed

lemma unpack_rejects_deep_nesting_witness:
  "\<exists>z h bs z' h'. msgpack_zone_init 8192 (init_heap (\<lambda>_ _. False)) = Some (Some z, h) \<and>
     msgpack_pack_object list_write (nest 33) [] = Some (0, bs) \<and>
     msgpack_unpack blank_context bs (Some 0) (Some z) MNil h = Some (-1, Some 0, MNil, z', h')"
proof -
  obtain z h where z: "msgpack_zone_init 8192 (init_heap (\<lambda>_ _. False)) = Some (Some z, h)"
    "zone_inv h z [0] []" "no_oom h" by (rule fresh_zone)
  from unpack_rejects_deep_nesting [OF _ z(3), of blank_context z "[0]" 33 MNil] z
  show ?thesis by (auto simp: blank_context_def zone_inv_def unpack_return_defs simp del: msgpack_pack_object.simps)
qed

end
