(* ===== verification/MsgpackBuffer.thy ===== *)
theory MsgpackBuffer
  imports CMemory MsgpackFormat
begin

text \<open>
  \<open>sbuffer.h\<close>, \<open>vrefbuffer.h\<close> and \<open>vrefbuffer.c\<close>: the two buffers a packer writes to. The
  simple buffer is one block grown by doubling; the vectored buffer is an array of
  \<open>iovec\<close>s over chunks of its own and over the client's memory. A state is the C structure
  with the heap. The lemmas show that both are write buffers in the sense of the packer's
  interface, so a successful pack appends exactly the encoding of the object, and that
  migrating one vectored buffer into another may write past the end of its array.
\<close>

subsection \<open>The simple buffer\<close>

record msgpack_sbuffer =
  sb_size :: u64
  sb_data :: ptr
  sb_alloc :: u64

definition MSGPACK_SBUFFER_INIT_SIZE :: u64 where "MSGPACK_SBUFFER_INIT_SIZE = 8192"
definition sizeof_sbuffer :: u64 where "sizeof_sbuffer = 24"

definition msgpack_sbuffer_init :: msgpack_sbuffer where
  "msgpack_sbuffer_init = \<lparr>sb_size = 0, sb_data = Null, sb_alloc = 0\<rparr>"

definition msgpack_sbuffer_destroy :: "msgpack_sbuffer \<Rightarrow> heap \<Rightarrow> heap option" where
  "msgpack_sbuffer_destroy sbuf h = free_c (sb_data sbuf) h"

text \<open>A buffer on the heap: the block of the structure with the structure.\<close>

definition msgpack_sbuffer_new :: "heap \<Rightarrow> (ptr \<times> msgpack_sbuffer) option \<times> heap" where
  "msgpack_sbuffer_new h =
     (let (p, h) = calloc_c sizeof_sbuffer h in
      (if p = Null then None else Some (p, msgpack_sbuffer_init), h))"

definition msgpack_sbuffer_free :: "(ptr \<times> msgpack_sbuffer) option \<Rightarrow> heap \<Rightarrow> heap option" where
  "msgpack_sbuffer_free sbuf h =
     (case sbuf of None \<Rightarrow> Some h
      | Some (p, sb) \<Rightarrow> do { h \<leftarrow> msgpack_sbuffer_destroy sb h; free_c p h })"

text \<open>The branch of \<open>msgpack_sbuffer_write\<close> that makes room, and the function.\<close>

definition sbuffer_reserve :: "u64 \<Rightarrow> msgpack_sbuffer \<Rightarrow> heap \<Rightarrow> (int \<times> msgpack_sbuffer \<times> heap) option" where
  "sbuffer_reserve len sbuf h =
     (if sb_alloc sbuf - sb_size sbuf < len then
        do { let nsize = (if sb_alloc sbuf \<noteq> 0 then sb_alloc sbuf * 2 else MSGPACK_SBUFFER_INIT_SIZE);
             nsize \<leftarrow> double_until nsize (sb_size sbuf + len);
             (tmp, h) \<leftarrow> realloc_c (sb_data sbuf) nsize h;
             if tmp = Null then Some (-1, sbuf, h)
             else Some (0, sbuf\<lparr>sb_data := tmp, sb_alloc := nsize\<rparr>, h) }
      else Some (0, sbuf, h))"

definition msgpack_sbuffer_write :: "(msgpack_sbuffer \<times> heap) writer" where
  "msgpack_sbuffer_write buf s =
     do { let len = of_nat (length buf);
          (ret, sbuf, h) \<leftarrow> sbuffer_reserve len (fst s) (snd s);
          if ret < 0 then Some (ret, sbuf, h)
          else do { h \<leftarrow> store_bytes (ptr_add (sb_data sbuf) (unat (sb_size sbuf))) buf h;
                    Some (0, sbuf\<lparr>sb_size := sb_size sbuf + len\<rparr>, h) } }"

definition msgpack_sbuffer_release :: "msgpack_sbuffer \<Rightarrow> ptr \<times> msgpack_sbuffer" where
  "msgpack_sbuffer_release sbuf = (sb_data sbuf, sbuf\<lparr>sb_size := 0, sb_data := Null, sb_alloc := 0\<rparr>)"

definition msgpack_sbuffer_clear :: "msgpack_sbuffer \<Rightarrow> msgpack_sbuffer" where
  "msgpack_sbuffer_clear sbuf = sbuf\<lparr>sb_size := 0\<rparr>"

subsection \<open>The vectored buffer\<close>

text \<open>
  An \<open>iovec\<close> points into a chunk or at the client's memory; of the latter the model keeps the
  bytes, the client having to leave them alone. \<open>v_iov\<close> are the entries from \<open>array\<close> to
  \<open>tail\<close> and \<open>v_cap\<close> is \<open>end - array\<close>.
\<close>

datatype iov = IovChunk ptr u64 | IovRef "byte list"

record msgpack_vrefbuffer =
  v_iov :: "iov list"
  v_cap :: u64
  v_array :: ptr
  v_chunk_size :: u64
  v_ref_size :: u64
  ib_free :: u64
  ib_ptr :: ptr
  ib_head :: ptr

definition sizeof_iovec :: u64 where "sizeof_iovec = 16"
definition sizeof_vref_chunk :: u64 where "sizeof_vref_chunk = 8"
definition sizeof_vrefbuffer :: u64 where "sizeof_vrefbuffer = 64"

definition msgpack_vrefbuffer_init :: "u64 \<Rightarrow> u64 \<Rightarrow> heap \<Rightarrow> (msgpack_vrefbuffer option \<times> heap) option" where
  "msgpack_vrefbuffer_init ref_size chunk_size h =
     (let nfirst = (if sizeof_iovec < 72 div 2 then 72 div sizeof_iovec else 8);
          (array, h) = malloc_c (sizeof_iovec * nfirst) h in
      if array = Null then Some (None, h)
      else
        let (chunk, h) = malloc_c (sizeof_vref_chunk + chunk_size) h in
        if chunk = Null then do { h \<leftarrow> free_c array h; Some (None, h) }
        else do {
          h \<leftarrow> set_next chunk Null h;
          Some (Some \<lparr>v_iov = [], v_cap = nfirst, v_array = array, v_chunk_size = chunk_size,
                   v_ref_size = ref_size, ib_free = chunk_size,
                   ib_ptr = ptr_add chunk (unat sizeof_vref_chunk), ib_head = chunk\<rparr>, h) })"

partial_function (option) free_vref_chunks :: "ptr \<Rightarrow> heap \<Rightarrow> heap option" where
  "free_vref_chunks c h =
     do { n \<leftarrow> get_next c h;
          h \<leftarrow> free_c c h;
          if n \<noteq> Null then free_vref_chunks n h else Some h }"

definition msgpack_vrefbuffer_destroy :: "msgpack_vrefbuffer \<Rightarrow> heap \<Rightarrow> heap option" where
  "msgpack_vrefbuffer_destroy vbuf h =
     do { h \<leftarrow> free_vref_chunks (ib_head vbuf) h; free_c (v_array vbuf) h }"

partial_function (option) free_vref_tail :: "ptr \<Rightarrow> heap \<Rightarrow> heap option" where
  "free_vref_tail c h =
     (if c \<noteq> Null then do { n \<leftarrow> get_next c h; h \<leftarrow> free_c c h; free_vref_tail n h } else Some h)"

definition msgpack_vrefbuffer_clear :: "msgpack_vrefbuffer \<Rightarrow> heap \<Rightarrow> (msgpack_vrefbuffer \<times> heap) option" where
  "msgpack_vrefbuffer_clear vbuf h =
     do { c \<leftarrow> get_next (ib_head vbuf) h;
          h \<leftarrow> free_vref_tail c h;
          h \<leftarrow> set_next (ib_head vbuf) Null h;
          Some (vbuf\<lparr>ib_free := v_chunk_size vbuf,
                     ib_ptr := ptr_add (ib_head vbuf) (unat sizeof_vref_chunk), v_iov := []\<rparr>, h) }"

definition msgpack_vrefbuffer_append_iov ::
    "msgpack_vrefbuffer \<Rightarrow> iov \<Rightarrow> heap \<Rightarrow> (int \<times> msgpack_vrefbuffer \<times> heap) option" where
  "msgpack_vrefbuffer_append_iov vbuf e h =
     do {
       (ret, vbuf, h) \<leftarrow>
         (if length (v_iov vbuf) = unat (v_cap vbuf) then
            do { let nused = of_nat (length (v_iov vbuf)); let nnext = nused * 2;
                 (nvec, h) \<leftarrow> realloc_c (v_array vbuf) (sizeof_iovec * nnext) h;
                 if nvec = Null then Some (-1, vbuf, h)
                 else Some (0, vbuf\<lparr>v_array := nvec, v_cap := nnext\<rparr>, h) }
          else Some (0, vbuf, h));
       if ret < 0 then Some (ret, vbuf, h)
       else Some (0, vbuf\<lparr>v_iov := v_iov vbuf @ [e]\<rparr>, h)
     }"

definition msgpack_vrefbuffer_append_ref ::
    "msgpack_vrefbuffer \<Rightarrow> byte list \<Rightarrow> heap \<Rightarrow> (int \<times> msgpack_vrefbuffer \<times> heap) option" where
  "msgpack_vrefbuffer_append_ref vbuf buf h = msgpack_vrefbuffer_append_iov vbuf (IovRef buf) h"

definition iov_ends_at :: "iov list \<Rightarrow> ptr \<Rightarrow> bool" where
  "iov_ends_at es m =
     (es \<noteq> [] \<and> (case last es of IovChunk p len \<Rightarrow> m = ptr_add p (unat len) | IovRef _ \<Rightarrow> False))"

definition extend_iov :: "u64 \<Rightarrow> iov \<Rightarrow> iov" where
  "extend_iov n e = (case e of IovChunk p len \<Rightarrow> IovChunk p (len + n) | IovRef bs \<Rightarrow> IovRef bs)"

text \<open>The branch of \<open>msgpack_vrefbuffer_append_copy\<close> that starts a chunk, its rest, and the function.\<close>

definition vref_copy_room :: "u64 \<Rightarrow> msgpack_vrefbuffer \<Rightarrow> heap \<Rightarrow> (int \<times> msgpack_vrefbuffer \<times> heap) option" where
  "vref_copy_room len vbuf h =
     (if ib_free vbuf < len then
        let sz = (if v_chunk_size vbuf < len then len else v_chunk_size vbuf);
            (chunk, h) = malloc_c (sizeof_vref_chunk + sz) h in
        if chunk = Null then Some (-1, vbuf, h)
        else do { h \<leftarrow> set_next chunk (ib_head vbuf) h;
                  Some (0, vbuf\<lparr>ib_head := chunk, ib_free := sz,
                          ib_ptr := ptr_add chunk (unat sizeof_vref_chunk)\<rparr>, h) }
      else Some (0, vbuf, h))"

definition vref_copy_bytes ::
    "byte list \<Rightarrow> msgpack_vrefbuffer \<Rightarrow> heap \<Rightarrow> (int \<times> msgpack_vrefbuffer \<times> heap) option" where
  "vref_copy_bytes buf vbuf h =
     do {
       let len = of_nat (length buf);
       let m = ib_ptr vbuf;
       h \<leftarrow> store_bytes m buf h;
       let vbuf = vbuf\<lparr>ib_free := ib_free vbuf - len, ib_ptr := ptr_add m (length buf)\<rparr>;
       if iov_ends_at (v_iov vbuf) m then
         Some (0, vbuf\<lparr>v_iov := butlast (v_iov vbuf) @ [extend_iov len (last (v_iov vbuf))]\<rparr>, h)
       else msgpack_vrefbuffer_append_iov vbuf (IovChunk m len) h }"

definition msgpack_vrefbuffer_append_copy ::
    "msgpack_vrefbuffer \<Rightarrow> byte list \<Rightarrow> heap \<Rightarrow> (int \<times> msgpack_vrefbuffer \<times> heap) option" where
  "msgpack_vrefbuffer_append_copy vbuf buf h =
     do {
       (ret, vbuf, h) \<leftarrow> vref_copy_room (of_nat (length buf)) vbuf h;
       if ret < 0 then Some (ret, vbuf, h) else vref_copy_bytes buf vbuf h
     }"

definition msgpack_vrefbuffer_write :: "(msgpack_vrefbuffer \<times> heap) writer" where
  "msgpack_vrefbuffer_write buf s =
     (let (vbuf, h) = s in
      if of_nat (length buf) < v_ref_size vbuf then msgpack_vrefbuffer_append_copy vbuf buf h
      else msgpack_vrefbuffer_append_ref vbuf buf h)"

definition msgpack_vrefbuffer_vec :: "msgpack_vrefbuffer \<Rightarrow> iov list" where
  "msgpack_vrefbuffer_vec vref = v_iov vref"

definition msgpack_vrefbuffer_veclen :: "msgpack_vrefbuffer \<Rightarrow> nat" where
  "msgpack_vrefbuffer_veclen vref = length (v_iov vref)"

definition msgpack_vrefbuffer_new :: "u64 \<Rightarrow> u64 \<Rightarrow> heap \<Rightarrow> ((ptr \<times> msgpack_vrefbuffer) option \<times> heap) option" where
  "msgpack_vrefbuffer_new ref_size chunk_size h =
     do { let (p, h) = malloc_c sizeof_vrefbuffer h;
          guard_c (p \<noteq> Null);
          (v, h) \<leftarrow> msgpack_vrefbuffer_init ref_size chunk_size h;
          case v of None \<Rightarrow> do { h \<leftarrow> free_c p h; Some (None, h) }
          | Some v \<Rightarrow> Some (Some (p, v), h) }"

definition msgpack_vrefbuffer_free :: "(ptr \<times> msgpack_vrefbuffer) option \<Rightarrow> heap \<Rightarrow> heap option" where
  "msgpack_vrefbuffer_free vbuf h =
     (case vbuf of None \<Rightarrow> Some h
      | Some (p, v) \<Rightarrow> do { h \<leftarrow> msgpack_vrefbuffer_destroy v h; free_c p h })"

subsection \<open>Migration\<close>

text \<open>
  The guard of \<open>msgpack_vrefbuffer_migrate\<close> compares pointers into two different arrays:
  \<open>addr\<close> is where the allocator has put each block. The copy is undefined when the entries do
  not fit between \<open>tail\<close> and \<open>end\<close>.
\<close>

partial_function (option) last_chunk :: "ptr \<Rightarrow> heap \<Rightarrow> ptr option" where
  "last_chunk c h = do { n \<leftarrow> get_next c h; if n \<noteq> Null then last_chunk n h else Some c }"

definition iov_address :: "(nat \<Rightarrow> int) \<Rightarrow> ptr \<Rightarrow> nat \<Rightarrow> int" where
  "iov_address addr p i = (case p of Null \<Rightarrow> 0 | Ptr b off \<Rightarrow> addr b + int off) + uint sizeof_iovec * int i"

definition msgpack_vrefbuffer_migrate ::
    "(nat \<Rightarrow> int) \<Rightarrow> msgpack_vrefbuffer \<Rightarrow> msgpack_vrefbuffer \<Rightarrow> heap \<Rightarrow>
     (int \<times> msgpack_vrefbuffer \<times> msgpack_vrefbuffer \<times> heap) option" where
  "msgpack_vrefbuffer_migrate addr vbuf to h =
     (let sz = v_chunk_size vbuf; (empty, h) = malloc_c (sizeof_vref_chunk + sz) h in
      if empty = Null then Some (-1, vbuf, to, h)
      else do {
        h \<leftarrow> set_next empty Null h;
        let nused = length (v_iov vbuf);
        (ret, to, h) \<leftarrow>
          (if iov_address addr (v_array to) (length (v_iov to) + nused) <
              iov_address addr (v_array vbuf) (unat (v_cap vbuf)) then
             do { let tosize = of_nat (length (v_iov to)); let reqsize = of_nat nused + tosize;
                  nnext \<leftarrow> double_until (v_cap to * 2) reqsize;
                  (nvec, h) \<leftarrow> realloc_c (v_array to) (sizeof_iovec * nnext) h;
                  if nvec = Null then do { h \<leftarrow> free_c empty h; Some (-1, to, h) }
                  else Some (0, to\<lparr>v_array := nvec, v_cap := nnext\<rparr>, h) }
           else Some (0, to, h));
        if ret < 0 then Some (ret, vbuf, to, h)
        else do {
          guard_c (length (v_iov to) + nused \<le> unat (v_cap to));
          let to = to\<lparr>v_iov := v_iov to @ v_iov vbuf\<rparr>;
          let vbuf = vbuf\<lparr>v_iov := []\<rparr>;
          l \<leftarrow> last_chunk (ib_head vbuf) h;
          h \<leftarrow> set_next l (ib_head to) h;
          let to = to\<lparr>ib_head := ib_head vbuf\<rparr>;
          let to = (if ib_free to < ib_free vbuf then to\<lparr>ib_free := ib_free vbuf, ib_ptr := ib_ptr vbuf\<rparr> else to);
          Some (0, vbuf\<lparr>ib_head := empty, ib_free := sz, ib_ptr := ptr_add empty (unat sizeof_vref_chunk)\<rparr>, to, h) }
      })"

subsection \<open>The simple buffer is a write buffer\<close>

fun sb_ok :: "msgpack_sbuffer \<times> heap \<Rightarrow> bool" where
  "sb_ok (sb, h) \<longleftrightarrow> wf_heap h \<and> big_fails h \<and> sb_size sb \<le> sb_alloc sb \<and>
     (case sb_data sb of
        Null \<Rightarrow> sb_alloc sb = 0
      | Ptr b off \<Rightarrow> off = 0 \<and> sb_alloc sb \<noteq> 0 \<and>
          (case blocks h b of None \<Rightarrow> False
           | Some blk \<Rightarrow> bsize blk = unat (sb_alloc sb) \<and> unat (sb_alloc sb) < 2 ^ 63 \<and>
               bytes_at (bdata blk) 0 (unat (sb_size sb)) \<noteq> None))"

fun sb_contents :: "msgpack_sbuffer \<times> heap \<Rightarrow> byte list" where
  "sb_contents (sb, h) =
     (case load_bytes (sb_data sb) (unat (sb_size sb)) h of Some bs \<Rightarrow> bs | None \<Rightarrow> [])"

lemma sb_contents_Ptr:
  assumes "sb_ok (sb, h)" "sb_data sb = Ptr b off" "blocks h b = Some blk"
  shows "bytes_at (bdata blk) 0 (unat (sb_size sb)) = Some (sb_contents (sb, h))"
  using assms by (auto simp: load_bytes_def word_le_nat_alt)

lemma sb_contents_Null:
  assumes "sb_ok (sb, h)" "sb_data sb = Null"
  shows "sb_size sb = 0" "sb_contents (sb, h) = []"
  using assms by (auto simp: load_bytes_def)

lemma double_until_room:
  assumes a: "unat a < 2 ^ 63" and s: "s \<le> a" and l: "unat len < 2 ^ 32"
  defines "n0 \<equiv> (if a \<noteq> 0 then a * 2 else 8192)"
  shows "\<exists>n. double_until n0 (s + len) = Some n \<and> s + len \<le> n \<and> unat a \<le> unat n \<and> unat (s + len) = unat s + unat len \<and> n \<noteq> 0"
proof -
  have need: "unat (s + len) = unat s + unat len"
    using a s l by (simp add: unat_word_ariths word_le_nat_alt)
  have dbl: "unat (a * 2) = 2 * unat a" using a by (rule unat_double)
  have "a \<noteq> 0 \<Longrightarrow> 0 < unat a" by (simp add: unat_gt_0)
  then have n0: "0 < unat n0" "unat a \<le> unat n0" using dbl by (auto simp: n0_def)
  show ?thesis
  proof (cases "n0 < s + len")
    case False
    then have "double_until n0 (s + len) = Some n0" by (simp add: double_until.simps)
    with False n0 need show ?thesis by (auto simp: not_less)
  next
    case True
    have "unat s \<le> unat a" using s by (simp add: word_le_nat_alt)
    then have "unat (s + len) \<le> 2 ^ 63"
      using True need dbl a l by (auto simp: n0_def word_less_nat_alt split: if_splits)
    then obtain r where r: "double_until n0 (s + len) = Some r" "s + len \<le> r" "n0 \<le> r"
      using double_until_returns [of n0 "s + len"] n0(1) by (auto simp: word_less_nat_alt)
    with n0 need show ?thesis by (auto simp: word_le_nat_alt word_less_nat_alt intro!: exI [of _ r])
  qed
qed

lemma sbuffer_reserve_ok:
  assumes ok: "sb_ok (sb, h)" and len: "unat len < 2 ^ 32"
  shows "\<exists>r sb' h'. sbuffer_reserve len sb h = Some (r, sb', h') \<and> sb_ok (sb', h') \<and>
    sb_contents (sb', h') = sb_contents (sb, h) \<and> sb_size sb' = sb_size sb \<and>
    (r = 0 \<and> unat (sb_size sb) + unat len \<le> unat (sb_alloc sb') \<or> r = -1)"
proof (cases "sb_alloc sb - sb_size sb < len")
  case False
  have "sb_size sb \<le> sb_alloc sb" using ok by simp
  then have "unat (sb_size sb) + unat len \<le> unat (sb_alloc sb)"
    using False by (simp add: word_less_nat_alt unat_sub word_le_nat_alt)
  then show ?thesis using False ok by (simp add: sbuffer_reserve_def)
next
  case True
  have a: "unat (sb_alloc sb) < 2 ^ 63" "sb_size sb \<le> sb_alloc sb"
    using ok by (auto split: ptr.splits option.splits)
  obtain n where n: "double_until (if sb_alloc sb \<noteq> 0 then sb_alloc sb * 2 else 8192) (sb_size sb + len) = Some n"
    "sb_size sb + len \<le> n" "unat (sb_alloc sb) \<le> unat n" "unat (sb_size sb + len) = unat (sb_size sb) + unat len" "n \<noteq> 0"
    using double_until_room [OF a len] by blast
  have res: "sbuffer_reserve len sb h =
     do { (tmp, h) \<leftarrow> realloc_c (sb_data sb) n h;
          if tmp = Null then Some (-1, sb, h) else Some (0, sb\<lparr>sb_data := tmp, sb_alloc := n\<rparr>, h) }"
    using True n(1) by (cases "sb_alloc sb = 0") (simp_all add: sbuffer_reserve_def MSGPACK_SBUFFER_INIT_SIZE_def)
  have size: "unat (sb_size sb) + unat len \<le> unat n" "sb_size sb \<le> n"
    using n a(2) by (simp_all add: word_le_nat_alt)
  show ?thesis
  proof (cases "oom h (brk h) (unat n)")
    case oom: True
    let ?h = "h\<lparr>brk := Suc (brk h)\<rparr>"
    have "realloc_c (sb_data sb) n h = Some (Null, ?h)"
      using oom ok by (cases "sb_data sb") (auto simp: realloc_c_def malloc_c_def split: option.splits)
    moreover have "sb_ok (sb, ?h)"
      using ok by (auto simp: wf_heap_def big_fails_def split: ptr.splits option.splits)
    moreover have "sb_contents (sb, ?h) = sb_contents (sb, h)"
      by (simp add: load_bytes_def split: ptr.splits option.splits)
    ultimately show ?thesis by (simp add: res)
  next
    case False
    then have small: "unat n < 2 ^ 63" using ok by (auto simp: big_fails_def not_less [symmetric])
    show ?thesis
    proof (cases "sb_data sb")
      case Null
      then show ?thesis using ok False size small n(5) sb_contents_Null [OF ok Null]
        by (auto simp: res realloc_c_def malloc_c_def wf_heap_def big_fails_def load_bytes_def)
    next
      case (Ptr b off)
      then obtain blk where b: "blocks h b = Some blk" "off = 0" using ok by (auto split: option.splits)
      let ?d = "\<lambda>i. if i < unat n then bdata blk i else None"
      have "bytes_at ?d 0 (unat (sb_size sb)) = bytes_at (bdata blk) 0 (unat (sb_size sb))"
        using size by (intro bytes_at_cong) auto
      with sb_contents_Ptr [OF ok Ptr b(1)]
      have "bytes_at ?d 0 (unat (sb_size sb)) = Some (sb_contents (sb, h))" by simp
      then show ?thesis using ok False size small n(5) Ptr b
        by (auto simp: res realloc_c_def wf_heap_def big_fails_def load_bytes_def)
    qed
  qed
qed

lemma sbuffer_write_ok:
  assumes ok: "sb_ok s" and len: "length bs < 2 ^ 32"
  shows "\<exists>r s'. msgpack_sbuffer_write bs s = Some (r, s') \<and> sb_ok s' \<and>
    (r = 0 \<and> sb_contents s' = sb_contents s @ bs \<or> r = -1 \<and> sb_contents s' = sb_contents s)"
proof -
  obtain sb h where s: "s = (sb, h)" by fastforce
  let ?len = "of_nat (length bs) :: u64"
  have ul: "unat ?len = length bs" using len by (simp add: unat_of_nat_less)
  obtain r sb1 h1 where r: "sbuffer_reserve ?len sb h = Some (r, sb1, h1)" "sb_ok (sb1, h1)"
    "sb_contents (sb1, h1) = sb_contents s" "sb_size sb1 = sb_size sb"
    "r = 0 \<and> unat (sb_size sb) + length bs \<le> unat (sb_alloc sb1) \<or> r = -1"
    using sbuffer_reserve_ok [of sb h ?len] ok s ul len by auto
  show ?thesis
  proof (cases "r = 0")
    case False
    then have "r = -1" using r(5) by simp
    with r s show ?thesis by (simp add: msgpack_sbuffer_write_def)
  next
    case True
    then have room: "unat (sb_size sb1) + length bs \<le> unat (sb_alloc sb1)" using r(4,5) by simp
    have size: "unat (sb_size sb1 + ?len) = unat (sb_size sb1) + length bs"
      using room ul unsigned_less [of "sb_alloc sb1", where 'a = nat] by (simp add: unat_word_ariths)
    let ?sb = "sb1\<lparr>sb_size := sb_size sb1 + ?len\<rparr>"
    have w: "msgpack_sbuffer_write bs s =
        do { h \<leftarrow> store_bytes (ptr_add (sb_data sb1) (unat (sb_size sb1))) bs h1; Some (0, ?sb, h) }"
      using r(1) True s by (simp add: msgpack_sbuffer_write_def)
    show ?thesis
    proof (cases "bs = []")
      case True
      then have "?sb = sb1" by simp
      then have "msgpack_sbuffer_write bs s = Some (0, sb1, h1)"
        unfolding w \<open>?sb = sb1\<close> using True by (simp add: store_bytes_def)
      with r s True show ?thesis by (simp del: sb_ok.simps sb_contents.simps)
    next
      case False
      then have "sb_data sb1 \<noteq> Null" using room r(2) by auto
      then obtain b off where Ptr: "sb_data sb1 = Ptr b off" by (cases "sb_data sb1") auto
      then obtain blk where b: "blocks h1 b = Some blk" "off = 0" "bsize blk = unat (sb_alloc sb1)"
        using r(2) by (auto split: option.splits)
      note c = sb_contents_Ptr [OF r(2) Ptr b(1)]
      let ?blk = "blk\<lparr>bdata := (\<lambda>i. if unat (sb_size sb1) \<le> i \<and> i < unat (sb_size sb1) + length bs
            then Some (bs ! (i - unat (sb_size sb1))) else bdata blk i)\<rparr>"
        let ?h = "h1\<lparr>blocks := (blocks h1)(b \<mapsto> ?blk)\<rparr>"
        have st: "store_bytes (ptr_add (sb_data sb1) (unat (sb_size sb1))) bs h1 = Some ?h"
          using False Ptr b room by (simp add: store_bytes_def ptr_add_def)
        have bytes: "bytes_at (bdata ?blk) 0 (unat (sb_size sb1) + length bs) = Some (sb_contents s @ bs)"
          using load_after_store [OF c, of bs] r(3) by simp
        have "sb_ok (?sb, ?h)"
          using r(2) Ptr b room size bytes
          by (auto simp: wf_heap_def big_fails_def word_le_nat_alt)
        moreover have "sb_contents (?sb, ?h) = sb_contents s @ bs"
          using Ptr b room size bytes False by (simp add: load_bytes_def)
        ultimately show ?thesis using w st by simp
    qed
  qed
qed

interpretation sbuffer: answering_buffer msgpack_sbuffer_write sb_contents sb_ok "\<lambda>r. r = 0 \<or> r = -1"
proof
  fix s s' :: "msgpack_sbuffer \<times> heap" and bs :: "byte list" and r :: int
  assume a: "sb_ok s" "length bs < 2 ^ 32"
  note w = sbuffer_write_ok [OF a]
  show "\<exists>r s'. msgpack_sbuffer_write bs s = Some (r, s') \<and> (r = 0 \<or> r = -1)" using w by blast
  assume run: "msgpack_sbuffer_write bs s = Some (r, s')"
  show "sb_ok s'" using w run by auto
  show "0 \<le> r \<Longrightarrow> sb_contents s' = sb_contents s @ bs" using w run by auto
  show "r < 0 \<Longrightarrow> sb_contents s' = sb_contents s" using w run by auto
qed simp

subsection \<open>The vectored buffer is a write buffer\<close>

text \<open>What the entries stand for, over the blocks \<open>B\<close> of the heap.\<close>

type_synonym memory = "nat \<Rightarrow> cblock option"

definition iov_bytes :: "memory \<Rightarrow> iov \<Rightarrow> byte list" where
  "iov_bytes B e =
     (case e of IovRef bs \<Rightarrow> bs
      | IovChunk p len \<Rightarrow>
          (case B (pblock p) of None \<Rightarrow> []
           | Some blk \<Rightarrow> (case bytes_at (bdata blk) (poff p) (unat len) of Some bs \<Rightarrow> bs | None \<Rightarrow> [])))"

fun vref_contents :: "msgpack_vrefbuffer \<times> heap \<Rightarrow> byte list" where
  "vref_contents (v, h) = concat (map (iov_bytes (blocks h)) (v_iov v))"

text \<open>An entry over a chunk covers written bytes, below the free part when the chunk is the current one.\<close>

definition chunk_iov_ok :: "memory \<Rightarrow> ptr \<Rightarrow> ptr \<Rightarrow> u64 \<Rightarrow> bool" where
  "chunk_iov_ok B m p len \<longleftrightarrow> p \<noteq> Null \<and> (pblock p = pblock m \<longrightarrow> poff p + unat len \<le> poff m) \<and>
     (\<exists>blk bs. B (pblock p) = Some blk \<and> poff p + unat len \<le> bsize blk \<and>
        bytes_at (bdata blk) (poff p) (unat len) = Some bs)"

definition iov_ok :: "memory \<Rightarrow> ptr \<Rightarrow> iov \<Rightarrow> bool" where
  "iov_ok B m e = (case e of IovRef bs \<Rightarrow> True | IovChunk p len \<Rightarrow> chunk_iov_ok B m p len)"

definition room_ok :: "memory \<Rightarrow> ptr \<Rightarrow> u64 \<Rightarrow> bool" where
  "room_ok B m free \<longleftrightarrow> m \<noteq> Null \<and> 8 \<le> poff m \<and>
     (\<exists>blk. B (pblock m) = Some blk \<and> poff m + unat free \<le> bsize blk \<and> bsize blk < 2 ^ 63)"

definition array_ok :: "memory \<Rightarrow> ptr \<Rightarrow> ptr \<Rightarrow> u64 \<Rightarrow> iov list \<Rightarrow> bool" where
  "array_ok B m a cap es \<longleftrightarrow> length es \<le> unat cap \<and> cap \<noteq> 0 \<and> 16 * unat cap < 2 ^ 63 \<and>
     a = Ptr (pblock a) 0 \<and> pblock a \<noteq> pblock m \<and>
     (\<forall>p len. IovChunk p len \<in> set es \<longrightarrow> pblock p \<noteq> pblock a) \<and>
     (\<exists>blk. B (pblock a) = Some blk \<and> bsize blk = 16 * unat cap)"

fun vref_ok :: "msgpack_vrefbuffer \<times> heap \<Rightarrow> bool" where
  "vref_ok (v, h) \<longleftrightarrow> wf_heap h \<and> big_fails h \<and> v_chunk_size v \<le> 2 ^ 62 \<and>
     room_ok (blocks h) (ib_ptr v) (ib_free v) \<and>
     array_ok (blocks h) (ib_ptr v) (v_array v) (v_cap v) (v_iov v) \<and>
     (\<forall>e \<in> set (v_iov v). iov_ok (blocks h) (ib_ptr v) e)"

lemma iov_frame:
  assumes "iov_ok B m e" "\<And>p len. e = IovChunk p len \<Longrightarrow> B' (pblock p) = B (pblock p)"
  shows "iov_bytes B' e = iov_bytes B e" "iov_ok B' m e"
  using assms by (auto simp: iov_bytes_def iov_ok_def chunk_iov_ok_def split: iov.splits)

lemma iov_frames:
  assumes "\<forall>e \<in> set es. iov_ok B m e" "\<And>p len. IovChunk p len \<in> set es \<Longrightarrow> B' (pblock p) = B (pblock p)"
  shows "map (iov_bytes B') es = map (iov_bytes B) es" "\<forall>e \<in> set es. iov_ok B' m e"
proof -
  have "iov_bytes B' e = iov_bytes B e \<and> iov_ok B' m e" if "e \<in> set es" for e
    using iov_frame [of B m e B'] assms that by blast
  then show "map (iov_bytes B') es = map (iov_bytes B) es" "\<forall>e \<in> set es. iov_ok B' m e" by simp_all
qed

lemma iov_live: "\<forall>e \<in> set es. iov_ok B m e \<Longrightarrow> IovChunk p len \<in> set es \<Longrightarrow> B (pblock p) \<noteq> None"
  by (force simp: iov_ok_def chunk_iov_ok_def)

text \<open>Making room for an entry: the array moves, the chunks stay.\<close>

lemma append_iov_ok:
  assumes ok: "vref_ok (v, h)" and e: "iov_ok (blocks h) (ib_ptr v) e"
    and a: "\<And>p len. e = IovChunk p len \<Longrightarrow> pblock p \<noteq> pblock (v_array v)"
  shows "\<exists>r v' h'. msgpack_vrefbuffer_append_iov v e h = Some (r, v', h') \<and> vref_ok (v', h') \<and>
    (r = 0 \<and> vref_contents (v', h') = vref_contents (v, h) @ iov_bytes (blocks h) e \<or>
     r = -1 \<and> vref_contents (v', h') = vref_contents (v, h))"
proof -
  obtain b blk where arr: "v_array v = Ptr b 0" and blk: "blocks h b = Some blk" "bsize blk = 16 * unat (v_cap v)"
    "16 * unat (v_cap v) < 2 ^ 63"
    using ok by (auto simp: array_ok_def)
  show ?thesis
  proof (cases "length (v_iov v) = unat (v_cap v)")
    case False
    then show ?thesis using ok e a arr
      by (auto simp: msgpack_vrefbuffer_append_iov_def array_ok_def)
  next
    case True
    let ?n = "v_cap v * 2"
    have n: "unat ?n = 2 * unat (v_cap v)" "unat (16 * ?n) = 32 * unat (v_cap v)" "(of_nat (length (v_iov v)) :: u64) = v_cap v"
      using blk(3) True by (simp_all add: unat_word_ariths)
    have app: "msgpack_vrefbuffer_append_iov v e h =
        do { (nvec, h) \<leftarrow> realloc_c (Ptr b 0) (16 * ?n) h;
             if nvec = Null then Some (-1, v, h)
             else Some (0, v\<lparr>v_array := nvec, v_cap := ?n, v_iov := v_iov v @ [e]\<rparr>, h) }"
      using True n(3) arr
      by (cases "realloc_c (Ptr b 0) (16 * ?n) h") (auto simp: msgpack_vrefbuffer_append_iov_def sizeof_iovec_def Let_def)
    show ?thesis
    proof (cases "oom h (brk h) (32 * unat (v_cap v))")
      case oom: True
      let ?h = "h\<lparr>brk := Suc (brk h)\<rparr>"
      have "msgpack_vrefbuffer_append_iov v e h = Some (-1, v, ?h)"
        using app oom n(2) blk by (simp add: realloc_c_def)
      moreover have "vref_ok (v, ?h)" using ok by (auto simp: wf_heap_def big_fails_def)
      ultimately show ?thesis by auto
    next
      case False
      have small: "32 * unat (v_cap v) < 2 ^ 63"
        using False ok unfolding vref_ok.simps big_fails_def by (metis not_less)
      let ?blk = "\<lparr>bsize = 32 * unat (v_cap v), bdata = (\<lambda>i. if i < 32 * unat (v_cap v) then bdata blk i else None), bnext = bnext blk\<rparr>"
      let ?B = "((blocks h)(b := None))(brk h \<mapsto> ?blk)"
      let ?h = "h\<lparr>blocks := ?B, brk := Suc (brk h)\<rparr>"
      let ?v = "v\<lparr>v_array := Ptr (brk h) 0, v_cap := ?n, v_iov := v_iov v @ [e]\<rparr>"
      have run: "msgpack_vrefbuffer_append_iov v e h = Some (0, ?v, ?h)"
        using app False n(2) blk by (simp add: realloc_c_def)
      have fresh: "blocks h (brk h) = None" using ok by (simp add: wf_heap_def)
      have all: "\<forall>x \<in> set (v_iov v @ [e]). iov_ok (blocks h) (ib_ptr v) x" using ok e by auto
      have nb: "pblock p \<noteq> b \<and> pblock p \<noteq> brk h" if "IovChunk p len \<in> set (v_iov v @ [e])" for p len
        using that a ok arr iov_live [OF all that] fresh by (auto simp: array_ok_def)
      note fr = iov_frames [OF all, of ?B]
      have same: "?B (pblock p) = blocks h (pblock p)" if "IovChunk p len \<in> set (v_iov v @ [e])" for p len
        using nb [OF that] by simp
      have c: "vref_contents (?v, ?h) = vref_contents (v, h) @ iov_bytes (blocks h) e"
        using arg_cong [OF fr(1) [OF same], where f = concat] by simp
      have pos: "Suc 0 \<le> unat (v_cap v)" using ok by (auto simp: array_ok_def unat_gt_0 Suc_le_eq)
      have pb: "pblock (ib_ptr v) \<noteq> b" "pblock (ib_ptr v) \<noteq> brk h"
        using ok arr fresh by (auto simp: array_ok_def room_ok_def)
      have "room_ok ?B (ib_ptr v) (ib_free v)" using ok pb by (simp add: room_ok_def)
      moreover have "?n \<noteq> 0" using n(1) ok by (auto simp: array_ok_def unat_eq_0)
      then have "array_ok ?B (ib_ptr v) (Ptr (brk h) 0) ?n (v_iov v @ [e])"
        using ok n small pb True nb pos by (auto simp: array_ok_def)
      moreover have "\<forall>x \<in> set (v_iov v @ [e]). iov_ok ?B (ib_ptr v) x" by (rule fr(2) [OF same])
      ultimately have "vref_ok (?v, ?h)" using ok by (auto simp: wf_heap_def big_fails_def)
      with run c show ?thesis by blast
    qed
  qed
qed

subsection \<open>Appending a copy\<close>

text \<open>The branch of \<open>append_copy\<close> that starts a new chunk.\<close>

lemma copy_room_ok:
  assumes ok: "vref_ok (v, h)" and len: "unat len < 2 ^ 32"
  defines "sz \<equiv> (if v_chunk_size v < len then len else v_chunk_size v)"
  assumes m: "malloc_c (8 + sz) h = (Ptr c 0, h1)" and s: "set_next (Ptr c 0) (ib_head v) h1 = Some h2"
    and v': "v' = v\<lparr>ib_head := Ptr c 0, ib_free := sz, ib_ptr := Ptr c 8\<rparr>"
  shows "vref_ok (v', h2)" "vref_contents (v', h2) = vref_contents (v, h)" "len \<le> sz"
proof -
  have sz: "unat sz < 2 ^ 63 - 8" "len \<le> sz"
    using ok len by (auto simp: sz_def word_le_nat_alt word_less_nat_alt)
  have usz: "unat (8 + sz) = 8 + unat sz" using sz(1) by (simp add: unat_word_ariths)
  let ?blk = "\<lparr>bsize = 8 + unat sz, bdata = (\<lambda>_. None), bnext = Some (ib_head v)\<rparr>"
  have c: "c = brk h" and h2: "blocks h2 = (blocks h)(c \<mapsto> ?blk)" "brk h2 = Suc (brk h)" "oom h2 = oom h"
    using m s usz by (auto simp: malloc_c_def set_next_def split: if_splits)
  have fresh: "blocks h c = None" using ok c by (simp add: wf_heap_def)
  have all: "\<forall>e \<in> set (v_iov v). iov_ok (blocks h) (ib_ptr v) e" using ok by simp
  have nc: "pblock p \<noteq> c" if "IovChunk p n \<in> set (v_iov v)" for p n
    using iov_live [OF all that] fresh by metis
  note fr = iov_frames [OF all, of "blocks h2"]
  have same: "blocks h2 (pblock p) = blocks h (pblock p)" if "IovChunk p n \<in> set (v_iov v)" for p n
    using nc [OF that] h2 by simp
  show "len \<le> sz" by (rule sz)
  show "vref_contents (v', h2) = vref_contents (v, h)"
    using arg_cong [OF fr(1) [OF same], where f = concat] by (simp add: v')
  have "iov_ok (blocks h2) (Ptr c 8) e" if e: "e \<in> set (v_iov v)" for e
  proof -
    have "iov_ok (blocks h2) (ib_ptr v) e" using fr(2) same e by blast
    then show ?thesis using nc e by (cases e) (auto simp: iov_ok_def chunk_iov_ok_def)
  qed
  moreover have "array_ok (blocks h2) (Ptr c 8) (v_array v) (v_cap v) (v_iov v)"
    using ok fresh h2 by (auto simp: array_ok_def)
  moreover have "room_ok (blocks h2) (Ptr c 8) sz" using h2 sz by (simp add: room_ok_def)
  ultimately show "vref_ok (v', h2)" using ok h2 c by (auto simp: wf_heap_def big_fails_def v')
qed

text \<open>Copying into the free part of the current chunk.\<close>

lemma copy_store_ok:
  assumes ok: "vref_ok (v, h)" and room: "length buf \<le> unat (ib_free v)" and m: "ib_ptr v = Ptr b off"
    and v': "v' = v\<lparr>ib_free := ib_free v - of_nat (length buf), ib_ptr := Ptr b (off + length buf)\<rparr>"
  shows "\<exists>h' blk. store_bytes (ib_ptr v) buf h = Some h' \<and> vref_ok (v', h') \<and>
    vref_contents (v', h') = vref_contents (v, h) \<and> blocks h' b = Some blk \<and>
    off + length buf \<le> bsize blk \<and> bsize blk < 2 ^ 63 \<and> bytes_at (bdata blk) off (length buf) = Some buf"
proof -
  obtain blk where blk: "blocks h b = Some blk" "off + unat (ib_free v) \<le> bsize blk" "bsize blk < 2 ^ 63" and f: "8 \<le> off"
    using ok m by (auto simp: room_ok_def)
  let ?d = "\<lambda>i. if off \<le> i \<and> i < off + length buf then Some (buf ! (i - off)) else bdata blk i"
  let ?blk = "blk\<lparr>bdata := ?d\<rparr>"
  let ?h = "h\<lparr>blocks := (blocks h)(b \<mapsto> ?blk)\<rparr>"
  have "?d = bdata blk" if "buf = []" by (rule ext) (use that in auto)
  then have st: "store_bytes (ib_ptr v) buf h = Some ?h"
    using m blk room by (cases "buf = []") (simp_all add: store_bytes_def map_upd_triv)
  have fr: "iov_bytes (blocks ?h) e = iov_bytes (blocks h) e \<and> iov_ok (blocks ?h) (Ptr b (off + length buf)) e"
    if "e \<in> set (v_iov v)" for e
  proof (cases e)
    case (IovChunk p len)
    then have e: "chunk_iov_ok (blocks h) (Ptr b off) p len" using that ok m by (auto simp: iov_ok_def)
    show ?thesis
    proof (cases "pblock p = b")
      case True
      then have "bytes_at ?d (poff p) (unat len) = bytes_at (bdata blk) (poff p) (unat len)"
        using e by (intro bytes_at_cong) (auto simp: chunk_iov_ok_def)
      with e True blk IovChunk show ?thesis by (auto simp: iov_bytes_def iov_ok_def chunk_iov_ok_def)
    next
      case False
      with e IovChunk show ?thesis by (auto simp: iov_bytes_def iov_ok_def chunk_iov_ok_def)
    qed
  qed (simp add: iov_bytes_def iov_ok_def)
  then have maps: "map (iov_bytes (blocks ?h)) (v_iov v) = map (iov_bytes (blocks h)) (v_iov v)" by simp
  note cat = arg_cong [OF maps, where f = concat]
  have "of_nat (length buf) \<le> ib_free v" "unat (of_nat (length buf) :: u64) = length buf"
    using room blk by (simp_all add: word_le_nat_alt unat_of_nat_less)
  then have "unat (ib_free v - of_nat (length buf)) = unat (ib_free v) - length buf" by (simp add: unat_sub)
  then have "room_ok (blocks ?h) (Ptr b (off + length buf)) (ib_free v - of_nat (length buf))"
    using f blk room by (simp add: room_ok_def)
  moreover have "array_ok (blocks ?h) (Ptr b (off + length buf)) (v_array v) (v_cap v) (v_iov v)"
    using ok m by (auto simp: array_ok_def)
  ultimately have "vref_ok (v', ?h)" using ok fr blk by (auto simp: v' wf_heap_def big_fails_def)
  moreover have "bytes_at ?d off (length buf) = Some buf" by (rule bytes_at_written)
  moreover have "vref_contents (v', ?h) = vref_contents (v, h)" using cat by (simp add: v')
  ultimately show ?thesis using st blk room by (intro exI [of _ ?h] exI [of _ ?blk]) simp
qed

text \<open>The copied bytes extend the last entry when it ends where they start.\<close>

lemma extend_last_ok:
  assumes ok: "vref_ok (v, h)" and es: "v_iov v = es @ [IovChunk p l]"
    and p: "p = Ptr b o1" "ib_ptr v = Ptr b (o1 + unat l + length buf)"
    and blk: "blocks h b = Some blk" "o1 + unat l + length buf \<le> bsize blk" "bsize blk < 2 ^ 63"
    and bytes: "bytes_at (bdata blk) (o1 + unat l) (length buf) = Some buf"
    and v': "v' = v\<lparr>v_iov := es @ [IovChunk p (l + of_nat (length buf))]\<rparr>"
  shows "vref_ok (v', h)" "vref_contents (v', h) = vref_contents (v, h) @ buf"
proof -
  have "unat (of_nat (length buf) :: u64) = length buf" using blk by (simp add: unat_of_nat_less)
  then have len: "unat (l + of_nat (length buf)) = unat l + length buf"
    using blk by (simp add: unat_word_ariths)
  obtain bs where bs: "bytes_at (bdata blk) o1 (unat l) = Some bs"
    using ok es p blk by (auto simp: iov_ok_def chunk_iov_ok_def)
  then have app: "bytes_at (bdata blk) o1 (unat (l + of_nat (length buf))) = Some (bs @ buf)"
    using bytes len by (simp add: bytes_at_append)
  show "vref_contents (v', h) = vref_contents (v, h) @ buf"
    using app bs by (simp add: v' es p blk iov_bytes_def)
  have "iov_ok (blocks h) (ib_ptr v) (IovChunk p (l + of_nat (length buf)))"
    using app p blk len by (simp add: iov_ok_def chunk_iov_ok_def)
  moreover have "array_ok (blocks h) (ib_ptr v) (v_array v) (v_cap v) (es @ [IovChunk p (l + of_nat (length buf))])"
    using ok es by (auto simp: array_ok_def)
  ultimately show "vref_ok (v', h)" using ok es by (simp add: v')
qed

lemma copy_bytes_ok:
  assumes ok: "vref_ok (v, h)" and room: "length buf \<le> unat (ib_free v)"
  shows "\<exists>r v' h'. vref_copy_bytes buf v h = Some (r, v', h') \<and> vref_ok (v', h') \<and>
    (r = 0 \<and> vref_contents (v', h') = vref_contents (v, h) @ buf \<or>
     r = -1 \<and> vref_contents (v', h') = vref_contents (v, h))"
proof -
  obtain b off where m: "ib_ptr v = Ptr b off" using ok by (cases "ib_ptr v") (auto simp: room_ok_def)
  let ?len = "of_nat (length buf) :: u64"
  let ?v = "v\<lparr>ib_free := ib_free v - ?len, ib_ptr := Ptr b (off + length buf)\<rparr>"
  obtain h1 blk where st: "store_bytes (ib_ptr v) buf h = Some h1" and ok1: "vref_ok (?v, h1)"
    and cont: "vref_contents (?v, h1) = vref_contents (v, h)"
    and blk: "blocks h1 b = Some blk" "off + length buf \<le> bsize blk" "bsize blk < 2 ^ 63"
      "bytes_at (bdata blk) off (length buf) = Some buf"
    using copy_store_ok [OF ok room m refl] by blast
  have ulen: "unat ?len = length buf" using blk by (simp add: unat_of_nat_less)
  show ?thesis
  proof (cases "iov_ends_at (v_iov v) (ib_ptr v)")
    case True
    then obtain es p l where es: "v_iov v = es @ [IovChunk p l]" and p: "ib_ptr v = ptr_add p (unat l)"
      by (cases "v_iov v" rule: rev_cases) (auto simp: iov_ends_at_def split: iov.splits)
    then obtain o1 where o1: "p = Ptr b o1" "off = o1 + unat l"
      using m by (cases p) (auto simp: ptr_add_def)
    let ?w = "?v\<lparr>v_iov := es @ [IovChunk p (l + ?len)]\<rparr>"
    have "vref_copy_bytes buf v h = Some (0, ?w, h1)"
      using st True es m by (simp add: vref_copy_bytes_def extend_iov_def ptr_add_def Let_def)
    moreover have "vref_ok (?w, h1)" "vref_contents (?w, h1) = vref_contents (?v, h1) @ buf"
      using extend_last_ok [OF ok1 _ o1(1) _ blk(1) _ blk(3) _ refl, of es l buf] es o1(2) blk by simp_all
    ultimately show ?thesis using cont by auto
  next
    case False
    have run: "vref_copy_bytes buf v h = msgpack_vrefbuffer_append_iov ?v (IovChunk (Ptr b off) ?len) h1"
      using st False m by (simp add: vref_copy_bytes_def ptr_add_def Let_def)
    have "iov_ok (blocks h1) (ib_ptr ?v) (IovChunk (Ptr b off) ?len)"
      using blk ulen by (simp add: iov_ok_def chunk_iov_ok_def)
    moreover have "pblock (Ptr b off) \<noteq> pblock (v_array ?v)" using ok m by (simp add: array_ok_def)
    moreover have "iov_bytes (blocks h1) (IovChunk (Ptr b off) ?len) = buf"
      using blk ulen by (simp add: iov_bytes_def)
    ultimately show ?thesis
      using append_iov_ok [OF ok1, of "IovChunk (Ptr b off) ?len"] cont unfolding run by auto
  qed
qed

lemma copy_stage_ok:
  assumes ok: "vref_ok (v, h)" and len: "unat len < 2 ^ 32"
  shows "\<exists>r v' h'. vref_copy_room len v h = Some (r, v', h') \<and> vref_ok (v', h') \<and>
    vref_contents (v', h') = vref_contents (v, h) \<and> (r = 0 \<and> len \<le> ib_free v' \<or> r = -1)"
proof (cases "ib_free v < len")
  case False
  then show ?thesis using ok by (simp add: vref_copy_room_def del: vref_ok.simps vref_contents.simps)
next
  case True
  let ?sz = "if v_chunk_size v < len then len else v_chunk_size v"
  obtain p h1 where m: "malloc_c (8 + ?sz) h = (p, h1)" by fastforce
  show ?thesis
  proof (cases p)
    case Null
    then have "h1 = h\<lparr>brk := Suc (brk h)\<rparr>" using m by (auto simp: malloc_c_def split: if_splits)
    then have "vref_ok (v, h1)" "vref_contents (v, h1) = vref_contents (v, h)"
      using ok by (auto simp: wf_heap_def big_fails_def)
    then show ?thesis using True m Null
      by (simp add: vref_copy_room_def sizeof_vref_chunk_def Let_def del: vref_ok.simps vref_contents.simps)
  next
    case (Ptr c off)
    then have off: "off = 0" "\<exists>blk. blocks h1 c = Some blk" using m by (auto simp: malloc_c_def split: if_splits)
    then obtain h2 where s: "set_next (Ptr c 0) (ib_head v) h1 = Some h2" by (auto simp: set_next_def)
    note m' = m [unfolded Ptr off(1)]
    show ?thesis using True m' s copy_room_ok [OF ok len m' s refl]
      by (simp add: vref_copy_room_def sizeof_vref_chunk_def Let_def ptr_add_def
          del: vref_ok.simps vref_contents.simps)
  qed
qed

lemma vrefbuffer_write_ok:
  assumes ok: "vref_ok s" and len: "length bs < 2 ^ 32"
  shows "\<exists>r s'. msgpack_vrefbuffer_write bs s = Some (r, s') \<and> vref_ok s' \<and>
    (r = 0 \<and> vref_contents s' = vref_contents s @ bs \<or> r = -1 \<and> vref_contents s' = vref_contents s)"
proof -
  obtain v h where s: "s = (v, h)" by fastforce
  let ?len = "of_nat (length bs) :: u64"
  have ul: "unat ?len = length bs" using len by (simp add: unat_of_nat_less)
  show ?thesis
  proof (cases "?len < v_ref_size v")
    case False
    have "iov_ok (blocks h) (ib_ptr v) (IovRef bs)" "iov_bytes (blocks h) (IovRef bs) = bs"
      by (simp_all add: iov_ok_def iov_bytes_def)
    then show ?thesis using False append_iov_ok [of v h "IovRef bs"] ok s
      by (auto simp: msgpack_vrefbuffer_write_def msgpack_vrefbuffer_append_ref_def
          simp del: vref_ok.simps vref_contents.simps)
  next
    case True
    obtain r v1 h1 where r: "vref_copy_room ?len v h = Some (r, v1, h1)" "vref_ok (v1, h1)"
      "vref_contents (v1, h1) = vref_contents s" "r = 0 \<and> ?len \<le> ib_free v1 \<or> r = -1"
      using copy_stage_ok [of v h ?len] ok s ul len by auto
    show ?thesis
    proof (cases "r = 0")
      case False
      then have "msgpack_vrefbuffer_write bs s = Some (-1, v1, h1)"
        using True r s by (simp add: msgpack_vrefbuffer_write_def msgpack_vrefbuffer_append_copy_def)
      with r(2,3) show ?thesis by blast
    next
      case r0: True
      then have "msgpack_vrefbuffer_write bs s = vref_copy_bytes bs v1 h1"
        using True r s by (simp add: msgpack_vrefbuffer_write_def msgpack_vrefbuffer_append_copy_def)
      moreover have "length bs \<le> unat (ib_free v1)" using r0 r(4) ul by (simp add: word_le_nat_alt)
      ultimately show ?thesis using copy_bytes_ok [OF r(2), of bs] r(3) by auto
    qed
  qed
qed

interpretation vrefbuffer: answering_buffer msgpack_vrefbuffer_write vref_contents vref_ok "\<lambda>r. r = 0 \<or> r = -1"
proof
  fix s s' :: "msgpack_vrefbuffer \<times> heap" and bs :: "byte list" and r :: int
  assume a: "vref_ok s" "length bs < 2 ^ 32"
  note w = vrefbuffer_write_ok [OF a]
  show "\<exists>r s'. msgpack_vrefbuffer_write bs s = Some (r, s') \<and> (r = 0 \<or> r = -1)" using w by blast
  assume run: "msgpack_vrefbuffer_write bs s = Some (r, s')"
  show "vref_ok s'" using w run by auto
  show "0 \<le> r \<Longrightarrow> vref_contents s' = vref_contents s @ bs" using w run by auto
  show "r < 0 \<Longrightarrow> vref_contents s' = vref_contents s" using w run by auto
qed simp

subsection \<open>Fresh buffers\<close>

lemma sbuffer_init_ok: "wf_heap h \<Longrightarrow> big_fails h \<Longrightarrow> sb_ok (msgpack_sbuffer_init, h)"
    "sb_contents (msgpack_sbuffer_init, h) = []"
  by (simp_all add: msgpack_sbuffer_init_def load_bytes_def)

lemma vrefbuffer_init_ok:
  assumes h: "wf_heap h" "big_fails h" and c: "chunk_size \<le> 2 ^ 62"
  shows "\<exists>v h'. msgpack_vrefbuffer_init ref_size chunk_size h = Some (v, h') \<and>
    (\<forall>v'. v = Some v' \<longrightarrow> vref_ok (v', h') \<and> vref_contents (v', h') = [] \<and> v_ref_size v' = ref_size)"
proof -
  have "unat (8 + chunk_size) = 8 + unat chunk_size" "unat chunk_size < 2 ^ 63 - 8"
    using c by (auto simp: unat_word_ariths word_le_nat_alt)
  then show ?thesis using h c
    by (auto simp: msgpack_vrefbuffer_init_def sizeof_iovec_def sizeof_vref_chunk_def malloc_c_def set_next_def
        free_c_def live_def ptr_add_def wf_heap_def big_fails_def room_ok_def array_ok_def)
qed

text \<open>
  C16: packing an object of the format into a simple buffer always returns, with 0 or -1. Whatever
  the allocator does, the buffer stays well formed: on 0 the encoding of the object has been
  appended to its contents, on -1 a prefix of the encoding has. The only hypothesis on the
  allocator is that it refuses half of the address space.
\<close>

theorem sbuffer_pack_appends:
  assumes "sb_ok s" "obj_ok d"
  shows "\<exists>r s'. msgpack_pack_object msgpack_sbuffer_write d s = Some (r, s') \<and> (r = 0 \<or> r = -1) \<and> sb_ok s' \<and>
    (\<exists>p. prefix p (mp_encode d) \<and> sb_contents s' = sb_contents s @ p \<and> (0 \<le> r \<longrightarrow> p = mp_encode d))"
  using sbuffer.pack_object_encodes [OF assms(2,1)] .

lemma sbuffer_pack_appends_witness:
  "\<exists>r s'. msgpack_pack_object msgpack_sbuffer_write (MArray [MNil, MBool True]) (msgpack_sbuffer_init, roomy_heap) = Some (r, s') \<and>
     (0 \<le> r \<longrightarrow> sb_contents s' = [0x92, 0xc0, 0xc3])"
proof -
  let ?d = "MArray [MNil, MBool True]"
  have "sb_ok (msgpack_sbuffer_init, roomy_heap)" "sb_contents (msgpack_sbuffer_init, roomy_heap) = []"
    by (rule sbuffer_init_ok; simp) (rule sbuffer_init_ok)
  moreover have "obj_ok ?d" by simp
  moreover have "mp_encode ?d = [0x92, 0xc0, 0xc3]" by (simp add: array_header_def msgpack_defs list_write_def)
  ultimately show ?thesis using sbuffer_pack_appends [of "(msgpack_sbuffer_init, roomy_heap)" ?d] by fastforce
qed


lemmas vref_eval = msgpack_vrefbuffer_init_def sizeof_iovec_def sizeof_vref_chunk_def malloc_c_def set_next_def
  ptr_add_def Let_def


text \<open>
  C33: \<open>msgpack_vrefbuffer_migrate\<close> checks for room by comparing the end of the moved entries in
  \<open>to\<close> with the end of the other buffer's array. When the allocator has placed \<open>to\<close>'s array above
  the source's, it never grows \<open>to\<close>'s array, and if the entries do not fit the \<open>memcpy\<close> writes
  past the end of it.
\<close>

theorem vrefbuffer_migrate_overflows:
  assumes "malloc_c (sizeof_vref_chunk + v_chunk_size vbuf) h = (Ptr e 0, h1)"
    and "iov_address addr (v_array vbuf) (unat (v_cap vbuf)) \<le>
         iov_address addr (v_array to) (length (v_iov to) + length (v_iov vbuf))"
    and "unat (v_cap to) < length (v_iov to) + length (v_iov vbuf)"
  shows "msgpack_vrefbuffer_migrate addr vbuf to h = None"
  using assms by (auto simp: msgpack_vrefbuffer_migrate_def Let_def guard_c_def bind_eq_None_conv)

lemma vrefbuffer_migrate_overflows_witness:
  "\<exists>v h w h'. msgpack_vrefbuffer_init 2 64 roomy_heap = Some (Some v, h) \<and>
     msgpack_vrefbuffer_init 2 64 h = Some (Some w, h') \<and>
     msgpack_vrefbuffer_migrate (\<lambda>b. 4096 * int b) (v\<lparr>v_iov := replicate 3 (IovRef [1, 2, 3])\<rparr>)
       (w\<lparr>v_iov := replicate 3 (IovRef [1, 2, 3])\<rparr>) h' = None"
proof -
  have "\<exists>v h. msgpack_vrefbuffer_init 2 64 roomy_heap = Some (Some v, h) \<and> v_array v = Ptr 0 0 \<and> v_cap v = 4 \<and>
      v_chunk_size v = 64 \<and> brk h = 2 \<and> oom h = oom roomy_heap"
    by (simp add: vref_eval roomy_heap_def)
  then obtain v h where v: "msgpack_vrefbuffer_init 2 64 roomy_heap = Some (Some v, h)" "v_array v = Ptr 0 0" "v_cap v = 4"
      "v_chunk_size v = 64" "brk h = 2" "oom h = oom roomy_heap" by blast
  then have "\<exists>w h'. msgpack_vrefbuffer_init 2 64 h = Some (Some w, h') \<and> v_array w = Ptr 2 0 \<and> v_cap w = 4 \<and>
      brk h' = 4 \<and> oom h' = oom roomy_heap"
    by (simp add: vref_eval roomy_heap_def)
  then obtain w h' where w: "msgpack_vrefbuffer_init 2 64 h = Some (Some w, h')" "v_array w = Ptr 2 0" "v_cap w = 4"
      "brk h' = 4" "oom h' = oom roomy_heap" by blast
  obtain h1 where "malloc_c (sizeof_vref_chunk + v_chunk_size v) h' = (Ptr 4 0, h1)"
    using v w by (simp add: malloc_c_def sizeof_vref_chunk_def roomy_heap_def)
  then have "msgpack_vrefbuffer_migrate (\<lambda>b. 4096 * int b) (v\<lparr>v_iov := replicate 3 (IovRef [1, 2, 3])\<rparr>)
       (w\<lparr>v_iov := replicate 3 (IovRef [1, 2, 3])\<rparr>) h' = None"
    using v w by (intro vrefbuffer_migrate_overflows) (auto simp: iov_address_def sizeof_iovec_def)
  then show ?thesis using v(1) w(1) by blast
qed

end
