(* ===== verification/MsgpackUnpacker.thy ===== *)
theory MsgpackUnpacker
  imports MsgpackPack MsgpackUnpack
begin

text \<open>
  The streaming deserializer of \<open>unpack.c\<close> and \<open>unpack.h\<close>: a buffer the client fills, with a
  reference count in its first four bytes, an automaton that reads it and a zone for the
  objects. The count is how raw values, which point into the buffer, outlive it: the zone of
  a finished object holds a reference as a finalizer. \<open>mp_z\<close> is the address of the zone;
  the zone itself is the one the context points to, \<open>u_z\<close> of its user data.
\<close>

record msgpack_unpacker =
  mp_buffer :: ptr
  mp_used :: u64
  mp_free :: u64
  mp_off :: u64
  mp_parsed :: u64
  mp_z :: ptr
  mp_initial_buffer_size :: u64
  mp_ctx :: ptr
  mp_context :: template_context

definition COUNTER_SIZE :: u64 where "COUNTER_SIZE = 4"
definition sizeof_template_context :: u64 where "sizeof_template_context = 2080"
definition sizeof_unpacker :: u64 where "sizeof_unpacker = 64"

definition ctx_referenced :: "msgpack_unpacker \<Rightarrow> bool" where
  "ctx_referenced mpac = u_referenced (c_user (mp_context mpac))"

definition set_referenced :: "bool \<Rightarrow> msgpack_unpacker \<Rightarrow> msgpack_unpacker" where
  "set_referenced b mpac =
     mpac\<lparr>mp_context := (mp_context mpac)\<lparr>c_user := (c_user (mp_context mpac))\<lparr>u_referenced := b\<rparr>\<rparr>\<rparr>"

definition ctx_zone :: "msgpack_unpacker \<Rightarrow> zone option" where
  "ctx_zone mpac = u_z (c_user (mp_context mpac))"

definition set_zone :: "zone option \<Rightarrow> msgpack_unpacker \<Rightarrow> msgpack_unpacker" where
  "set_zone z mpac =
     mpac\<lparr>mp_context := (mp_context mpac)\<lparr>c_user := (c_user (mp_context mpac))\<lparr>u_z := z\<rparr>\<rparr>\<rparr>"

subsection \<open>The reference count\<close>

definition unmem32 :: "endian \<Rightarrow> byte list \<Rightarrow> u32" where
  "unmem32 e bs = msgpack_load32 (if e = LittleEndian then rev bs else bs)"

definition init_count :: "ptr \<Rightarrow> heap \<Rightarrow> heap option" where
  "init_count buffer h = store_bytes buffer (mem32 host 1) h"

definition get_count :: "ptr \<Rightarrow> heap \<Rightarrow> u32 option" where
  "get_count buffer h = do { bs \<leftarrow> load_bytes buffer 4 h; Some (unmem32 host bs) }"

definition decl_count :: "ptr \<Rightarrow> heap \<Rightarrow> heap option" where
  "decl_count buffer h =
     do { c \<leftarrow> get_count buffer h;
          h \<leftarrow> store_bytes buffer (mem32 host (c - 1)) h;
          if c - 1 = 0 then free_c buffer h else Some h }"

definition incr_count :: "ptr \<Rightarrow> heap \<Rightarrow> heap option" where
  "incr_count buffer h =
     do { c \<leftarrow> get_count buffer h; store_bytes buffer (mem32 host (c + 1)) h }"

subsection \<open>Life cycle\<close>

definition msgpack_unpacker_init ::
    "template_context \<Rightarrow> u64 \<Rightarrow> heap \<Rightarrow> (msgpack_unpacker option \<times> heap) option" where
  "msgpack_unpacker_init ctx0 initial_buffer_size h =
     (let sz = (if initial_buffer_size < COUNTER_SIZE then COUNTER_SIZE else initial_buffer_size);
          (buffer, h) = malloc_c sz h in
      if buffer = Null then Some (None, h)
      else
        let (ctx, h) = malloc_c sizeof_template_context h in
        if ctx = Null then do { h \<leftarrow> free_c buffer h; Some (None, h) }
        else do {
          (z, h) \<leftarrow> msgpack_zone_new MSGPACK_ZONE_CHUNK_SIZE h;
          case z of
            None \<Rightarrow> do { h \<leftarrow> free_c ctx h; h \<leftarrow> free_c buffer h; Some (None, h) }
          | Some (zp, zone) \<Rightarrow> do {
              h \<leftarrow> init_count buffer h;
              Some (Some \<lparr>mp_buffer = buffer, mp_used = COUNTER_SIZE, mp_free = sz - COUNTER_SIZE,
                      mp_off = COUNTER_SIZE, mp_parsed = 0, mp_z = zp, mp_initial_buffer_size = sz,
                      mp_ctx = ctx,
                      mp_context = (template_init ctx0)\<lparr>c_user := \<lparr>u_z = Some zone, u_referenced = False\<rparr>\<rparr>\<rparr>,
                    h) } })"

definition msgpack_unpacker_destroy :: "msgpack_unpacker \<Rightarrow> heap \<Rightarrow> heap option" where
  "msgpack_unpacker_destroy mpac h =
     do { h \<leftarrow> msgpack_zone_free (map_option (Pair (mp_z mpac)) (ctx_zone mpac)) h;
          h \<leftarrow> free_c (mp_ctx mpac) h;
          decl_count (mp_buffer mpac) h }"

definition msgpack_unpacker_new ::
    "template_context \<Rightarrow> u64 \<Rightarrow> heap \<Rightarrow> ((ptr \<times> msgpack_unpacker) option \<times> heap) option" where
  "msgpack_unpacker_new ctx0 initial_buffer_size h =
     (let (p, h) = malloc_c sizeof_unpacker h in
      if p = Null then Some (None, h)
      else do {
        (m, h) \<leftarrow> msgpack_unpacker_init ctx0 initial_buffer_size h;
        case m of None \<Rightarrow> do { h \<leftarrow> free_c p h; Some (None, h) }
        | Some m \<Rightarrow> Some (Some (p, m), h) })"

definition msgpack_unpacker_free :: "ptr \<times> msgpack_unpacker \<Rightarrow> heap \<Rightarrow> heap option" where
  "msgpack_unpacker_free mpac h =
     do { h \<leftarrow> msgpack_unpacker_destroy (snd mpac) h; free_c (fst mpac) h }"

subsection \<open>The buffer\<close>

definition unpacker_rewind :: "msgpack_unpacker \<Rightarrow> msgpack_unpacker" where
  "unpacker_rewind mpac =
     mpac\<lparr>mp_free := mp_free mpac + (mp_used mpac - COUNTER_SIZE), mp_used := COUNTER_SIZE, mp_off := COUNTER_SIZE\<rparr>"

text \<open>Nothing parsed yet: the buffer grows in place.\<close>

definition unpacker_grow :: "u64 \<Rightarrow> msgpack_unpacker \<Rightarrow> heap \<Rightarrow> (bool \<times> msgpack_unpacker \<times> heap) option" where
  "unpacker_grow sz mpac h =
     do { next_size \<leftarrow> double_until ((mp_used mpac + mp_free mpac) * 2) (sz + mp_used mpac);
          (tmp, h) \<leftarrow> realloc_c (mp_buffer mpac) next_size h;
          if tmp = Null then Some (False, mpac, h)
          else Some (True, mpac\<lparr>mp_buffer := tmp, mp_free := next_size - mp_used mpac\<rparr>, h) }"

text \<open>The unparsed bytes move to a new buffer; the zone of the unfinished object keeps the old one.\<close>

definition unpacker_move :: "u64 \<Rightarrow> msgpack_unpacker \<Rightarrow> heap \<Rightarrow> (bool \<times> msgpack_unpacker \<times> heap) option" where
  "unpacker_move sz mpac h =
     do { let not_parsed = mp_used mpac - mp_off mpac;
          next_size \<leftarrow> double_until (mp_initial_buffer_size mpac) (sz + not_parsed + COUNTER_SIZE);
          let (tmp, h) = malloc_c next_size h;
          if tmp = Null then Some (False, mpac, h)
          else do {
            h \<leftarrow> init_count tmp h;
            bs \<leftarrow> load_bytes (ptr_add (mp_buffer mpac) (unat (mp_off mpac))) (unat not_parsed) h;
            h \<leftarrow> store_bytes (ptr_add tmp (unat COUNTER_SIZE)) bs h;
            (ok, mpac, h) \<leftarrow>
              (if ctx_referenced mpac then
                 do { zone \<leftarrow> ctx_zone mpac;
                      (r, zone, h) \<leftarrow> msgpack_zone_push_finalizer zone \<lparr>fin_func = decl_count, fin_data = mp_buffer mpac\<rparr> h;
                      let mpac = set_zone (Some zone) mpac;
                      if \<not> r then do { h \<leftarrow> free_c tmp h; Some (False, mpac, h) }
                      else Some (True, set_referenced False mpac, h) }
               else do { h \<leftarrow> decl_count (mp_buffer mpac) h; Some (True, mpac, h) });
            if \<not> ok then Some (False, mpac, h)
            else Some (True, mpac\<lparr>mp_buffer := tmp, mp_used := not_parsed + COUNTER_SIZE,
                     mp_free := next_size - (not_parsed + COUNTER_SIZE), mp_off := COUNTER_SIZE\<rparr>, h) } }"

definition msgpack_unpacker_expand_buffer ::
    "msgpack_unpacker \<Rightarrow> u64 \<Rightarrow> heap \<Rightarrow> (bool \<times> msgpack_unpacker \<times> heap) option" where
  "msgpack_unpacker_expand_buffer mpac sz h =
     do { rewind \<leftarrow> (if mp_used mpac = mp_off mpac then
                      do { c \<leftarrow> get_count (mp_buffer mpac) h; Some (c = 1 \<and> \<not> ctx_referenced mpac) }
                    else Some False);
          let mpac = (if rewind then unpacker_rewind mpac else mpac);
          if rewind \<and> sz \<le> mp_free mpac then Some (True, mpac, h)
          else if mp_off mpac = COUNTER_SIZE then unpacker_grow sz mpac h
          else unpacker_move sz mpac h }"

definition msgpack_unpacker_reserve_buffer ::
    "msgpack_unpacker \<Rightarrow> u64 \<Rightarrow> heap \<Rightarrow> (bool \<times> msgpack_unpacker \<times> heap) option" where
  "msgpack_unpacker_reserve_buffer mpac sz h =
     (if sz \<le> mp_free mpac then Some (True, mpac, h) else msgpack_unpacker_expand_buffer mpac sz h)"

definition msgpack_unpacker_buffer :: "msgpack_unpacker \<Rightarrow> ptr" where
  "msgpack_unpacker_buffer mpac = ptr_add (mp_buffer mpac) (unat (mp_used mpac))"

definition msgpack_unpacker_buffer_capacity :: "msgpack_unpacker \<Rightarrow> u64" where
  "msgpack_unpacker_buffer_capacity mpac = mp_free mpac"

definition msgpack_unpacker_buffer_consumed :: "msgpack_unpacker \<Rightarrow> u64 \<Rightarrow> msgpack_unpacker" where
  "msgpack_unpacker_buffer_consumed mpac sz =
     mpac\<lparr>mp_used := mp_used mpac + sz, mp_free := mp_free mpac - sz\<rparr>"

definition msgpack_unpacker_message_size :: "msgpack_unpacker \<Rightarrow> u64" where
  "msgpack_unpacker_message_size mpac = mp_parsed mpac - mp_off mpac + mp_used mpac"

definition msgpack_unpacker_parsed_size :: "msgpack_unpacker \<Rightarrow> u64" where
  "msgpack_unpacker_parsed_size mpac = mp_parsed mpac"

subsection \<open>Parsing\<close>

text \<open>The automaton reads the first \<open>used\<close> bytes of the buffer.\<close>

definition msgpack_unpacker_execute ::
    "msgpack_unpacker \<Rightarrow> heap \<Rightarrow> (int \<times> msgpack_unpacker \<times> heap) option" where
  "msgpack_unpacker_execute mpac h =
     do { data \<leftarrow> load_bytes (mp_buffer mpac) (unat (mp_used mpac)) h;
          (ret, ctx, off, h) \<leftarrow> template_execute (mp_context mpac) data (unat (mp_off mpac)) h;
          let new_off = of_nat off;
          let mpac = (if mp_off mpac < new_off
                      then mpac\<lparr>mp_parsed := mp_parsed mpac + (new_off - mp_off mpac)\<rparr> else mpac);
          Some (ret, mpac\<lparr>mp_context := ctx, mp_off := new_off\<rparr>, h) }"

definition msgpack_unpacker_data :: "msgpack_unpacker \<Rightarrow> mobj" where
  "msgpack_unpacker_data mpac = template_data (mp_context mpac)"

definition msgpack_unpacker_flush_zone ::
    "msgpack_unpacker \<Rightarrow> heap \<Rightarrow> (bool \<times> msgpack_unpacker \<times> heap) option" where
  "msgpack_unpacker_flush_zone mpac h =
     (if ctx_referenced mpac then
        do { zone \<leftarrow> ctx_zone mpac;
             (r, zone, h) \<leftarrow> msgpack_zone_push_finalizer zone \<lparr>fin_func = decl_count, fin_data = mp_buffer mpac\<rparr> h;
             let mpac = set_zone (Some zone) mpac;
             if \<not> r then Some (False, mpac, h)
             else do { h \<leftarrow> incr_count (mp_buffer mpac) h; Some (True, set_referenced False mpac, h) } }
      else Some (True, mpac, h))"

definition msgpack_unpacker_release_zone ::
    "msgpack_unpacker \<Rightarrow> heap \<Rightarrow> (zone_ref \<times> msgpack_unpacker \<times> heap) option" where
  "msgpack_unpacker_release_zone mpac h =
     do { (ok, mpac, h) \<leftarrow> msgpack_unpacker_flush_zone mpac h;
          if \<not> ok then Some (None, mpac, h)
          else do {
            (r, h) \<leftarrow> msgpack_zone_new MSGPACK_ZONE_CHUNK_SIZE h;
            case r of
              None \<Rightarrow> Some (None, mpac, h)
            | Some (p, z) \<Rightarrow>
                Some (map_option (Pair (mp_z mpac)) (ctx_zone mpac), set_zone (Some z) (mpac\<lparr>mp_z := p\<rparr>), h) } }"

definition msgpack_unpacker_reset_zone ::
    "msgpack_unpacker \<Rightarrow> heap \<Rightarrow> (msgpack_unpacker \<times> heap) option" where
  "msgpack_unpacker_reset_zone mpac h =
     do { zone \<leftarrow> ctx_zone mpac; (zone, h) \<leftarrow> msgpack_zone_clear zone h; Some (set_zone (Some zone) mpac, h) }"

definition msgpack_unpacker_reset :: "msgpack_unpacker \<Rightarrow> msgpack_unpacker" where
  "msgpack_unpacker_reset mpac = mpac\<lparr>mp_context := template_init (mp_context mpac), mp_parsed := 0\<rparr>"

definition msgpack_unpacker_next ::
    "msgpack_unpacker \<Rightarrow> msgpack_unpacked \<Rightarrow> heap \<Rightarrow> (bool \<times> msgpack_unpacker \<times> msgpack_unpacked \<times> heap) option" where
  "msgpack_unpacker_next mpac result h =
     do { h \<leftarrow> (if up_zone result \<noteq> None then msgpack_zone_free (up_zone result) h else Some h);
          (ret, mpac, h) \<leftarrow> msgpack_unpacker_execute mpac h;
          if ret \<le> 0 then Some (False, mpac, \<lparr>up_zone = None, up_data = MNil\<rparr>, h)
          else do {
            (z, mpac, h) \<leftarrow> msgpack_unpacker_release_zone mpac h;
            let result = \<lparr>up_zone = z, up_data = msgpack_unpacker_data mpac\<rparr>;
            Some (True, msgpack_unpacker_reset mpac, result, h) } }"

subsection \<open>Reference counts\<close>

lemma unmem32_mem32 [simp]: "unmem32 e (mem32 e x) = x"
proof -
  have "mem32 LittleEndian x = rev (be_bytes32 x)" "mem32 BigEndian x = be_bytes32 x"
    by (simp_all add: mem32_def be_bytes32_def)
  then show ?thesis by (cases e) (simp_all add: unmem32_def)
qed

lemma length_mem32 [simp]: "length (mem32 e x) = 4"
  by (simp add: mem32_def Let_def)

lemma get_count_eq:
  assumes "blocks h b = Some blk" "bytes_at (bdata blk) 0 n = Some bs" "4 \<le> n" "n \<le> bsize blk"
  shows "get_count (Ptr b 0) h = Some (unmem32 host (take 4 bs))"
  using assms bytes_at_parts(1) [OF assms(2,3)] by (simp add: get_count_def load_bytes_def)

lemma decl_count_ok:
  assumes "blocks h b = Some blk" "bytes_at (bdata blk) 0 n = Some bs" "4 \<le> n" "n \<le> bsize blk"
  shows "\<exists>h'. decl_count (Ptr b 0) h = Some h' \<and> (\<forall>c. c \<noteq> b \<longrightarrow> blocks h' c = blocks h c) \<and>
    brk h' = brk h \<and> oom h' = oom h"
proof -
  have ne: "mem32 host c \<noteq> []" for c using length_mem32 [of host c] by fastforce
  show ?thesis using assms get_count_eq [OF assms] ne
    by (simp add: decl_count_def store_bytes_def free_c_def live_def)
qed

subsection \<open>Making room\<close>

text \<open>
  The unpacker between two calls: \<open>bs\<close> are the \<open>used\<close> bytes of its buffer, count included. A buffer of
  which nothing has been parsed has no other owner.
\<close>

definition mpac_ok :: "msgpack_unpacker \<Rightarrow> heap \<Rightarrow> byte list \<Rightarrow> nat list \<Rightarrow> bool" where
  "mpac_ok mp h bs zb \<longleftrightarrow> wf_heap h \<and> big_fails h \<and>
     (\<exists>b blk z. mp_buffer mp = Ptr b 0 \<and> blocks h b = Some blk \<and> bsize blk = unat (mp_used mp) + unat (mp_free mp) \<and>
        bsize blk < 2 ^ 63 \<and> bytes_at (bdata blk) 0 (unat (mp_used mp)) = Some bs \<and>
        ctx_zone mp = Some z \<and> zone_ok h z zb \<and> b \<notin> zone_blocks z zb) \<and>
     4 \<le> mp_off mp \<and> mp_off mp \<le> mp_used mp \<and> 4 \<le> mp_initial_buffer_size mp \<and> mp_initial_buffer_size mp \<le> 2 ^ 62 \<and>
     (mp_off mp = 4 \<longrightarrow> \<not> ctx_referenced mp \<and> unmem32 host (take 4 bs) = 1)"

lemma mpac_okI:
  assumes "wf_heap h" "big_fails h" "mp_buffer mp = Ptr b 0" "blocks h b = Some blk"
    "bsize blk = unat (mp_used mp) + unat (mp_free mp)" "bsize blk < 2 ^ 63"
    "bytes_at (bdata blk) 0 (unat (mp_used mp)) = Some bs"
    "ctx_zone mp = Some z" "zone_ok h z zb" "b \<notin> zone_blocks z zb"
    "4 \<le> mp_off mp" "mp_off mp \<le> mp_used mp" "4 \<le> mp_initial_buffer_size mp" "mp_initial_buffer_size mp \<le> 2 ^ 62"
    "mp_off mp = 4 \<Longrightarrow> \<not> ctx_referenced mp \<and> unmem32 host (take 4 bs) = 1"
  shows "mpac_ok mp h bs zb"
  using assms by (auto simp: mpac_ok_def)

lemma zone_blocks_live: "zone_ok h z zb \<Longrightarrow> c \<in> zone_blocks z zb \<Longrightarrow> blocks h c \<noteq> None"
  using chunk_path_live [of h "cl_head (z_chunks z)" zb c]
  by (auto simp: zone_blocks_def zone_ok_def fins_ok_def live_def split: ptr.splits option.splits)

lemma zone_ok_cong:
  assumes z: "zone_ok h z zb" and "wf_heap h'" and same: "\<And>c. c \<in> zone_blocks z zb \<Longrightarrow> blocks h' c = blocks h c"
  shows "zone_ok h' z zb"
proof -
  have "fins_ok h' (z_fins z) (set zb)"
    using z same by (auto simp: zone_ok_def fins_ok_def zone_blocks_def split: ptr.splits)
  moreover have "blocks h' c = blocks h c" if "c \<in> set zb" for c using same that by (simp add: zone_blocks_def)
  ultimately have "zone_ok h' (z\<lparr>z_fins := z_fins z\<rparr>) zb" by (rule zone_ok_frame(1) [OF z assms(2)])
  then show ?thesis by simp
qed

lemma unpacker_rewind_ok:
  assumes ok: "mpac_ok mp h bs zb" and off: "mp_used mp = mp_off mp"
    and c: "unmem32 host (take 4 bs) = 1" "\<not> ctx_referenced mp"
  shows "mpac_ok (unpacker_rewind mp) h (take 4 bs) zb" "drop (unat (mp_off mp)) bs = []" "length bs = unat (mp_used mp)"
    "mp_free mp \<le> mp_free (unpacker_rewind mp)"
proof -
  obtain b blk z where b: "mp_buffer mp = Ptr b 0" "blocks h b = Some blk" "bsize blk = unat (mp_used mp) + unat (mp_free mp)"
      "bsize blk < 2 ^ 63" "bytes_at (bdata blk) 0 (unat (mp_used mp)) = Some bs"
      "ctx_zone mp = Some z" "zone_ok h z zb" "b \<notin> zone_blocks z zb"
    using ok by (auto simp: mpac_ok_def)
  have four: "4 \<le> unat (mp_used mp)" using ok off by (simp add: mpac_ok_def word_le_nat_alt)
  then have u: "unat (mp_free mp + (mp_used mp - 4)) = unat (mp_free mp) + unat (mp_used mp) - 4"
    using b(3,4) by (simp add: unat_word_ariths unat_sub word_le_nat_alt)
  have "bytes_at (bdata blk) 0 4 = Some (take 4 bs)" using bytes_at_parts(1) [OF b(5) four] .
  then show "mpac_ok (unpacker_rewind mp) h (take 4 bs) zb"
    using ok b u four c by (auto simp: mpac_ok_def unpacker_rewind_def COUNTER_SIZE_def ctx_zone_def ctx_referenced_def)
  show "length bs = unat (mp_used mp)" using b(5) bytes_at_length by blast
  then show "drop (unat (mp_off mp)) bs = []" using off by simp
  show "mp_free mp \<le> mp_free (unpacker_rewind mp)"
    using u four by (simp add: unpacker_rewind_def COUNTER_SIZE_def word_le_nat_alt)
qed

lemma unpacker_grow_ok:
  assumes ok: "mpac_ok mp h bs zb" and off: "mp_off mp = 4" and small: "unat sz + unat (mp_used mp) \<le> 2 ^ 62"
  shows "\<exists>r mp' h'. unpacker_grow sz mp h = Some (r, mp', h') \<and> mpac_ok mp' h' bs zb \<and> mp_off mp' = 4 \<and>
    mp_context mp' = mp_context mp \<and> (r \<longrightarrow> sz \<le> mp_free mp')"
proof -
  obtain b blk z where b: "mp_buffer mp = Ptr b 0" "blocks h b = Some blk" "bsize blk = unat (mp_used mp) + unat (mp_free mp)"
      "bsize blk < 2 ^ 63" "bytes_at (bdata blk) 0 (unat (mp_used mp)) = Some bs"
      "ctx_zone mp = Some z" "zone_ok h z zb" "b \<notin> zone_blocks z zb"
    using ok by (auto simp: mpac_ok_def)
  have four: "4 \<le> unat (mp_used mp)" using ok off by (simp add: mpac_ok_def word_le_nat_alt)
  have need: "unat (sz + mp_used mp) = unat sz + unat (mp_used mp)" using small by (simp add: unat_word_ariths)
  have "unat (mp_used mp + mp_free mp) = bsize blk" using b(3,4) by (simp add: unat_word_ariths)
  then have n0: "unat ((mp_used mp + mp_free mp) * 2) = 2 * bsize blk"
    using unat_double [of "mp_used mp + mp_free mp"] b(4) by metis
  obtain n where n: "double_until ((mp_used mp + mp_free mp) * 2) (sz + mp_used mp) = Some n"
    "sz + mp_used mp \<le> n" "2 * bsize blk \<le> unat n"
    using double_until_returns [of "(mp_used mp + mp_free mp) * 2" "sz + mp_used mp"] n0 need small four b(3)
    by (auto simp: word_less_nat_alt word_le_nat_alt)
  have un: "unat sz + unat (mp_used mp) \<le> unat n" using n(2) need by (simp add: word_le_nat_alt)
  have fresh: "blocks h (brk h) = None" using ok by (simp add: mpac_ok_def wf_heap_def)
  show ?thesis
  proof (cases "oom h (brk h) (unat n)")
    case True
    let ?h = "h\<lparr>brk := Suc (brk h)\<rparr>"
    have wf: "wf_heap ?h" using ok by (auto simp: mpac_ok_def wf_heap_def)
    then have "mpac_ok mp ?h bs zb" using ok b zone_ok_cong [OF b(7) wf]
      by (auto simp: mpac_ok_def big_fails_def)
    moreover have "unpacker_grow sz mp h = Some (False, mp, ?h)"
      using True n(1) b(1,2) by (simp add: unpacker_grow_def realloc_c_def)
    ultimately show ?thesis using off by blast
  next
    case False
    then have lt: "unat n < 2 ^ 63" using ok by (auto simp: mpac_ok_def big_fails_def not_less [symmetric])
    let ?blk = "\<lparr>bsize = unat n, bdata = (\<lambda>i. if i < unat n then bdata blk i else None), bnext = bnext blk\<rparr>"
    let ?h = "h\<lparr>blocks := ((blocks h)(b := None))(brk h \<mapsto> ?blk), brk := Suc (brk h)\<rparr>"
    let ?mp = "mp\<lparr>mp_buffer := Ptr (brk h) 0, mp_free := n - mp_used mp\<rparr>"
    have run: "unpacker_grow sz mp h = Some (True, ?mp, ?h)"
      using False n(1) b(1,2) by (simp add: unpacker_grow_def realloc_c_def)
    have wf: "wf_heap ?h" using ok by (auto simp: mpac_ok_def wf_heap_def)
    have nz: "brk h \<notin> zone_blocks z zb" using zone_blocks_live [OF b(7)] fresh by blast
    have "zone_ok ?h z zb" using b(8) nz by (intro zone_ok_cong [OF b(7) wf]) auto
    moreover have "bytes_at (bdata ?blk) 0 (unat (mp_used mp)) = Some bs"
      using b(3,5) n(3) by (subst b(5) [symmetric], intro bytes_at_cong) auto
    moreover have "unat (n - mp_used mp) = unat n - unat (mp_used mp)"
      using un by (simp add: unat_sub word_le_nat_alt)
    ultimately have "mpac_ok ?mp ?h bs zb" "sz \<le> n - mp_used mp"
      using ok wf nz b(6) un lt
      by (auto simp: mpac_ok_def big_fails_def ctx_zone_def ctx_referenced_def word_le_nat_alt)
    with run off show ?thesis by (intro exI [of _ True] exI [of _ ?mp] exI [of _ ?h]) simp
  qed
qed

text \<open>The move to a new buffer.\<close>

lemma unpacker_move_ok:
  assumes ok: "mpac_ok mp h bs zb" and off: "mp_off mp \<noteq> 4" and small: "unat sz + unat (mp_used mp) \<le> 2 ^ 62"
    and few: "\<And>z. ctx_zone mp = Some z \<Longrightarrow> length (fa_items (z_fins z)) < 2 ^ 58"
  shows "\<exists>r mp' h' bs'. unpacker_move sz mp h = Some (r, mp', h') \<and> mpac_ok mp' h' bs' zb \<and>
    drop (unat (mp_off mp')) bs' = drop (unat (mp_off mp)) bs \<and>
    c_stack (mp_context mp') = c_stack (mp_context mp) \<and> (r \<longrightarrow> sz \<le> mp_free mp') \<and>
    (r \<longrightarrow> ctx_referenced mp \<longrightarrow> blocks h' (pblock (mp_buffer mp)) = blocks h (pblock (mp_buffer mp)) \<and>
       (\<exists>z'. ctx_zone mp' = Some z' \<and> \<lparr>fin_func = decl_count, fin_data = mp_buffer mp\<rparr> \<in> set (fa_items (z_fins z'))))"
proof -
  obtain b blk z where b: "mp_buffer mp = Ptr b 0" "blocks h b = Some blk" "bsize blk = unat (mp_used mp) + unat (mp_free mp)"
      "bsize blk < 2 ^ 63" "bytes_at (bdata blk) 0 (unat (mp_used mp)) = Some bs"
      "ctx_zone mp = Some z" "zone_ok h z zb" "b \<notin> zone_blocks z zb"
    using ok by (auto simp: mpac_ok_def)
  have o: "4 \<le> unat (mp_off mp)" "unat (mp_off mp) \<le> unat (mp_used mp)"
    "4 \<le> unat (mp_initial_buffer_size mp)" "unat (mp_initial_buffer_size mp) \<le> 2 ^ 62"
    using ok by (simp_all add: mpac_ok_def word_le_nat_alt)
  define rest where "rest = drop (unat (mp_off mp)) bs"
  let ?np = "mp_used mp - mp_off mp"
  have np: "unat ?np = unat (mp_used mp) - unat (mp_off mp)" using o by (simp add: unat_sub word_le_nat_alt)
  have lrest: "length rest = unat ?np" using bytes_at_length [OF b(5)] np by (simp add: rest_def)
  have need: "unat (sz + ?np + 4) = unat sz + unat ?np + 4" using small np by (simp add: unat_word_ariths)
  obtain n where n: "double_until (mp_initial_buffer_size mp) (sz + ?np + 4) = Some n" "sz + ?np + 4 \<le> n"
  proof -
    have "0 < mp_initial_buffer_size mp" "unat (sz + ?np + 4) \<le> 2 ^ 63"
      using need small np o by (simp_all add: word_less_nat_alt)
    from double_until_returns [OF this] that show ?thesis by blast
  qed
  have un: "unat sz + unat ?np + 4 \<le> unat n" using n(2) need by (simp add: word_le_nat_alt)
  have fresh: "blocks h (brk h) = None" using ok by (simp add: mpac_ok_def wf_heap_def)
  have nb: "brk h \<noteq> b" "brk h \<notin> zone_blocks z zb" using fresh b(2) zone_blocks_live [OF b(7), of "brk h"] by auto
  show ?thesis
  proof (cases "oom h (brk h) (unat n)")
    case True
    let ?h = "h\<lparr>brk := Suc (brk h)\<rparr>"
    have wf: "wf_heap ?h" using ok by (auto simp: mpac_ok_def wf_heap_def)
    then have "mpac_ok mp ?h bs zb" using ok b zone_ok_cong [OF b(7) wf]
      by (auto simp: mpac_ok_def big_fails_def)
    moreover have "unpacker_move sz mp h = Some (False, mp, ?h)"
      using True n(1) by (simp add: unpacker_move_def malloc_c_def COUNTER_SIZE_def Let_def)
    ultimately show ?thesis by blast
  next
    case False
    then have lt: "unat n < 2 ^ 63" using ok by (auto simp: mpac_ok_def big_fails_def not_less [symmetric])
    let ?t = "Ptr (brk h) 0"
    define h1 where "h1 = snd (malloc_c n h)"
    have h1: "malloc_c n h = (?t, h1)" "blocks h1 = (blocks h)(brk h \<mapsto> \<lparr>bsize = unat n, bdata = (\<lambda>_. None), bnext = None\<rparr>)"
      "brk h1 = Suc (brk h)" "oom h1 = oom h"
      using False by (simp_all add: malloc_c_def h1_def)
    have four: "length (mem32 host 1) = 4" "mem32 host 1 \<noteq> []" using length_mem32 [of host 1] by fastforce+
    let ?d2 = "\<lambda>i. if 0 \<le> i \<and> i < 0 + length (mem32 host 1) then Some (mem32 host 1 ! (i - 0)) else None"
    let ?d3 = "\<lambda>i. if 4 \<le> i \<and> i < 4 + length rest then Some (rest ! (i - 4)) else ?d2 i"
    define h2 where "h2 = h1\<lparr>blocks := (blocks h)(brk h \<mapsto> \<lparr>bsize = unat n, bdata = ?d2, bnext = None\<rparr>)\<rparr>"
    have h2: "init_count ?t h1 = Some h2" "blocks h2 = (blocks h)(brk h \<mapsto> \<lparr>bsize = unat n, bdata = ?d2, bnext = None\<rparr>)"
      "brk h2 = Suc (brk h)" "oom h2 = oom h"
      using h1 four un by (auto simp: init_count_def store_bytes_def h2_def cong: if_cong)
    have load: "load_bytes (ptr_add (mp_buffer mp) (unat (mp_off mp))) (unat ?np) h2 = Some rest"
      using b h2(2) nb o np bytes_at_parts(2) [OF b(5) o(2)] lrest
      by (auto simp: load_bytes_def ptr_add_def rest_def [symmetric])
    define h3 where "h3 = h2\<lparr>blocks := (blocks h)(brk h \<mapsto> \<lparr>bsize = unat n, bdata = ?d3, bnext = None\<rparr>)\<rparr>"
    have d3: "?d3 = ?d2" if "rest = []" by (rule ext) (use that in auto)
    have st: "store_bytes (ptr_add ?t 4) rest h2 = Some h3"
    proof (cases "rest = []")
      case True
      then show ?thesis unfolding h3_def d3 [OF True] using h2 by (simp add: store_bytes_def)
    next
      case False
      then show ?thesis using h2 un lrest by (simp add: store_bytes_def ptr_add_def h3_def four cong: if_cong)
    qed
    have h3: "store_bytes (ptr_add ?t 4) rest h2 = Some h3"
        "blocks h3 = (blocks h)(brk h \<mapsto> \<lparr>bsize = unat n, bdata = ?d3, bnext = None\<rparr>)" "brk h3 = Suc (brk h)" "oom h3 = oom h"
      using st h2 by (simp_all add: h3_def)
    have bytes: "bytes_at ?d3 0 (4 + unat ?np) = Some (mem32 host 1 @ rest)"
      using load_after_store [OF bytes_at_written [of 0 "mem32 host 1" "\<lambda>_. None"], of rest]
      unfolding four(1) lrest .
    define blk3 where "blk3 = \<lparr>bsize = unat n, bdata = ?d3, bnext = None\<rparr>"
    have blk3: "bsize blk3 = unat n" "bytes_at (bdata blk3) 0 (unat ?np + 4) = Some (mem32 host 1 @ rest)"
      using bytes by (simp_all add: blk3_def add.commute del: One_nat_def)
    note h3 = h3 [folded blk3_def]
    let ?mp = "\<lambda>mp. mp\<lparr>mp_buffer := ?t, mp_used := ?np + 4, mp_free := n - (?np + 4), mp_off := 4\<rparr>"
    let ?fin = "\<lparr>fin_func = decl_count, fin_data = mp_buffer mp\<rparr>"
    have sizes: "unat (?np + 4) = unat ?np + 4" "unat (n - (?np + 4)) = unat n - (unat ?np + 4)" "sz \<le> n - (?np + 4)"
    proof -
      show u: "unat (?np + 4) = unat ?np + 4" using un lt by (simp add: unat_word_ariths)
      show "unat (n - (?np + 4)) = unat n - (unat ?np + 4)" using un u by (simp add: unat_sub word_le_nat_alt)
      with un show "sz \<le> n - (?np + 4)" by (simp add: word_le_nat_alt)
    qed
    have wf3: "wf_heap h3" using ok h3 by (auto simp: mpac_ok_def wf_heap_def)
    have z3: "zone_ok h3 z zb" using nb h3 by (intro zone_ok_cong [OF b(7) wf3]) auto
    note newok = sizes blk3 four un lt
    show ?thesis
    proof (cases "ctx_referenced mp")
      case ref: True
      obtain r z4 h4 where push: "msgpack_zone_push_finalizer z ?fin h3 = Some (r, z4, h4)"
        using push_finalizer_returns [OF z3, of ?fin] by auto
      have reg: "regions_ok h3 z zb []" by (simp add: regions_ok_def)
      note p = push_finalizer_ok [OF z3 reg few [OF b(6)] push]
      have nz4: "b \<notin> zone_blocks z4 zb" "brk h \<notin> zone_blocks z4 zb"
        using p b(2,8) h3 nb by (auto simp: zone_frame_def) 
      have oom4: "oom h4 = oom h" using push h3(4)
        by (auto simp: msgpack_zone_push_finalizer_def msgpack_zone_push_finalizer_expand_def Let_def bind_Some_iff
            realloc_c_def malloc_c_def split: if_splits ptr.splits option.splits)
      have same: "blocks h4 b = blocks h b" "blocks h4 (brk h) = blocks h3 (brk h)"
        using p nz4 b(8) nb h3(2) by (auto simp: zone_frame_def)
      let ?mp1 = "set_zone (Some z4) mp"
      have run: "unpacker_move sz mp h =
         (if \<not> r then do { h \<leftarrow> free_c ?t h4; Some (False, ?mp1, h) }
          else Some (True, ?mp (set_referenced False ?mp1), h4))"
        using n(1) h1(1) h2(1) load h3(1) ref b(6) push
        by (simp add: unpacker_move_def COUNTER_SIZE_def Let_def set_zone_def set_referenced_def)
      show ?thesis
      proof (cases r)
        case True
        have "mpac_ok (?mp (set_referenced False ?mp1)) h4 (mem32 host 1 @ rest) zb"
          using ok p nz4 oom4 same(2) h3(2) newok
          by (intro mpac_okI [where b = "brk h" and blk = blk3 and z = z4])
            (simp_all add: mpac_ok_def big_fails_def ctx_zone_def ctx_referenced_def set_zone_def set_referenced_def
              zone_ok_def word_le_nat_alt)
        then show ?thesis using run True sizes(3) same(1) p b(1) four(1)
          by (auto simp: rest_def ctx_zone_def set_zone_def set_referenced_def)
      next
        case False
        let ?h5 = "h4\<lparr>blocks := (blocks h4)(brk h := None)\<rparr>"
        have "free_c ?t h4 = Some ?h5" using same(2) h3(2) by (simp add: free_c_def live_def)
        moreover have wf5: "wf_heap ?h5" using p by (auto simp: zone_ok_def wf_heap_def)
        have "zone_ok ?h5 z4 zb" using p nz4 by (intro zone_ok_cong [OF _ wf5]) auto
        then have "mpac_ok ?mp1 ?h5 bs zb"
          using ok wf5 b nb(1) nz4 oom4 same(1)
          by (auto simp: mpac_ok_def big_fails_def ctx_zone_def ctx_referenced_def set_zone_def)
        ultimately show ?thesis using run False by (auto simp: set_zone_def)
      qed
    next
      case nref: False
      have b3: "blocks h3 b = Some blk" using h3(2) b(2) nb by simp
      obtain h4 where h4: "decl_count (mp_buffer mp) h3 = Some h4" "\<forall>c. c \<noteq> b \<longrightarrow> blocks h4 c = blocks h3 c"
          "brk h4 = brk h3" "oom h4 = oom h3"
        using decl_count_ok [OF b3 b(5)] o b(1,3) by auto
      have run: "unpacker_move sz mp h = Some (True, ?mp mp, h4)"
        using n(1) h1(1) h2(1) load h3(1) nref h4(1)
        by (simp add: unpacker_move_def COUNTER_SIZE_def Let_def)
      have "blocks h4 c = None" if "brk h3 \<le> c" for c
        using that h4(2) wf3 b3 by (cases "c = b") (auto simp: wf_heap_def)
      then have wf4: "wf_heap h4" using h4(3) by (simp add: wf_heap_def)
      have "zone_ok h4 z zb" using z3 wf4 h4(2) b(8) by (intro zone_ok_cong [OF z3]) auto
      then have "mpac_ok (?mp mp) h4 (mem32 host 1 @ rest) zb"
        using ok wf4 b(6) nb h3 h4 nref newok
        by (intro mpac_okI [where b = "brk h" and blk = blk3 and z = z])
          (simp_all add: mpac_ok_def big_fails_def ctx_zone_def ctx_referenced_def word_le_nat_alt)
      then show ?thesis using run nref sizes(3) four(1) by (auto simp: rest_def)
    qed
  qed
qed

lemma unpacker_expand_ok:
  assumes ok: "mpac_ok mp h bs zb" and small: "unat sz + unat (mp_used mp) \<le> 2 ^ 62"
    and few: "\<And>z. ctx_zone mp = Some z \<Longrightarrow> length (fa_items (z_fins z)) < 2 ^ 58"
  shows "\<exists>r mp' h' bs'. msgpack_unpacker_expand_buffer mp sz h = Some (r, mp', h') \<and> mpac_ok mp' h' bs' zb \<and>
    drop (unat (mp_off mp')) bs' = drop (unat (mp_off mp)) bs \<and> (r \<longrightarrow> sz \<le> mp_free mp') \<and>
    (r \<longrightarrow> ctx_referenced mp \<longrightarrow> blocks h' (pblock (mp_buffer mp)) = blocks h (pblock (mp_buffer mp)) \<and>
       (\<exists>z'. ctx_zone mp' = Some z' \<and> \<lparr>fin_func = decl_count, fin_data = mp_buffer mp\<rparr> \<in> set (fa_items (z_fins z'))))"
proof -
  have count: "get_count (mp_buffer mp) h = Some (unmem32 host (take 4 bs))"
    using ok get_count_eq [of h _ _ "unat (mp_used mp)" bs] by (auto simp: mpac_ok_def word_le_nat_alt)
  let ?rw = "mp_used mp = mp_off mp \<and> unmem32 host (take 4 bs) = 1 \<and> \<not> ctx_referenced mp"
  have run: "msgpack_unpacker_expand_buffer mp sz h =
      (let mpac = if ?rw then unpacker_rewind mp else mp in
       if ?rw \<and> sz \<le> mp_free mpac then Some (True, mpac, h)
       else if mp_off mpac = 4 then unpacker_grow sz mpac h else unpacker_move sz mpac h)"
    using count by (simp add: msgpack_unpacker_expand_buffer_def COUNTER_SIZE_def Let_def)
  show ?thesis
  proof (cases ?rw)
    case True
    let ?mp = "unpacker_rewind mp"
    have o: "mp_off ?mp = 4" "mp_used ?mp = 4" by (simp_all add: unpacker_rewind_def COUNTER_SIZE_def)
    note rw = unpacker_rewind_ok [of mp h bs zb] 
    have ok': "mpac_ok ?mp h (take 4 bs) zb" and d: "drop (unat (mp_off mp)) bs = []"
      using rw ok True by auto
    have "unat sz + unat (mp_used ?mp) \<le> 2 ^ 62"
      using small ok True o by (simp add: mpac_ok_def word_le_nat_alt)
    from unpacker_grow_ok [OF ok' o(1) this] obtain r mp' h' where g: "unpacker_grow sz ?mp h = Some (r, mp', h')"
      "mpac_ok mp' h' (take 4 bs) zb" "mp_off mp' = 4" "r \<longrightarrow> sz \<le> mp_free mp'" by blast
    show ?thesis
    proof (cases "sz \<le> mp_free ?mp")
      case fits: True
      then have "msgpack_unpacker_expand_buffer mp sz h = Some (True, ?mp, h)"
        using run True by (simp add: Let_def)
      with ok' d o True fits show ?thesis by (intro exI [of _ True] exI [of _ ?mp] exI [of _ h] exI [of _ "take 4 bs"]) simp
    next
      case False
      then have "msgpack_unpacker_expand_buffer mp sz h = Some (r, mp', h')"
        using run True o g(1) by (simp add: Let_def)
      with g d o True show ?thesis
        by (intro exI [of _ r] exI [of _ mp'] exI [of _ h'] exI [of _ "take 4 bs"]) simp
    qed
  next
    case norw: False
    then have run': "msgpack_unpacker_expand_buffer mp sz h =
        (if mp_off mp = 4 then unpacker_grow sz mp h else unpacker_move sz mp h)"
      using run by (auto simp: Let_def)
    show ?thesis
    proof (cases "mp_off mp = 4")
      case True
      then have "\<not> ctx_referenced mp" using ok by (simp add: mpac_ok_def)
      with unpacker_grow_ok [OF ok True small] run' True show ?thesis by metis
    next
      case False
      with unpacker_move_ok [OF ok False small few] run' show ?thesis by metis
    qed
  qed
qed

lemma zone_new_ok:
  assumes wf: "wf_heap h" and cs: "0 < cs" "cs \<le> 2 ^ 62"
  shows "\<exists>r h'. msgpack_zone_new cs h = Some (r, h') \<and> wf_heap h' \<and> oom h' = oom h \<and> brk h \<le> brk h' \<and>
    (\<forall>b < brk h. blocks h' b = blocks h b) \<and>
    (\<forall>p z. r = Some (p, z) \<longrightarrow> (\<exists>bs. zone_ok h' z bs \<and> (\<forall>b \<in> zone_blocks z bs. brk h \<le> b) \<and> fa_items (z_fins z) = []))"
proof -
  have u: "unat (8 + cs) = 8 + unat cs" using cs by (simp add: unat_word_ariths word_le_nat_alt)
  obtain p1 h1 where m1: "malloc_c (56 + cs) h = (p1, h1)" by fastforce
  obtain p2 h2 where m2: "malloc_c (8 + cs) h1 = (p2, h2)" by fastforce
  note defs = msgpack_zone_new_def init_chunk_list_def sizeof_zone_def sizeof_chunk_def Let_def
  note wfs = malloc_wf [OF m1 wf] malloc_wf [OF m2 malloc_wf [OF m1 wf]]
  from m1 show ?thesis
  proof (cases rule: malloc_cases)
    case fails
    then show ?thesis using m1 wfs(1) by (simp add: defs)
  next
    case w1: works
    from m2 show ?thesis
    proof (cases rule: malloc_cases)
      case fails
      then have "free_c p1 h2 = Some (h2\<lparr>blocks := (blocks h2)(brk h := None)\<rparr>)"
        using w1 by (simp add: free_c_def live_def)
      then show ?thesis using m1 m2 w1 fails wfs(2) by (auto simp: defs wf_heap_def)
    next
      case w2: works
      let ?z = "\<lparr>z_chunks = \<lparr>cl_free = cs, cl_ptr = Ptr (Suc (brk h)) 8, cl_head = Ptr (Suc (brk h)) 0\<rparr>,
         z_fins = init_finalizer_array, z_chunk_size = cs\<rparr>"
      let ?h = "h2\<lparr>blocks := (blocks h2)(Suc (brk h) \<mapsto> \<lparr>bsize = 8 + unat cs, bdata = \<lambda>_. None, bnext = Some Null\<rparr>)\<rparr>"
      have "set_next p2 Null h2 = Some ?h" using w1 w2 u by (simp add: set_next_def)
      then have run: "msgpack_zone_new cs h = Some (Some (p1, ?z), ?h)"
        using m1 m2 w1 w2 by (simp add: defs ptr_add_def)
      have "wf_heap ?h" using wfs(2) w1 w2 by (simp add: wf_heap_def)
      moreover from this have "zone_ok ?h ?z [Suc (brk h)]"
        using cs by (simp add: zone_ok_def fins_ok_def init_finalizer_array_def)
      moreover have "\<forall>b \<in> zone_blocks ?z [Suc (brk h)]. brk h \<le> b"
        by (simp add: zone_blocks_def init_finalizer_array_def)
      ultimately show ?thesis using w1 w2 run by (auto simp: init_finalizer_array_def)
    qed
  qed
qed

lemma unpacker_init_ok:
  assumes h: "wf_heap h" "big_fails h" and n: "n \<le> 2 ^ 62"
  shows "\<exists>r h'. msgpack_unpacker_init ctx0 n h = Some (r, h') \<and>
    (\<forall>mp. r = Some mp \<longrightarrow> (\<exists>bs zb z. mpac_ok mp h' bs zb \<and> drop (unat (mp_off mp)) bs = [] \<and> mp_used mp = 4 \<and>
       ctx_zone mp = Some z \<and> fa_items (z_fins z) = []))"
proof -
  define s where "s = (if n < COUNTER_SIZE then COUNTER_SIZE else n)"
  have s: "4 \<le> unat s" "unat s \<le> 2 ^ 62"
    using n by (auto simp: s_def COUNTER_SIZE_def word_le_nat_alt word_less_nat_alt)
  have four: "length (mem32 host 1) = 4" "mem32 host 1 \<noteq> []" using length_mem32 [of host 1] by fastforce+
  obtain p1 h1 where m1: "malloc_c s h = (p1, h1)" by fastforce
  obtain p2 h2 where m2: "malloc_c sizeof_template_context h1 = (p2, h2)" by fastforce
  note wfs = malloc_wf [OF m1 h(1)] malloc_wf [OF m2 malloc_wf [OF m1 h(1)]]
  obtain r h3 where z: "msgpack_zone_new MSGPACK_ZONE_CHUNK_SIZE h2 = Some (r, h3)" "wf_heap h3" "oom h3 = oom h2"
    "\<forall>b < brk h2. blocks h3 b = blocks h2 b" "brk h2 \<le> brk h3"
    "\<And>p z. r = Some (p, z) \<Longrightarrow> \<exists>bs. zone_ok h3 z bs \<and> (\<forall>b \<in> zone_blocks z bs. brk h2 \<le> b) \<and> fa_items (z_fins z) = []"
    using zone_new_ok [OF wfs(2), of MSGPACK_ZONE_CHUNK_SIZE] by (auto simp: MSGPACK_ZONE_CHUNK_SIZE_def)
  note def = msgpack_unpacker_init_def [of ctx0 n h, folded s_def, unfolded m1 Let_def prod.case]
  from m1 show ?thesis
  proof (cases rule: malloc_cases)
    case fails
    then show ?thesis by (simp add: def)
  next
    case w1: works
    from m2 show ?thesis
    proof (cases rule: malloc_cases)
      case fails
      then show ?thesis using m2 w1 by (simp add: def free_c_def live_def)
    next
      case w2: works
      show ?thesis
      proof (cases r)
        case None
        then show ?thesis using w1 w2 z by (simp add: def m2 free_c_def live_def)
      next
        case (Some pz)
        then obtain p zn where r: "r = Some (p, zn)" by (cases pz) auto
        then obtain zb where zb: "zone_ok h3 zn zb" "\<forall>b \<in> zone_blocks zn zb. brk h2 \<le> b" "fa_items (z_fins zn) = []"
          using z(6) by blast
        let ?d = "\<lambda>i. if 0 \<le> i \<and> i < 0 + length (mem32 host 1) then Some (mem32 host 1 ! (i - 0)) else None"
        let ?h = "h3\<lparr>blocks := (blocks h3)(brk h \<mapsto> \<lparr>bsize = unat s, bdata = ?d, bnext = None\<rparr>)\<rparr>"
        let ?mp = "\<lparr>mp_buffer = p1, mp_used = 4, mp_free = s - 4, mp_off = 4, mp_parsed = 0, mp_z = p,
           mp_initial_buffer_size = s, mp_ctx = p2,
           mp_context = (template_init ctx0)\<lparr>c_user := \<lparr>u_z = Some zn, u_referenced = False\<rparr>\<rparr>\<rparr>"
        have "init_count p1 h3 = Some ?h"
          using w1 w2 z(4) s four by (auto simp: init_count_def store_bytes_def cong: if_cong)
        then have run: "msgpack_unpacker_init ctx0 n h = Some (Some ?mp, ?h)"
          using w1 w2 z(1) r by (simp add: def m2 COUNTER_SIZE_def)
        have wf: "wf_heap ?h" using z w1 w2 by (auto simp: wf_heap_def)
        have nb: "brk h \<notin> zone_blocks zn zb" using zb(2) w1 w2 by auto
        then have "zone_ok ?h zn zb" by (intro zone_ok_cong [OF zb(1) wf]) auto
        moreover have "bytes_at ?d 0 4 = Some (mem32 host 1)"
          using bytes_at_written [of 0 "mem32 host 1" "\<lambda>_. None"] four(1) by metis
        moreover have "unat (s - 4) = unat s - 4" using s by (simp add: unat_sub word_le_nat_alt)
        ultimately have "mpac_ok ?mp ?h (mem32 host 1) zb"
          using wf h(2) w1 w2 z(3) s four nb
          by (auto simp: mpac_ok_def big_fails_def ctx_zone_def ctx_referenced_def word_le_nat_alt)
        with run zb(3) four(1) show ?thesis by (auto simp: ctx_zone_def)
      qed
    qed
  qed
qed

text \<open>
  C18: \<open>msgpack_unpacker_reserve_buffer\<close> never loses input. Whatever the allocator answers, it
  returns; the bytes received but not parsed yet are the same before and after, whether the
  buffer was rewound, grown in place or replaced; on success the buffer has room for the bytes
  asked for. A buffer that raw values of the unfinished object still point into is left
  untouched, and the zone of that object becomes its owner.
\<close>

theorem unpacker_reserve_keeps_input:
  assumes "mpac_ok mp h bs zb" and "unat sz + unat (mp_used mp) \<le> 2 ^ 62"
    and "\<And>z. ctx_zone mp = Some z \<Longrightarrow> length (fa_items (z_fins z)) < 2 ^ 58"
  shows "\<exists>r mp' h' bs'. msgpack_unpacker_reserve_buffer mp sz h = Some (r, mp', h') \<and> mpac_ok mp' h' bs' zb \<and>
    drop (unat (mp_off mp')) bs' = drop (unat (mp_off mp)) bs \<and>
    (r \<longrightarrow> sz \<le> msgpack_unpacker_buffer_capacity mp') \<and>
    (r \<longrightarrow> ctx_referenced mp \<longrightarrow> blocks h' (pblock (mp_buffer mp)) = blocks h (pblock (mp_buffer mp)) \<and>
       (mp_buffer mp' = mp_buffer mp \<or> (\<exists>z'. ctx_zone mp' = Some z' \<and>
          \<lparr>fin_func = decl_count, fin_data = mp_buffer mp\<rparr> \<in> set (fa_items (z_fins z')))))"
proof (cases "sz \<le> mp_free mp")
  case True
  then have "msgpack_unpacker_reserve_buffer mp sz h = Some (True, mp, h)"
    by (simp add: msgpack_unpacker_reserve_buffer_def)
  with assms(1) True show ?thesis
    by (intro exI [of _ True] exI [of _ mp] exI [of _ h] exI [of _ bs]) (simp add: msgpack_unpacker_buffer_capacity_def)
next
  case False
  then have "msgpack_unpacker_reserve_buffer mp sz h = msgpack_unpacker_expand_buffer mp sz h"
    by (simp add: msgpack_unpacker_reserve_buffer_def)
  with unpacker_expand_ok [OF assms] show ?thesis
    unfolding msgpack_unpacker_buffer_capacity_def by metis
qed

lemma unpacker_reserve_keeps_input_witness:
  "\<exists>r h'. msgpack_unpacker_init blank_context 64 roomy_heap = Some (r, h') \<and>
    (\<forall>mp. r = Some mp \<longrightarrow> (\<exists>b mp' h2. msgpack_unpacker_reserve_buffer mp 1000 h' = Some (b, mp', h2) \<and>
       (b \<longrightarrow> 1000 \<le> msgpack_unpacker_buffer_capacity mp')))"
proof -
  obtain r h' where i: "msgpack_unpacker_init blank_context 64 roomy_heap = Some (r, h')"
    "\<And>mp. r = Some mp \<Longrightarrow> (\<exists>bs zb z. mpac_ok mp h' bs zb \<and> drop (unat (mp_off mp)) bs = [] \<and> mp_used mp = 4 \<and>
       ctx_zone mp = Some z \<and> fa_items (z_fins z) = [])"
    using unpacker_init_ok [of roomy_heap 64 blank_context] by auto
  have "\<exists>b mp' h2. msgpack_unpacker_reserve_buffer mp 1000 h' = Some (b, mp', h2) \<and>
       (b \<longrightarrow> 1000 \<le> msgpack_unpacker_buffer_capacity mp')" if r: "r = Some mp" for mp
  proof -
    obtain bs zb z where "mpac_ok mp h' bs zb" "mp_used mp = 4" "ctx_zone mp = Some z" "fa_items (z_fins z) = []"
      using i(2) [OF r] by blast
    then show ?thesis using unpacker_reserve_keeps_input [of mp h' bs zb 1000] by auto
  qed
  with i(1) show ?thesis by blast
qed

end
