(* ===== verification/ZmqPoller.thy ===== *)
theory ZmqPoller
  imports Prelude
begin

text \<open>
  \<open>zmq::Poller\<close> of \<open>modules/zmq/include/zmq/Poller.h\<close> and \<open>poller.cpp\<close>: the array of items
  handed to \<open>zmq_poll\<close>, kept contiguous by moving the last item into a hole, and the two index
  arrays that let clients keep an identifier while items move. \<open>zmq_poll\<close> and the allocator are
  parameters. The lemmas show that the poller is a registry of the abstract kind, that
  \<open>events\<close> reports what \<open>zmq_poll\<close> found, and two defects: a reused slot keeps the event mask of
  its previous owner, and the interrupt handler outlives the poller it points to.
\<close>

subsection \<open>State\<close>

text \<open>
  One item of the array given to \<open>zmq_poll\<close>; \<open>pi_socket\<close> is \<open>None\<close> for a plain file
  descriptor. The event masks are C \<open>short\<close>s.
\<close>

record pollitem =
  pi_socket :: "nat option"
  pi_fd :: int
  pi_events :: u16
  pi_revents :: u16

definition zero_item :: pollitem where
  "zero_item = \<lparr>pi_socket = None, pi_fd = 0, pi_events = 0, pi_revents = 0\<rparr>"

record poller =
  pollitems :: "pollitem list"
  pollitems_size :: nat
  idx_to_pos :: "int list"
  pos_to_idx :: "int list"
  used_count :: nat
  event_count :: int
  interrupted :: bool

datatype poller_error =
    CouldNotPreallocate int
  | CouldNotReallocate int
  | InvalidIndex int
  | RemovedTwice int
  | PollFailed int

subsection \<open>Operations\<close>

text \<open>\<open>ok k\<close> says whether the \<open>k\<close>-th allocation of the call succeeds.\<close>

definition poller_new :: "(nat \<Rightarrow> bool) \<Rightarrow> int \<Rightarrow> poller_error + poller" where
  "poller_new ok reserve =
     (let reserve = (if reserve \<le> 0 then 10 else reserve) in
      if \<not> ok 0 \<or> \<not> ok 1 \<or> \<not> ok 2 then Inl (CouldNotPreallocate reserve)
      else Inr \<lparr>pollitems = replicate (nat reserve) zero_item, pollitems_size = nat reserve,
                idx_to_pos = replicate (nat reserve) (-1), pos_to_idx = replicate (nat reserve) (-1),
                used_count = 0, event_count = 0, interrupted = False\<rparr>)"

text \<open>
  The three arrays double one after the other; when one cannot, the exception leaves
  \<open>pollitems_size_\<close> and so the poller as it was. Doubling a size of \<open>2^30\<close> overflows an
  \<open>int\<close>.
\<close>

definition poller_grow :: "(nat \<Rightarrow> bool) \<Rightarrow> poller \<Rightarrow> (poller_error + poller) option" where
  "poller_grow ok p =
     (let n = pollitems_size p in
      if 2 ^ 31 \<le> 2 * int n then None
      else if \<not> ok 0 \<or> \<not> ok 1 \<or> \<not> ok 2 then Some (Inl (CouldNotReallocate (2 * int n)))
      else Some (Inr (p\<lparr>idx_to_pos := take (used_count p) (idx_to_pos p) @ replicate n (-1) @ drop (used_count p + n) (idx_to_pos p),
                       pos_to_idx := take (used_count p) (pos_to_idx p) @ replicate n (-1) @ drop (used_count p + n) (pos_to_idx p),
                       pollitems := take (used_count p) (pollitems p) @ replicate n zero_item @ drop (used_count p + n) (pollitems p),
                       pollitems_size := 2 * n\<rparr>)))"

fun find_free :: "int list \<Rightarrow> nat \<Rightarrow> nat" where
  "find_free [] idx = idx"
| "find_free (x # xs) idx = (if x < 0 then idx else find_free xs (Suc idx))"

definition addItem ::
    "(nat \<Rightarrow> bool) \<Rightarrow> int \<Rightarrow> nat option \<Rightarrow> int \<Rightarrow> poller \<Rightarrow> ((poller_error + int) \<times> poller) option" where
  "addItem ok fd sock events p =
     do { g \<leftarrow> (if pollitems_size p \<le> used_count p then poller_grow ok p else Some (Inr p));
          case g of
            Inl e \<Rightarrow> Some (Inl e, p)
          | Inr p \<Rightarrow> do {
              let pos = used_count p;
              item \<leftarrow> at_index (pollitems p) (int pos);
              items \<leftarrow> put_index (pollitems p) (int pos)
                         (item\<lparr>pi_fd := fd, pi_socket := sock, pi_events := word_of_int events\<rparr>);
              let idx = find_free (take (pollitems_size p) (idx_to_pos p)) 0;
              i2p \<leftarrow> put_index (idx_to_pos p) (int idx) (int pos);
              p2i \<leftarrow> put_index (pos_to_idx p) (int pos) (int idx);
              Some (Inr (int idx), p\<lparr>used_count := Suc pos, pollitems := items, idx_to_pos := i2p, pos_to_idx := p2i\<rparr>) } }"

definition add_fd :: "(nat \<Rightarrow> bool) \<Rightarrow> int \<Rightarrow> int \<Rightarrow> poller \<Rightarrow> ((poller_error + int) \<times> poller) option" where
  "add_fd ok fd events p = addItem ok fd None events p"

definition add_socket :: "(nat \<Rightarrow> bool) \<Rightarrow> nat \<Rightarrow> int \<Rightarrow> poller \<Rightarrow> ((poller_error + int) \<times> poller) option" where
  "add_socket ok sock events p = addItem ok 0 (Some sock) events p"

text \<open>
  \<open>modify\<close>: a failed \<open>assert\<close> aborts. \<open>target\<close> is the optional fourth Lua argument, a
  socket or a file descriptor.
\<close>

datatype poll_target = TargetSocket nat | TargetFd int

definition poller_modify :: "int \<Rightarrow> int \<Rightarrow> poll_target option \<Rightarrow> poller \<Rightarrow> poller option" where
  "poller_modify idx events target p =
     do { guard_c (events \<noteq> 0);
          guard_c (idx < int (pollitems_size p) \<and> 0 \<le> idx);
          pos \<leftarrow> at_index (idx_to_pos p) idx;
          item \<leftarrow> at_index (pollitems p) pos;
          let item = item\<lparr>pi_events := word_of_int events\<rparr>;
          let item = (case target of None \<Rightarrow> item
                      | Some (TargetSocket s) \<Rightarrow> item\<lparr>pi_fd := 0, pi_socket := Some s\<rparr>
                      | Some (TargetFd fd) \<Rightarrow> item\<lparr>pi_fd := fd, pi_socket := None\<rparr>);
          items \<leftarrow> put_index (pollitems p) pos item;
          Some (p\<lparr>pollitems := items\<rparr>) }"

definition poller_remove :: "int \<Rightarrow> poller \<Rightarrow> ((poller_error + unit) \<times> poller) option" where
  "poller_remove idx p =
     (if idx < 0 \<or> int (pollitems_size p) \<le> idx then Some (Inl (InvalidIndex idx), p)
      else do {
        let last_pos = int (used_count p) - 1;
        pos \<leftarrow> at_index (idx_to_pos p) idx;
        if pos = -1 then Some (Inl (RemovedTwice idx), p)
        else do {
          i2p \<leftarrow> put_index (idx_to_pos p) idx (-1);
          let p = p\<lparr>idx_to_pos := i2p, used_count := used_count p - 1\<rparr>;
          if pos = last_pos then Some (Inr (), p)
          else do {
            last_idx \<leftarrow> at_index (pos_to_idx p) last_pos;
            p2i \<leftarrow> put_index (pos_to_idx p) last_pos (-1);
            i2p \<leftarrow> put_index (idx_to_pos p) last_idx pos;
            p2i \<leftarrow> put_index p2i pos last_idx;
            item \<leftarrow> at_index (pollitems p) last_pos;
            items \<leftarrow> put_index (pollitems p) pos item;
            Some (Inr (), p\<lparr>idx_to_pos := i2p, pos_to_idx := p2i, pollitems := items\<rparr>) } } })"

text \<open>
  \<open>zmq_poll\<close> is a parameter: of the first \<open>used_count_\<close> items and the timeout it gives the
  event masks it stores, the count it returns, the error, and whether the interrupt handler
  ran meanwhile.
\<close>

type_synonym zmq_poll = "pollitem list \<Rightarrow> int \<Rightarrow> u16 list \<times> int \<times> int \<times> bool"

definition poller_poll :: "zmq_poll \<Rightarrow> int \<Rightarrow> poller \<Rightarrow> (poller_error + bool) \<times> poller" where
  "poller_poll zmq_poll timeout p =
     (if interrupted p then (Inr False, p)
      else
        let (revents, n, err, sigint) = zmq_poll (take (used_count p) (pollitems p)) timeout;
            p = p\<lparr>pollitems := map2 (\<lambda>r it. it\<lparr>pi_revents := r\<rparr>) revents (take (used_count p) (pollitems p))
                               @ drop (used_count p) (pollitems p),
                  event_count := n, interrupted := sigint\<rparr> in
        if n < 0 then
          let p = p\<lparr>event_count := 0\<rparr> in
          if \<not> interrupted p then (Inl (PollFailed err), p) else (Inr False, p)
        else (Inr True, p))"

text \<open>The loop of \<open>events\<close>: \<open>found\<close> is the Lua table so far.\<close>

primrec events_loop :: "int \<Rightarrow> (pollitem \<times> int) list \<Rightarrow> int list \<Rightarrow> int list" where
  "events_loop n [] found = found"
| "events_loop n (x # xs) found =
     (let found = (if pi_revents (fst x) \<noteq> 0 then found @ [snd x] else found) in
      if int (length found) = n then found else events_loop n xs found)"

definition poller_events :: "poller \<Rightarrow> int list option \<times> poller" where
  "poller_events p =
     (if event_count p = 0 then (None, p)
      else (Some (events_loop (event_count p)
               (zip (take (used_count p) (pollitems p)) (take (used_count p) (pos_to_idx p))) []),
            p\<lparr>event_count := 0\<rparr>))"

definition poller_count :: "poller \<Rightarrow> int" where
  "poller_count p = int (used_count p)"

definition idxToPos :: "poller \<Rightarrow> int \<Rightarrow> int option" where
  "idxToPos p idx =
     (if int (pollitems_size p) \<le> idx \<or> idx < 0 then None else at_index (idx_to_pos p) idx)"

definition posToIdx :: "poller \<Rightarrow> int \<Rightarrow> int option" where
  "posToIdx p pos =
     (if int (pollitems_size p) \<le> pos \<or> pos < 0 then None else at_index (pos_to_idx p) pos)"

definition posToFd :: "poller \<Rightarrow> int \<Rightarrow> int option" where
  "posToFd p pos =
     (if int (used_count p) \<le> pos \<or> pos < 0 then None else map_option pi_fd (at_index (pollitems p) pos))"

definition posToEvent :: "poller \<Rightarrow> int \<Rightarrow> int option" where
  "posToEvent p pos =
     (if int (used_count p) \<le> pos \<or> pos < 0 then None
      else map_option (\<lambda>it. sint (pi_events it)) (at_index (pollitems p) pos))"

subsection \<open>Invariant and abstraction\<close>

text \<open>The two index arrays are inverse to each other on the used part.\<close>

definition poller_ok :: "poller \<Rightarrow> bool" where
  "poller_ok p \<longleftrightarrow>
     (let n = pollitems_size p in
      length (pollitems p) = n \<and> length (idx_to_pos p) = n \<and> length (pos_to_idx p) = n \<and> 0 < n \<and> used_count p \<le> n \<and>
      (\<forall>pos < used_count p. \<exists>idx < n. pos_to_idx p ! pos = int idx \<and> idx_to_pos p ! idx = int pos) \<and>
      (\<forall>idx < n. idx_to_pos p ! idx = -1 \<or>
         (\<exists>pos < used_count p. idx_to_pos p ! idx = int pos \<and> pos_to_idx p ! pos = int idx)))"

text \<open>What the client sees: which identifiers are registered, and for what.\<close>

type_synonym registration = "nat option \<times> int \<times> u16"

definition item_reg :: "pollitem \<Rightarrow> registration" where
  "item_reg it = (pi_socket it, pi_fd it, pi_events it)"

definition poller_map :: "poller \<Rightarrow> int \<Rightarrow> registration option" where
  "poller_map p idx =
     do { pos \<leftarrow> at_index (idx_to_pos p) idx;
          if pos < 0 then None else map_option item_reg (at_index (pollitems p) pos) }"

lemma poller_map_eq:
  assumes "poller_ok p"
  shows "poller_map p idx =
     (if 0 \<le> idx \<and> nat idx < pollitems_size p \<and> idx_to_pos p ! nat idx \<noteq> -1
      then Some (item_reg (pollitems p ! nat (idx_to_pos p ! nat idx))) else None)"
proof (cases "0 \<le> idx \<and> nat idx < pollitems_size p")
  case True
  then have "idx_to_pos p ! nat idx = -1 \<or> (\<exists>pos < used_count p. idx_to_pos p ! nat idx = int pos)"
    using assms unfolding poller_ok_def Let_def by blast
  then show ?thesis using True assms
    by (auto simp: poller_map_def at_index_def poller_ok_def Let_def)
next
  case False
  then show ?thesis using assms by (auto simp: poller_map_def at_index_def poller_ok_def Let_def)
qed

lemma poller_new_ok:
  "poller_new ok r = Inr p \<Longrightarrow> poller_ok p \<and> poller_map p = Map.empty \<and> used_count p = 0"
  by (auto simp: poller_new_def poller_ok_def poller_map_def at_index_def Let_def fun_eq_iff split: if_splits)

lemma find_free_eq: "find_free xs k = k + length (takeWhile (\<lambda>x. 0 \<le> x) xs)"
  by (induction xs arbitrary: k) auto

lemma free_idx_exists:
  assumes ok: "poller_ok p" and room: "used_count p < pollitems_size p"
  shows "\<exists>idx < pollitems_size p. idx_to_pos p ! idx = -1"
proof (rule ccontr)
  assume no: "\<not> ?thesis"
  have ex: "\<exists>pos < used_count p. idx_to_pos p ! idx = int pos \<and> pos_to_idx p ! pos = int idx"
    if "idx < pollitems_size p" for idx
    using that no ok unfolding poller_ok_def Let_def by blast
  have "inj_on (\<lambda>idx. nat (idx_to_pos p ! idx)) {..<pollitems_size p}"
    by (rule inj_onI) (metis ex lessThan_iff nat_int of_nat_eq_iff)
  moreover have "(\<lambda>idx. nat (idx_to_pos p ! idx)) ` {..<pollitems_size p} \<subseteq> {..<used_count p}"
    using ex by fastforce
  ultimately have "pollitems_size p \<le> used_count p"
    using card_inj_on_le [of _ "{..<pollitems_size p}" "{..<used_count p}"] by simp
  with room show False by simp
qed

lemma find_free_ok:
  assumes ok: "poller_ok p" and room: "used_count p < pollitems_size p"
  defines "i \<equiv> find_free (take (pollitems_size p) (idx_to_pos p)) 0"
  shows "i < pollitems_size p" "idx_to_pos p ! i = -1" "\<forall>j < i. idx_to_pos p ! j \<noteq> -1"
proof -
  have len: "length (idx_to_pos p) = pollitems_size p" using ok by (simp add: poller_ok_def Let_def)
  have i: "i = length (takeWhile (\<lambda>x. 0 \<le> x) (idx_to_pos p))" by (simp add: i_def find_free_eq len)
  obtain k where k: "k < pollitems_size p" "idx_to_pos p ! k = -1" using free_idx_exists [OF ok room] by blast
  have "\<not> length (idx_to_pos p) \<le> i"
  proof
    assume "length (idx_to_pos p) \<le> i"
    then have "takeWhile (\<lambda>x. 0 \<le> x) (idx_to_pos p) = idx_to_pos p"
      unfolding i by (metis length_takeWhile_le le_antisym takeWhile_eq_take take_all)
    then have "\<forall>x \<in> set (idx_to_pos p). 0 \<le> x" by (metis takeWhile_eq_all_conv)
    then show False using k len by (metis nth_mem not_one_le_zero neg_0_le_iff_le)
  qed
  then show lt: "i < pollitems_size p" using len by simp
  then have "idx_to_pos p ! i < 0" using nth_length_takeWhile [of "\<lambda>x. 0 \<le> x" "idx_to_pos p"] i len by simp
  with lt ok show "idx_to_pos p ! i = -1" unfolding poller_ok_def Let_def by (metis of_nat_0_le_iff not_less)
  show "\<forall>j < i. idx_to_pos p ! j \<noteq> -1"
    using i by (metis nth_mem set_takeWhileD takeWhile_nth neg_0_le_iff_le not_one_le_zero)
qed

lemma poller_grow_ok:
  assumes ok: "poller_ok p" and full: "pollitems_size p \<le> used_count p" and small: "2 * pollitems_size p < 2 ^ 31"
  shows "\<exists>r. poller_grow al p = Some r \<and>
    (case r of Inl e \<Rightarrow> e = CouldNotReallocate (2 * int (pollitems_size p)) \<and> (\<exists>k. \<not> al k)
     | Inr p' \<Rightarrow> poller_ok p' \<and> poller_map p' = poller_map p \<and> used_count p' = used_count p \<and>
         used_count p' < pollitems_size p' \<and> take (used_count p) (pollitems p') = take (used_count p) (pollitems p))"
proof -
  let ?n = "pollitems_size p"
  have len: "length (pollitems p) = ?n" "length (idx_to_pos p) = ?n" "length (pos_to_idx p) = ?n" "0 < ?n" "used_count p = ?n"
    using ok full by (auto simp: poller_ok_def Let_def)
  let ?p = "p\<lparr>idx_to_pos := idx_to_pos p @ replicate ?n (-1), pos_to_idx := pos_to_idx p @ replicate ?n (-1),
     pollitems := pollitems p @ replicate ?n zero_item, pollitems_size := 2 * ?n\<rparr>"
  have ok': "poller_ok ?p"
    using ok len by (fastforce simp: poller_ok_def Let_def nth_append)
  have "poller_map ?p idx = poller_map p idx" for idx
  proof -
    consider "idx < 0" | "0 \<le> idx" "nat idx < ?n" | "0 \<le> idx" "?n \<le> nat idx" "nat idx < 2 * ?n"
      | "0 \<le> idx" "2 * ?n \<le> nat idx"
      by linarith
    then show ?thesis
    proof cases
      case 2
      then have "idx_to_pos p ! nat idx = -1 \<or> (\<exists>pos < used_count p. idx_to_pos p ! nat idx = int pos)"
        using ok unfolding poller_ok_def Let_def by blast
      then show ?thesis using 2 len
        by (auto simp: poller_map_eq [OF ok] poller_map_eq [OF ok'] nth_append)
    qed (use len in \<open>auto simp: poller_map_eq [OF ok] poller_map_eq [OF ok'] nth_append\<close>)
  qed
  then have "poller_map ?p = poller_map p" by blast
  moreover have "poller_grow al p = Some (if \<not> al 0 \<or> \<not> al 1 \<or> \<not> al 2 then Inl (CouldNotReallocate (2 * int ?n)) else Inr ?p)"
    using small len by (simp add: poller_grow_def Let_def)
  ultimately show ?thesis using ok' len by auto
qed

lemma poller_place_ok:
  fixes it :: pollitem
  assumes ok: "poller_ok p" and room: "used_count p < pollitems_size p"
    and i: "i < pollitems_size p" "idx_to_pos p ! i = -1"
  defines "p' \<equiv> p\<lparr>used_count := Suc (used_count p), pollitems := (pollitems p)[used_count p := it],
      idx_to_pos := (idx_to_pos p)[i := int (used_count p)], pos_to_idx := (pos_to_idx p)[used_count p := int i]\<rparr>"
  shows "poller_ok p'" "poller_map p (int i) = None" "poller_map p' = (poller_map p)(int i \<mapsto> item_reg it)"
proof -
  let ?n = "pollitems_size p" and ?u = "used_count p"
  have len: "length (pollitems p) = ?n" "length (idx_to_pos p) = ?n" "length (pos_to_idx p) = ?n"
    using ok by (auto simp: poller_ok_def Let_def)
  have pos: "\<exists>idx < ?n. pos_to_idx p ! q = int idx \<and> idx_to_pos p ! idx = int q" if "q < ?u" for q
    using that ok unfolding poller_ok_def Let_def by blast
  have idx: "idx_to_pos p ! k = -1 \<or> (\<exists>q < ?u. idx_to_pos p ! k = int q \<and> pos_to_idx p ! q = int k)" if "k < ?n" for k
    using that ok unfolding poller_ok_def Let_def by blast
  have a: "\<exists>k < ?n. pos_to_idx p' ! q = int k \<and> idx_to_pos p' ! k = int q" if qlt: "q < Suc ?u" for q
  proof (cases "q = ?u")
    case True
    then show ?thesis using i room len by (intro exI [of _ i]) (simp add: p'_def)
  next
    case False
    then obtain k where k: "k < ?n" "pos_to_idx p ! q = int k" "idx_to_pos p ! k = int q" using pos [of q] qlt False by force
    then have "k \<noteq> i" using i by auto
    then show ?thesis using k False by (intro exI [of _ k]) (simp add: p'_def)
  qed
  have b: "idx_to_pos p' ! k = -1 \<or> (\<exists>q < Suc ?u. idx_to_pos p' ! k = int q \<and> pos_to_idx p' ! q = int k)"
    if "k < ?n" for k
  proof (cases "k = i")
    case True
    then show ?thesis using len that room by (auto simp: p'_def intro!: exI [of _ ?u])
  next
    case False
    from idx [OF that] show ?thesis
    proof
      assume "\<exists>q < ?u. idx_to_pos p ! k = int q \<and> pos_to_idx p ! q = int k"
      then obtain q where "q < ?u" "idx_to_pos p ! k = int q" "pos_to_idx p ! q = int k" by blast
      then show ?thesis using False by (intro disjI2 exI [of _ q]) (simp add: p'_def)
    qed (use False in \<open>simp add: p'_def\<close>)
  qed
  show ok': "poller_ok p'"
    using a b room len i(1) by (simp add: poller_ok_def Let_def) (simp add: p'_def)
  show "poller_map p (int i) = None" using i by (simp add: poller_map_eq [OF ok])
  have "poller_map p' j = ((poller_map p)(int i \<mapsto> item_reg it)) j" for j
  proof (cases "j = int i")
    case True
    then show ?thesis using i room len by (simp add: poller_map_eq [OF ok']) (simp add: p'_def)
  next
    case False
    then have "nat j \<noteq> i \<or> j < 0" by (cases "j < 0") auto
    moreover have "0 \<le> j \<Longrightarrow> nat j < ?n \<Longrightarrow> idx_to_pos p ! nat j \<noteq> -1 \<Longrightarrow> nat (idx_to_pos p ! nat j) \<noteq> ?u"
      using idx [of "nat j"] by auto
    ultimately show ?thesis using False len
      unfolding poller_map_eq [OF ok'] by (auto simp: poller_map_eq [OF ok] p'_def)
  qed
  then show "poller_map p' = (poller_map p)(int i \<mapsto> item_reg it)" by blast
qed

lemma addItem_ok:
  assumes ok: "poller_ok p" and small: "used_count p < 2 ^ 30"
  shows "\<exists>r p'. addItem al fd sock events p = Some (r, p') \<and>
    (case r of Inl e \<Rightarrow> p' = p \<and> (\<exists>k. \<not> al k)
     | Inr idx \<Rightarrow> poller_ok p' \<and> poller_map p idx = None \<and>
         poller_map p' = (poller_map p)(idx \<mapsto> (sock, fd, word_of_int events)) \<and> used_count p' = Suc (used_count p))"
proof -
  have place: "\<exists>r p'. addItem al fd sock events p = Some (r, p') \<and>
    (case r of Inl e \<Rightarrow> p' = p \<and> (\<exists>k. \<not> al k)
     | Inr idx \<Rightarrow> poller_ok p' \<and> poller_map p idx = None \<and>
         poller_map p' = (poller_map p)(idx \<mapsto> (sock, fd, word_of_int events)) \<and> used_count p' = Suc (used_count p))"
    if g: "(if pollitems_size p \<le> used_count p then poller_grow al p else Some (Inr p)) = Some (Inr q)"
      and q: "poller_ok q" "poller_map q = poller_map p" "used_count q = used_count p" "used_count q < pollitems_size q" for q
  proof -
    let ?i = "find_free (take (pollitems_size q) (idx_to_pos q)) 0"
    note i = find_free_ok [OF q(1,4)]
    have len: "length (pollitems q) = pollitems_size q" "length (idx_to_pos q) = pollitems_size q"
      "length (pos_to_idx q) = pollitems_size q" using q(1) by (auto simp: poller_ok_def Let_def)
    have "addItem al fd sock events p = Some (Inr (int ?i),
        q\<lparr>used_count := Suc (used_count q), pollitems := (pollitems q)[used_count q := (pollitems q ! used_count q)
            \<lparr>pi_fd := fd, pi_socket := sock, pi_events := word_of_int events\<rparr>],
          idx_to_pos := (idx_to_pos q)[?i := int (used_count q)], pos_to_idx := (pos_to_idx q)[used_count q := int ?i]\<rparr>)"
      using g q(3,4) i(1) len by (simp add: addItem_def Let_def)
    then show ?thesis using poller_place_ok [OF q(1,4) i(1,2)] q(2,3) by (simp add: item_reg_def)
  qed
  show ?thesis
  proof (cases "pollitems_size p \<le> used_count p")
    case True
    obtain g where g: "poller_grow al p = Some g" "case g of Inl e \<Rightarrow> e = CouldNotReallocate (2 * int (pollitems_size p)) \<and> (\<exists>k. \<not> al k)
     | Inr p' \<Rightarrow> poller_ok p' \<and> poller_map p' = poller_map p \<and> used_count p' = used_count p \<and> used_count p' < pollitems_size p'"
    proof -
      have "2 * pollitems_size p < 2 ^ 31" using small True by simp
      from poller_grow_ok [OF ok True this, of al] that show ?thesis by (fastforce split: sum.splits)
    qed
    show ?thesis
    proof (cases g)
      case (Inl e)
      then show ?thesis using g True by (auto simp: addItem_def)
    next
      case (Inr q)
      then show ?thesis using g True by (intro place [of q]) auto
    qed
  qed (use ok in \<open>auto intro!: place\<close>)
qed

lemma poller_remove_ok:
  assumes ok: "poller_ok p"
  shows "\<exists>r p'. poller_remove idx p = Some (r, p') \<and> poller_ok p' \<and>
    (case r of Inl e \<Rightarrow> p' = p \<and> poller_map p idx = None
     | Inr _ \<Rightarrow> poller_map p idx \<noteq> None \<and> poller_map p' = (poller_map p)(idx := None) \<and> used_count p = Suc (used_count p'))"
proof -
  let ?n = "pollitems_size p" and ?u = "used_count p"
  have len: "length (pollitems p) = ?n" "length (idx_to_pos p) = ?n" "length (pos_to_idx p) = ?n" "?u \<le> ?n"
    using ok by (auto simp: poller_ok_def Let_def)
  have pos: "\<exists>k < ?n. pos_to_idx p ! q = int k \<and> idx_to_pos p ! k = int q" if "q < ?u" for q
    using that ok unfolding poller_ok_def Let_def by blast
  have idx: "idx_to_pos p ! k = -1 \<or> (\<exists>q < ?u. idx_to_pos p ! k = int q \<and> pos_to_idx p ! q = int k)" if "k < ?n" for k
    using that ok unfolding poller_ok_def Let_def by blast
  consider "idx < 0 \<or> int ?n \<le> idx" | i where "idx = int i" "i < ?n" "idx_to_pos p ! i = -1"
    | i q where "idx = int i" "i < ?n" "q < ?u" "idx_to_pos p ! i = int q" "pos_to_idx p ! q = int i"
    using idx [of "nat idx"] by (metis int_nat_eq not_less zless_nat_eq_int_zless nat_int linorder_not_less of_nat_less_iff)
  then show ?thesis
  proof cases
    case 1
    then show ?thesis using ok by (auto simp: poller_remove_def poller_map_eq [OF ok])
  next
    case 2
    then show ?thesis using ok len by (auto simp: poller_remove_def poller_map_eq [OF ok])
  next
    case 3
    let ?l = "?u - 1"
    obtain u' where u: "?u = Suc u'" using 3(3) by (cases ?u) auto
    have some: "poller_map p idx \<noteq> None" using 3 by (simp add: poller_map_eq [OF ok])
    show ?thesis
    proof (cases "q = u'")
      case True
      let ?p = "p\<lparr>idx_to_pos := (idx_to_pos p)[i := -1], used_count := u'\<rparr>"
      have run: "poller_remove idx p = Some (Inr (), ?p)"
        using 3 True u len by (simp add: poller_remove_def Let_def)
      have a: "\<exists>k < ?n. pos_to_idx ?p ! r = int k \<and> idx_to_pos ?p ! k = int r" if rlt: "r < u'" for r
      proof -
        obtain k where k: "k < ?n" "pos_to_idx p ! r = int k" "idx_to_pos p ! k = int r" using pos [of r] rlt u by auto
        then have "k \<noteq> i" using 3(4) True that by auto
        with k show ?thesis by (intro exI [of _ k]) simp
      qed
      have b: "idx_to_pos ?p ! k = -1 \<or> (\<exists>r < u'. idx_to_pos ?p ! k = int r \<and> pos_to_idx ?p ! r = int k)" if "k < ?n" for k
      proof (cases "k = i")
        case False
        have "r \<noteq> u'" if "idx_to_pos p ! k = int r" "pos_to_idx p ! r = int k" for r
          using that 3 True False by auto
        then show ?thesis using idx [OF that] False u less_Suc_eq by auto
      qed (use len 3 in simp)
      have ok': "poller_ok ?p" using a b len u ok by (simp add: poller_ok_def Let_def)
      have "poller_map ?p j = ((poller_map p)(idx := None)) j" for j
        using len 3(1,2) by (cases "j = idx") (auto simp: poller_map_eq [OF ok] poller_map_eq [OF ok'] nth_list_update nat_eq_iff)
      then show ?thesis using run ok' some u by (intro exI [of _ "Inr ()"] exI [of _ ?p]) auto
    next
      case False
      then have qu: "q < u'" using 3(3) u by simp
      obtain l where l: "l < ?n" "pos_to_idx p ! u' = int l" "idx_to_pos p ! l = int u'" using pos [of u'] u by auto
      have li: "l \<noteq> i" using l 3 False by auto
      let ?p = "p\<lparr>used_count := u', idx_to_pos := (idx_to_pos p)[i := -1, l := int q],
         pos_to_idx := (pos_to_idx p)[u' := -1, q := int l], pollitems := (pollitems p)[q := pollitems p ! u']\<rparr>"
      have run: "poller_remove idx p = Some (Inr (), ?p)"
        using 3 False u len l by (simp add: poller_remove_def Let_def)
      have a: "\<exists>k < ?n. pos_to_idx ?p ! r = int k \<and> idx_to_pos ?p ! k = int r" if rlt: "r < u'" for r
      proof (cases "r = q")
        case True
        then show ?thesis using l len li qu u by (intro exI [of _ l]) simp
      next
        case neq: False
        obtain k where k: "k < ?n" "pos_to_idx p ! r = int k" "idx_to_pos p ! k = int r" using pos [of r] rlt u by auto
        then have "k \<noteq> i" "k \<noteq> l" using 3(4) neq l that by auto
        with k neq that show ?thesis by (intro exI [of _ k]) simp
      qed
      have b: "idx_to_pos ?p ! k = -1 \<or> (\<exists>r < u'. idx_to_pos ?p ! k = int r \<and> pos_to_idx ?p ! r = int k)" if "k < ?n" for k
      proof -
        consider "k = i" | "k = l" | "k \<noteq> i" "k \<noteq> l" by blast
        then show ?thesis
        proof cases
          case 3
          have "r \<noteq> u' \<and> r \<noteq> q" if "idx_to_pos p ! k = int r" "pos_to_idx p ! r = int k" for r
            using that l \<open>pos_to_idx p ! q = int i\<close> 3 by auto
          then show ?thesis using idx [OF that] 3 u less_Suc_eq by auto
        qed (use len \<open>i < ?n\<close> l qu u li in auto)
      qed
      have ok': "poller_ok ?p" using a b len u ok by (simp add: poller_ok_def Let_def)
      have "poller_map ?p j = ((poller_map p)(idx := None)) j" for j
      proof (cases "0 \<le> j \<and> nat j < ?n")
        case True
        then obtain k where k: "j = int k" "k < ?n" by (metis int_nat_eq)
        consider "k = i" | "k = l" | "k \<noteq> i" "k \<noteq> l" "idx_to_pos p ! k = -1"
          | r where "k \<noteq> i" "k \<noteq> l" "idx_to_pos p ! k = int r" "pos_to_idx p ! r = int k" "r < ?u"
          using idx [OF k(2)] by blast
        then show ?thesis
        proof cases
          case 4
          then have "r \<noteq> q" using \<open>pos_to_idx p ! q = int i\<close> by auto
          with 4 k \<open>idx = int i\<close> show ?thesis by (simp add: poller_map_eq [OF ok] poller_map_eq [OF ok'])
        qed (use k len l li \<open>idx = int i\<close> qu u in \<open>auto simp: poller_map_eq [OF ok] poller_map_eq [OF ok']\<close>)
      qed (use \<open>idx = int i\<close> in \<open>auto simp: poller_map_eq [OF ok] poller_map_eq [OF ok']\<close>)
      then show ?thesis using run ok' some u by (intro exI [of _ "Inr ()"] exI [of _ ?p]) auto
    qed
  qed
qed

lemma poller_modify_ok:
  assumes ok: "poller_ok p" and ev: "events \<noteq> 0" and reg: "poller_map p idx = Some (sock, fd, old)"
  shows "\<exists>p'. poller_modify idx events target p = Some p' \<and> poller_ok p' \<and>
    poller_map p' = (poller_map p)(idx \<mapsto>
      (case target of None \<Rightarrow> (sock, fd, word_of_int events) | Some (TargetSocket s) \<Rightarrow> (Some s, 0, word_of_int events)
       | Some (TargetFd f) \<Rightarrow> (None, f, word_of_int events)))"
proof -
  let ?n = "pollitems_size p"
  have len: "length (pollitems p) = ?n" "length (idx_to_pos p) = ?n" "used_count p \<le> ?n"
    using ok by (auto simp: poller_ok_def Let_def)
  have idx: "idx_to_pos p ! k = -1 \<or> (\<exists>q < used_count p. idx_to_pos p ! k = int q \<and> pos_to_idx p ! q = int k)" if "k < ?n" for k
    using that ok unfolding poller_ok_def Let_def by blast
  obtain i where i: "idx = int i" "i < ?n" "idx_to_pos p ! i \<noteq> -1"
    using reg by (auto simp: poller_map_eq [OF ok] split: if_splits intro: that [of "nat idx"])
  then obtain q where q: "q < used_count p" "idx_to_pos p ! i = int q" "pos_to_idx p ! q = int i" using idx by blast
  have item: "item_reg (pollitems p ! q) = (sock, fd, old)" using reg i q by (simp add: poller_map_eq [OF ok])
  let ?it = "(case target of None \<Rightarrow> (pollitems p ! q)\<lparr>pi_events := word_of_int events\<rparr>
     | Some (TargetSocket s) \<Rightarrow> (pollitems p ! q)\<lparr>pi_events := word_of_int events, pi_fd := 0, pi_socket := Some s\<rparr>
     | Some (TargetFd f) \<Rightarrow> (pollitems p ! q)\<lparr>pi_events := word_of_int events, pi_fd := f, pi_socket := None\<rparr>)"
  let ?p = "p\<lparr>pollitems := (pollitems p)[q := ?it]\<rparr>"
  have run: "poller_modify idx events target p = Some ?p"
    using ev i q len by (simp add: poller_modify_def Let_def split: option.splits poll_target.splits)
  have ok': "poller_ok ?p" using ok by (simp add: poller_ok_def Let_def)
  have "poller_map ?p j = ((poller_map p)(idx \<mapsto> item_reg ?it)) j" for j
  proof (cases "j = idx")
    case False
    then have "0 \<le> j \<Longrightarrow> nat j < ?n \<Longrightarrow> idx_to_pos p ! nat j \<noteq> -1 \<Longrightarrow> nat (idx_to_pos p ! nat j) \<noteq> q"
      using idx [of "nat j"] q i by auto
    then show ?thesis using False by (auto simp: poller_map_eq [OF ok] poller_map_eq [OF ok'])
  qed (use i q len in \<open>simp add: poller_map_eq [OF ok']\<close>)
  then have "poller_map ?p = (poller_map p)(idx \<mapsto> item_reg ?it)" by blast
  then show ?thesis using run ok' item by (auto simp: item_reg_def split: option.splits poll_target.splits)
qed

subsection \<open>Events\<close>

lemma events_loop_all:
  "int (length found) + int (length (filter (\<lambda>x. pi_revents (fst x) \<noteq> 0) xs)) = n \<Longrightarrow> int (length found) < n \<Longrightarrow>
   events_loop n xs found = found @ map snd (filter (\<lambda>x. pi_revents (fst x) \<noteq> 0) xs)"
proof (induction xs arbitrary: found)
  case (Cons x xs)
  show ?case
  proof (cases "pi_revents (fst x) \<noteq> 0 \<and> int (length found) + 1 = n")
    case True
    then have "int (length (filter (\<lambda>x. pi_revents (fst x) \<noteq> 0) (x # xs))) =
        1 + int (length (filter (\<lambda>x. pi_revents (fst x) \<noteq> 0) xs))" by simp
    then have "length (filter (\<lambda>x. pi_revents (fst x) \<noteq> 0) xs) = 0" using True Cons.prems(1) by linarith
    then have "filter (\<lambda>x. pi_revents (fst x) \<noteq> 0) xs = []" unfolding length_0_conv .
    then show ?thesis using True by (simp add: Let_def)
  next
    case False
    then show ?thesis using Cons.IH [of found] Cons.IH [of "found @ [snd x]"] Cons.prems by (auto simp: Let_def)
  qed
qed simp

subsection \<open>Registries\<close>

text \<open>
  The contract of a table that names its entries itself: \<open>ins\<close> answers with a fresh name
  or refuses, \<open>del\<close> frees a name or reports that it is not in use. \<open>load\<close> bounds what fits.
\<close>

datatype ('k, 'v) reg_op = Register 'v | Unregister 'k
datatype 'k reg_result = Registered 'k | Refused | Unregistered | Unknown

fun reg_run :: "('v \<Rightarrow> 's \<Rightarrow> (('e + 'k) \<times> 's) option) \<Rightarrow> ('k \<Rightarrow> 's \<Rightarrow> (('e + unit) \<times> 's) option) \<Rightarrow>
    ('k, 'v) reg_op list \<Rightarrow> 's \<Rightarrow> ('k reg_result list \<times> 's) option" where
  "reg_run ins del [] s = Some ([], s)"
| "reg_run ins del (Register v # ops) s =
     do { (r, s) \<leftarrow> ins v s; (rs, s) \<leftarrow> reg_run ins del ops s;
          Some ((case r of Inl _ \<Rightarrow> Refused | Inr k \<Rightarrow> Registered k) # rs, s) }"
| "reg_run ins del (Unregister k # ops) s =
     do { (r, s) \<leftarrow> del k s; (rs, s) \<leftarrow> reg_run ins del ops s;
          Some ((case r of Inl _ \<Rightarrow> Unknown | Inr _ \<Rightarrow> Unregistered) # rs, s) }"

text \<open>What a map from names to values may answer.\<close>

inductive reg_trace :: "('k \<Rightarrow> 'v option) \<Rightarrow> ('k, 'v) reg_op list \<Rightarrow> 'k reg_result list \<Rightarrow> ('k \<Rightarrow> 'v option) \<Rightarrow> bool" where
  "reg_trace m [] [] m"
| "m k = None \<Longrightarrow> reg_trace (m(k \<mapsto> v)) ops rs m' \<Longrightarrow> reg_trace m (Register v # ops) (Registered k # rs) m'"
| "reg_trace m ops rs m' \<Longrightarrow> reg_trace m (Register v # ops) (Refused # rs) m'"
| "m k \<noteq> None \<Longrightarrow> reg_trace (m(k := None)) ops rs m' \<Longrightarrow> reg_trace m (Unregister k # ops) (Unregistered # rs) m'"
| "m k = None \<Longrightarrow> reg_trace m ops rs m' \<Longrightarrow> reg_trace m (Unregister k # ops) (Unknown # rs) m'"

inductive_cases reg_trace_RegisteredE: "reg_trace m (Register v # ops) (Registered k # rs) m'"

locale id_registry =
  fixes inva :: "'s \<Rightarrow> bool" and view :: "'s \<Rightarrow> 'k \<Rightarrow> 'v option" and load :: "'s \<Rightarrow> nat" and limit :: nat
    and ins :: "'v \<Rightarrow> 's \<Rightarrow> (('e + 'k) \<times> 's) option"
    and del :: "'k \<Rightarrow> 's \<Rightarrow> (('e + unit) \<times> 's) option"
  assumes ins_ok: "inva s \<Longrightarrow> load s < limit \<Longrightarrow> \<exists>r s'. ins v s = Some (r, s') \<and> inva s' \<and> load s' \<le> Suc (load s) \<and>
      (case r of Inl e \<Rightarrow> view s' = view s | Inr k \<Rightarrow> view s k = None \<and> view s' = (view s)(k \<mapsto> v))"
    and del_ok: "inva s \<Longrightarrow> \<exists>r s'. del k s = Some (r, s') \<and> inva s' \<and> load s' \<le> load s \<and>
      (case r of Inl e \<Rightarrow> view s k = None \<and> view s' = view s | Inr u \<Rightarrow> view s k \<noteq> None \<and> view s' = (view s)(k := None))"
begin

lemma run_traces:
  "inva s \<Longrightarrow> load s + length ops \<le> limit \<Longrightarrow>
   \<exists>rs s'. reg_run ins del ops s = Some (rs, s') \<and> inva s' \<and> reg_trace (view s) ops rs (view s')"
proof (induction ops arbitrary: s)
  case Nil
  then show ?case by (auto intro: reg_trace.intros)
next
  case (Cons a ops)
  show ?case
  proof (cases a)
    case (Register v)
    have "load s < limit" using Cons.prems(2) by simp
    from ins_ok [OF Cons.prems(1) this, of v] obtain r s1 where r: "ins v s = Some (r, s1)" "inva s1" "load s1 \<le> Suc (load s)"
      "case r of Inl e \<Rightarrow> view s1 = view s | Inr k \<Rightarrow> view s k = None \<and> view s1 = (view s)(k \<mapsto> v)" by blast
    obtain rs s' where "reg_run ins del ops s1 = Some (rs, s')" "inva s'" "reg_trace (view s1) ops rs (view s')"
      using Cons.IH [OF r(2)] Cons.prems(2) r(3) by auto
    with r show ?thesis unfolding Register by (cases r) (auto intro: reg_trace.intros)
  next
    case (Unregister k)
    from del_ok [OF Cons.prems(1), of k] obtain r s1 where r: "del k s = Some (r, s1)" "inva s1" "load s1 \<le> load s"
      "case r of Inl e \<Rightarrow> view s k = None \<and> view s1 = view s | Inr u \<Rightarrow> view s k \<noteq> None \<and> view s1 = (view s)(k := None)" by blast
    obtain rs s' where "reg_run ins del ops s1 = Some (rs, s')" "inva s'" "reg_trace (view s1) ops rs (view s')"
      using Cons.IH [OF r(2)] Cons.prems(2) r(3) by auto
    with r show ?thesis unfolding Unregister by (cases r) (auto intro: reg_trace.intros)
  qed
qed

end

definition poller_register :: "(nat \<Rightarrow> bool) \<Rightarrow> registration \<Rightarrow> poller \<Rightarrow> ((poller_error + int) \<times> poller) option" where
  "poller_register al v p = (case v of (sock, fd, events) \<Rightarrow> addItem al fd sock (uint events) p)"

interpretation poller: id_registry poller_ok poller_map used_count "2 ^ 30" "poller_register al" poller_remove
proof
  fix s and v :: registration assume "poller_ok s" "used_count s < 2 ^ 30"
  obtain sock fd ev where v: "v = (sock, fd, ev)" by (cases v)
  obtain r s' where a: "addItem al fd sock (uint ev) s = Some (r, s')" and
    b: "case r of Inl e \<Rightarrow> s' = s \<and> (\<exists>k. \<not> al k)
     | Inr idx \<Rightarrow> poller_ok s' \<and> poller_map s idx = None \<and>
         poller_map s' = (poller_map s)(idx \<mapsto> (sock, fd, word_of_int (uint ev))) \<and> used_count s' = Suc (used_count s)"
    using addItem_ok [OF \<open>poller_ok s\<close> \<open>used_count s < 2 ^ 30\<close>, of al fd sock "uint ev"] by blast
  show "\<exists>r s'. poller_register al v s = Some (r, s') \<and> poller_ok s' \<and> used_count s' \<le> Suc (used_count s) \<and>
      (case r of Inl e \<Rightarrow> poller_map s' = poller_map s
       | Inr k \<Rightarrow> poller_map s k = None \<and> poller_map s' = (poller_map s)(k \<mapsto> v))"
    using a b \<open>poller_ok s\<close> by (cases r) (auto simp: poller_register_def v)
next
  fix s k assume "poller_ok s"
  then show "\<exists>r s'. poller_remove k s = Some (r, s') \<and> poller_ok s' \<and> used_count s' \<le> used_count s \<and>
      (case r of Inl e \<Rightarrow> poller_map s k = None \<and> poller_map s' = poller_map s
       | Inr u \<Rightarrow> poller_map s k \<noteq> None \<and> poller_map s' = (poller_map s)(k := None))"
    using poller_remove_ok [of s k] by (fastforce split: sum.splits)
qed

text \<open>
  C9: the poller is a table of registrations that names its entries. Whatever sequence of
  \<open>add\<close> and \<open>remove\<close> calls a fresh poller receives, and whichever allocations fail, every call
  returns, and the identifiers and errors it answers are those of a map from identifiers to
  (socket, descriptor, events): an identifier given out was free, entries that are not
  removed keep their identifier while \<open>remove\<close> moves the items underneath, and removing
  an identifier fails exactly when it is not registered.
\<close>

theorem poller_is_registry:
  assumes "poller_new ok reserve = Inr p" "length ops \<le> 2 ^ 30"
  shows "\<exists>rs p'. reg_run (poller_register al) poller_remove ops p = Some (rs, p') \<and> poller_ok p' \<and>
    reg_trace Map.empty ops rs (poller_map p')"
proof -
  from poller_new_ok [OF assms(1)] assms(2) show ?thesis
    using poller.run_traces [of p ops al] by auto
qed

lemma poller_is_registry_witness:
  "\<exists>p rs p'. poller_new (\<lambda>_. True) 1 = Inr p \<and>
     reg_run (poller_register (\<lambda>_. True)) poller_remove
       [Register (None, 5, 1), Register (Some 9, 0, 1), Unregister 0, Unregister 0, Register (None, 6, 1)] p = Some (rs, p') \<and>
     rs = [Registered 0, Registered 1, Unregistered, Unknown, Registered 0] \<and>
     reg_trace Map.empty [Register (None, 5, 1), Register (Some 9, 0, 1), Unregister 0, Unregister 0, Register (None, 6, 1)] rs (poller_map p')"
proof -
  let ?ops = "[Register (None, 5, 1), Register (Some 9, 0, 1), Unregister 0, Unregister 0, Register (None, 6, 1)]"
  obtain p where p: "poller_new (\<lambda>_. True) 1 = Inr p" by (simp add: poller_new_def)
  obtain rs p' where run: "reg_run (poller_register (\<lambda>_. True)) poller_remove ?ops p = Some (rs, p')"
    "reg_trace Map.empty ?ops rs (poller_map p')"
    using poller_is_registry [OF p, of ?ops "\<lambda>_. True"] by auto
  moreover have "(case poller_new (\<lambda>_. True) 1 of Inl _ \<Rightarrow> False
     | Inr p \<Rightarrow> map_option fst (reg_run (poller_register (\<lambda>_. True)) poller_remove ?ops p) =
      Some [Registered 0, Registered 1, Unregistered, Unknown, Registered 0])"
    by code_simp
  ultimately show ?thesis using p by auto
qed

text \<open>
  Modifying a registered entry changes that entry and no other, and needs the identifier
  to be registered; \<open>pollitems_[-1]\<close> is written otherwise.
\<close>

theorem poller_modify_updates:
  assumes "poller_ok p" "events \<noteq> 0" "0 \<le> idx" "idx < int (pollitems_size p)"
  shows "(case poller_map p idx of
      None \<Rightarrow> poller_modify idx events target p = None
    | Some (sock, fd, old) \<Rightarrow> (\<exists>p'. poller_modify idx events target p = Some p' \<and> poller_ok p' \<and>
        poller_map p' = (poller_map p)(idx \<mapsto>
          (case target of None \<Rightarrow> (sock, fd, word_of_int events) | Some (TargetSocket s) \<Rightarrow> (Some s, 0, word_of_int events)
           | Some (TargetFd f) \<Rightarrow> (None, f, word_of_int events)))))"
proof (cases "poller_map p idx")
  case None
  then have "idx_to_pos p ! nat idx = -1" "nat idx < length (idx_to_pos p)"
    using assms by (auto simp: poller_map_eq [OF assms(1)] poller_ok_def Let_def split: if_splits)
  then show ?thesis using assms None by (simp add: poller_modify_def at_index_def)
next
  case (Some reg)
  obtain sock fd old where reg: "reg = (sock, fd, old)" by (cases reg)
  show ?thesis using poller_modify_ok [OF assms(1,2) Some [unfolded reg]] unfolding Some reg by simp
qed

lemma poller_modify_updates_witness:
  "\<exists>p r p1. poller_new (\<lambda>_. True) 2 = Inr p \<and> addItem (\<lambda>_. True) 5 None 1 p = Some (Inr r, p1) \<and> poller_ok p1 \<and>
     (\<exists>p2. poller_modify 0 3 None p1 = Some p2 \<and> poller_map p2 0 = Some (None, 5, 3)) \<and>
     poller_modify 1 3 None p1 = None"
proof -
  obtain p where p: "poller_new (\<lambda>_. True) 2 = Inr p" by (simp add: poller_new_def)
  have "case poller_new (\<lambda>_. True) 2 of Inl _ \<Rightarrow> False
     | Inr p \<Rightarrow> (case addItem (\<lambda>_. True) 5 None 1 p of
          Some (Inr i, p1) \<Rightarrow> i = 0 \<and> pollitems_size p1 = 2 \<and> poller_map p1 0 = Some (None, 5, 1) \<and> poller_map p1 1 = None
        | _ \<Rightarrow> False)"
    by code_simp
  then obtain p1 where p1: "addItem (\<lambda>_. True) 5 None 1 p = Some (Inr 0, p1)" "pollitems_size p1 = 2"
      "poller_map p1 0 = Some (None, 5, 1)" "poller_map p1 1 = None"
    using p by (cases "addItem (\<lambda>_. True) 5 None 1 p"; cases "fst (the (addItem (\<lambda>_. True) 5 None 1 p))")
      (auto split: prod.splits)
  have "poller_ok p1" using addItem_ok [of p "\<lambda>_. True" 5 None 1] poller_new_ok [OF p] p1(1) by auto
  then show ?thesis using p p1 poller_modify_updates [of p1 3 0 None] poller_modify_updates [of p1 3 1 None] by auto
qed

text \<open>
  C25: \<open>events\<close> after a \<open>poll\<close> that found \<open>n > 0\<close> items ready gives exactly the identifiers of the
  items whose event mask \<open>zmq_poll\<close> set, each once and all of them registered. The hypotheses on
  \<open>zmq_poll\<close> are its contract: one mask per item and the number of masks that are not zero.
\<close>

theorem poller_events_exact:
  assumes ok: "poller_ok p" and run: "\<not> interrupted p"
    and z: "zmq_poll (take (used_count p) (pollitems p)) t = (revents, n, err, sigint)"
    and len: "length revents = used_count p" and n: "n = int (length (filter (\<lambda>r. r \<noteq> 0) revents))" "0 < n"
  shows "\<exists>p1 ids p2. poller_poll zmq_poll t p = (Inr True, p1) \<and> poller_events p1 = (Some ids, p2) \<and>
    ids = map (\<lambda>pos. pos_to_idx p ! pos) (filter (\<lambda>pos. revents ! pos \<noteq> 0) [0..<used_count p]) \<and> distinct ids \<and>
    (\<forall>idx \<in> set ids. poller_map p idx \<noteq> None) \<and> poller_map p1 = poller_map p \<and> poller_ok p1"
proof -
  let ?u = "used_count p" and ?n = "pollitems_size p"
  have l: "length (pollitems p) = ?n" "length (idx_to_pos p) = ?n" "length (pos_to_idx p) = ?n" "?u \<le> ?n"
    using ok by (auto simp: poller_ok_def Let_def)
  have pos: "\<exists>k < ?n. pos_to_idx p ! q = int k \<and> idx_to_pos p ! k = int q" if "q < ?u" for q
    using that ok unfolding poller_ok_def Let_def by blast
  let ?items = "map2 (\<lambda>r it. it\<lparr>pi_revents := r\<rparr>) revents (take ?u (pollitems p))"
  let ?p1 = "p\<lparr>pollitems := ?items @ drop ?u (pollitems p), event_count := n, interrupted := sigint\<rparr>"
  have li: "length ?items = ?u" using l len by simp
  have poll: "poller_poll zmq_poll t p = (Inr True, ?p1)"
    using run z n(2) by (simp add: poller_poll_def)
  have ok1: "poller_ok ?p1" using ok l li by (simp add: poller_ok_def Let_def)
  have "map item_reg ?items = map item_reg (take ?u (pollitems p))"
    using l len by (auto simp: list_eq_iff_nth_eq item_reg_def)
  then have "map item_reg (pollitems ?p1) = map item_reg (take ?u (pollitems p) @ drop ?u (pollitems p))"
    unfolding poller.simps map_append by simp
  then have regs: "map item_reg (pollitems ?p1) = map item_reg (pollitems p)"
    unfolding append_take_drop_id .
  have "map_option item_reg (at_index (pollitems ?p1) i) = map_option item_reg (at_index (pollitems p) i)" for i
    using regs unfolding at_index_map by simp
  then have map1: "poller_map ?p1 = poller_map p" by (simp add: poller_map_def fun_eq_iff cong: if_cong)
  let ?z = "zip ?items (take ?u (pos_to_idx p))"
  let ?ids = "map (\<lambda>pos. pos_to_idx p ! pos) (filter (\<lambda>pos. revents ! pos \<noteq> 0) [0..<?u])"
  have z: "?z = map (\<lambda>pos. ((pollitems p ! pos)\<lparr>pi_revents := revents ! pos\<rparr>, pos_to_idx p ! pos)) [0..<?u]"
    using l len by (auto simp: list_eq_iff_nth_eq)
  have rev: "revents = map (\<lambda>pos. revents ! pos) [0..<?u]" using len by (simp add: list_eq_iff_nth_eq)
  have "length (filter (\<lambda>r. r \<noteq> 0) revents) = length (filter (\<lambda>pos. revents ! pos \<noteq> 0) [0..<?u])"
    by (subst rev) (simp add: filter_map comp_def)
  then have "int (length (filter (\<lambda>x. pi_revents (fst x) \<noteq> 0) ?z)) = n"
    using n(1) unfolding z by (simp add: filter_map comp_def)
  then have "events_loop n ?z [] = map snd (filter (\<lambda>x. pi_revents (fst x) \<noteq> 0) ?z)"
    using events_loop_all [of "[]" ?z n] n(2) by simp
  also have "\<dots> = ?ids" unfolding z by (simp add: filter_map comp_def)
  finally have ev: "poller_events ?p1 = (Some ?ids, ?p1\<lparr>event_count := 0\<rparr>)"
    using n(2) li by (simp add: poller_events_def)
  have "inj_on (\<lambda>pos. pos_to_idx p ! pos) {..<?u}"
  proof (rule inj_onI)
    fix x y assume xy: "x \<in> {..<?u}" "y \<in> {..<?u}" "pos_to_idx p ! x = pos_to_idx p ! y"
    obtain k where "pos_to_idx p ! x = int k" "idx_to_pos p ! k = int x" using pos [of x] xy(1) by auto
    moreover obtain k' where "pos_to_idx p ! y = int k'" "idx_to_pos p ! k' = int y" using pos [of y] xy(2) by auto
    ultimately show "x = y" using xy(3) by auto
  qed
  then have "distinct ?ids" by (auto simp: distinct_map intro: inj_on_subset)
  moreover have "\<forall>idx \<in> set ?ids. poller_map p idx \<noteq> None"
    using pos by (fastforce simp: poller_map_eq [OF ok])
  ultimately show ?thesis using poll ev ok1 map1 by blast
qed

lemma poller_events_exact_witness:
  "\<exists>p p1 p2 p3. poller_new (\<lambda>_. True) 2 = Inr p \<and> addItem (\<lambda>_. True) 5 None 1 p = Some (Inr 0, p1) \<and>
     poller_poll (\<lambda>_ _. ([1], 1, 0, False)) 0 p1 = (Inr True, p2) \<and> poller_events p2 = (Some [0], p3)"
proof -
  obtain p where p: "poller_new (\<lambda>_. True) 2 = Inr p" by (simp add: poller_new_def)
  have "case poller_new (\<lambda>_. True) 2 of Inl _ \<Rightarrow> False
     | Inr p \<Rightarrow> (case addItem (\<lambda>_. True) 5 None 1 p of
          Some (Inr i, p1) \<Rightarrow> i = 0 \<and> used_count p1 = 1 \<and> \<not> interrupted p1 \<and> pos_to_idx p1 ! 0 = 0
        | _ \<Rightarrow> False)"
    by code_simp
  then obtain p1 where p1: "addItem (\<lambda>_. True) 5 None 1 p = Some (Inr 0, p1)" "used_count p1 = 1" "\<not> interrupted p1"
      "pos_to_idx p1 ! 0 = 0"
    using p by (cases "addItem (\<lambda>_. True) 5 None 1 p"; cases "fst (the (addItem (\<lambda>_. True) 5 None 1 p))")
      (auto split: prod.splits)
  have "poller_ok p1" using addItem_ok [of p "\<lambda>_. True" 5 None 1] poller_new_ok [OF p] p1(1) by auto
  then show ?thesis using p p1 poller_events_exact [of p1 "\<lambda>_ _. ([1], 1, 0, False)" 0 "[1]" 1 0 False] by auto
qed


subsection \<open>The interrupt hook\<close>

text \<open>
  The first poller of a thread registers itself under a thread-specific key; the handler of
  \<open>SIGINT\<close> follows the pointer it finds there. The destructor leaves the key alone.
\<close>

record hook_state =
  hk_key :: "nat option"
  hk_live :: "nat set"
  hk_interrupted :: "nat set"
  hk_handler :: bool

definition setupInterruptHook :: "nat \<Rightarrow> hook_state \<Rightarrow> hook_state" where
  "setupInterruptHook this s =
     (let s = s\<lparr>hk_live := insert this (hk_live s)\<rparr> in
      if hk_key s = None then s\<lparr>hk_key := Some this, hk_handler := True\<rparr> else s)"

definition poller_destroy :: "nat \<Rightarrow> hook_state \<Rightarrow> hook_state" where
  "poller_destroy this s = s\<lparr>hk_live := hk_live s - {this}\<rparr>"

definition sInterrupted :: "hook_state \<Rightarrow> hook_state option" where
  "sInterrupted s =
     do { let s = s\<lparr>hk_handler := False\<rparr>;
          p \<leftarrow> hk_key s;
          guard_c (p \<in> hk_live s);
          Some (s\<lparr>hk_interrupted := insert p (hk_interrupted s)\<rparr>) }"

text \<open>
  An interrupt reaches the first poller of the thread as long as it is alive, whatever other
  pollers come and go; once it has been destroyed the handler writes to freed memory, even if
  a second poller is still polling.
\<close>

theorem interrupt_only_first_poller:
  assumes "hk_key s = None" "p \<noteq> q"
  defines "both \<equiv> setupInterruptHook q (setupInterruptHook p s)"
  shows "(\<exists>s'. sInterrupted both = Some s' \<and> p \<in> hk_interrupted s' \<and> (q \<in> hk_interrupted s' \<longleftrightarrow> q \<in> hk_interrupted s)) \<and>
    (\<exists>s'. sInterrupted (poller_destroy q both) = Some s' \<and> p \<in> hk_interrupted s') \<and>
    sInterrupted (poller_destroy p both) = None"
  using assms(1,2) by (auto simp: both_def setupInterruptHook_def sInterrupted_def poller_destroy_def Let_def)

lemma interrupt_only_first_poller_witness:
  "sInterrupted (poller_destroy 1 (setupInterruptHook 2 (setupInterruptHook 1
     \<lparr>hk_key = None, hk_live = {}, hk_interrupted = {}, hk_handler = False\<rparr>))) = None"
  using interrupt_only_first_poller [of "\<lparr>hk_key = None, hk_live = {}, hk_interrupted = {}, hk_handler = False\<rparr>" 1 2] by simp

end
