(* ===== verification/LkFifo.thy ===== *)
theory LkFifo
  imports Prelude "HOL-Library.Multiset"
begin

text \<open>
  The lock-protected ring buffer of \<open>modules/core/include/lk/Fifo.h\<close> and the mutex of
  \<open>modules/core/include/lk/Mutex.h\<close>. The first part models the operations as they run under the
  lock: \<open>fifo_new\<close> (the constructor, over the result of \<open>pipe()\<close>), \<open>fifo_push\<close>, \<open>fifo_pop\<close>,
  \<open>hasMessage\<close> and the destructor \<open>fifo_destroy\<close>. The buffer has 1024 cells of which at most 1023
  are used; \<open>ring\<close> is the queue they hold. The second part takes the same operations apart at
  every access to shared data and interleaves any number of threads (\<open>fifo_step\<close>). The capacity
  of the pipe is a parameter \<open>cap\<close>, at least 1024 bytes (65536 on the systems lubyk runs on).
\<close>

subsection \<open>The ring buffer\<close>

definition BUFFER_SIZE :: nat where "BUFFER_SIZE = 1024"

text \<open>
  \<open>fi_pipe\<close> counts the bytes waiting in the pipe, \<open>fi_fds\<close> are its two descriptors,
  \<open>fi_deleted\<close> the elements the fifo has deleted, in order. A cell that has not been written
  is \<open>None\<close>.
\<close>

record 'a fifo =
  read_idx :: nat
  write_idx :: nat
  fi_data :: "'a option list"
  fi_pipe :: nat
  fi_fds :: "nat \<times> nat"
  fi_deleted :: "'a list"

text \<open>\<open>pipe\<close> gives the two descriptors or fails; the exception is the value \<open>Inl\<close>.\<close>

definition fifo_new :: "(nat \<times> nat) option \<Rightarrow> string + 'a fifo" where
  "fifo_new pipe =
     (case pipe of None \<Rightarrow> Inl ''Could not setup pipe during Fifo creation''
      | Some fds \<Rightarrow> Inr \<lparr>read_idx = 0, write_idx = 0, fi_data = replicate BUFFER_SIZE None, fi_pipe = 0,
                     fi_fds = fds, fi_deleted = []\<rparr>)"

text \<open>The pipe is non-blocking: a write to a full pipe and a read from an empty one change nothing.\<close>

definition pipe_write :: "nat \<Rightarrow> 'a fifo \<Rightarrow> 'a fifo" where
  "pipe_write cap f = (if fi_pipe f < cap then f\<lparr>fi_pipe := Suc (fi_pipe f)\<rparr> else f)"

definition pipe_read :: "'a fifo \<Rightarrow> 'a fifo" where
  "pipe_read f = f\<lparr>fi_pipe := fi_pipe f - 1\<rparr>"

definition fifo_delete :: "'a \<Rightarrow> 'a fifo \<Rightarrow> 'a fifo" where
  "fifo_delete x f = f\<lparr>fi_deleted := fi_deleted f @ [x]\<rparr>"

definition fifo_fd :: "'a fifo \<Rightarrow> nat" where
  "fifo_fd f = fst (fi_fds f)"

definition hasMessage :: "'a fifo \<Rightarrow> bool" where
  "hasMessage f \<longleftrightarrow> read_idx f \<noteq> write_idx f"

text \<open>\<open>push\<close> and \<open>pop\<close> under the lock. A full buffer deletes what it is given.\<close>

definition fifo_push :: "nat \<Rightarrow> 'a \<Rightarrow> 'a fifo \<Rightarrow> bool \<times> 'a fifo" where
  "fifo_push cap x f =
     (let next = (write_idx f + 1) mod BUFFER_SIZE in
      if next \<noteq> read_idx f then
        let f = f\<lparr>fi_data := (fi_data f)[write_idx f := Some x]\<rparr>; f = f\<lparr>write_idx := next\<rparr> in
        (True, pipe_write cap f)
      else (False, fifo_delete x f))"

text \<open>
  \<open>unpack\<close> is the virtual function of the subclass: it returns the number of values it has put on
  the Lua stack, or throws, and then the element is neither in the buffer nor deleted.
\<close>

definition fifo_pop :: "('a \<Rightarrow> 'e + 'r) \<Rightarrow> 'a fifo \<Rightarrow> (('e + 'r option) \<times> 'a fifo) option" where
  "fifo_pop unpack f =
     (if read_idx f = write_idx f then Some (Inr None, f)
      else do {
        let next = (read_idx f + 1) mod BUFFER_SIZE;
        x \<leftarrow> fi_data f ! read_idx f;
        let f = pipe_read (f\<lparr>read_idx := next\<rparr>);
        case unpack x of Inl e \<Rightarrow> Some (Inl e, f)
        | Inr ret \<Rightarrow> Some (Inr (Some ret), fifo_delete x f) })"

text \<open>The destructor; it leaves the descriptors of the pipe open.\<close>

partial_function (option) fifo_drain :: "'a fifo \<Rightarrow> 'a fifo option" where
  "fifo_drain f =
     (if read_idx f \<noteq> write_idx f then
        do { let next = (read_idx f + 1) mod BUFFER_SIZE;
             x \<leftarrow> fi_data f ! read_idx f;
             fifo_drain (pipe_read ((fifo_delete x f)\<lparr>read_idx := next\<rparr>)) }
      else Some f)"

definition fifo_destroy :: "nat set \<Rightarrow> 'a fifo \<Rightarrow> (nat set \<times> 'a fifo) option" where
  "fifo_destroy open_fds f = do { f \<leftarrow> fifo_drain f; Some (open_fds, f) }"

subsection \<open>What is in the buffer\<close>

definition ring_length :: "'a fifo \<Rightarrow> nat" where
  "ring_length f = (write_idx f + BUFFER_SIZE - read_idx f) mod BUFFER_SIZE"

definition ring :: "'a fifo \<Rightarrow> 'a list" where
  "ring f = map (\<lambda>k. the (fi_data f ! ((read_idx f + k) mod BUFFER_SIZE))) [0..<ring_length f]"

definition ring_ok :: "'a fifo \<Rightarrow> bool" where
  "ring_ok f \<longleftrightarrow> read_idx f < BUFFER_SIZE \<and> write_idx f < BUFFER_SIZE \<and> length (fi_data f) = BUFFER_SIZE \<and>
     (\<forall>k < ring_length f. fi_data f ! ((read_idx f + k) mod BUFFER_SIZE) \<noteq> None)"

definition fifo_ok :: "'a fifo \<Rightarrow> bool" where
  "fifo_ok f \<longleftrightarrow> ring_ok f \<and> fi_pipe f = ring_length f"

lemma ring_length_less: "ring_length f < BUFFER_SIZE"
  by (simp add: ring_length_def BUFFER_SIZE_def)

lemma length_ring [simp]: "length (ring f) = ring_length f"
  by (simp add: ring_def)

lemma ring_length_cases:
  assumes "read_idx f < BUFFER_SIZE" "write_idx f < BUFFER_SIZE"
  shows "ring_length f = (if read_idx f \<le> write_idx f then write_idx f - read_idx f
                          else write_idx f + BUFFER_SIZE - read_idx f)"
  using assms by (auto simp: ring_length_def mod_if)

lemma next_idx: "i < BUFFER_SIZE \<Longrightarrow> Suc i mod BUFFER_SIZE = (if Suc i = BUFFER_SIZE then 0 else Suc i)"
  by (auto simp: BUFFER_SIZE_def)

lemma BUFFER_SIZE_pos: "1 < BUFFER_SIZE"
  by (simp add: BUFFER_SIZE_def)

lemma ring_empty_iff: "ring_ok f \<Longrightarrow> ring_length f = 0 \<longleftrightarrow> read_idx f = write_idx f"
  by (auto simp: ring_ok_def ring_length_cases)

lemma ring_full_iff:
  "ring_ok f \<Longrightarrow> (write_idx f + 1) mod BUFFER_SIZE = read_idx f \<longleftrightarrow> ring_length f = BUFFER_SIZE - 1"
  using BUFFER_SIZE_pos by (auto simp: ring_ok_def ring_length_cases next_idx split: if_splits)

lemma ring_write_idx: "ring_ok f \<Longrightarrow> (read_idx f + ring_length f) mod BUFFER_SIZE = write_idx f"
  by (auto simp: ring_ok_def ring_length_cases)

lemma ring_idx_inj:
  assumes "r < BUFFER_SIZE" "j < BUFFER_SIZE" "k < BUFFER_SIZE" "(r + j) mod BUFFER_SIZE = (r + k) mod BUFFER_SIZE"
  shows "j = k"
  using assms by (auto simp: mod_if split: if_splits)

text \<open>Writing the free cell and advancing the write index appends; advancing the read index drops the first.\<close>

lemma ring_store:
  assumes "ring_ok f"
  shows "ring_ok (f\<lparr>fi_data := (fi_data f)[write_idx f := Some x]\<rparr>)"
    "ring (f\<lparr>fi_data := (fi_data f)[write_idx f := Some x]\<rparr>) = ring f"
    "ring_length (f\<lparr>fi_data := (fi_data f)[write_idx f := Some x]\<rparr>) = ring_length f"
proof -
  let ?f = "f\<lparr>fi_data := (fi_data f)[write_idx f := Some x]\<rparr>"
  show len: "ring_length ?f = ring_length f" by (simp add: ring_length_def)
  have other: "write_idx f \<noteq> (read_idx f + k) mod BUFFER_SIZE" if "k < ring_length f" for k
    using ring_idx_inj [of "read_idx f" k "ring_length f"] ring_write_idx [OF assms] that ring_length_less [of f] assms
    by (auto simp: ring_ok_def)
  have "(fi_data f)[write_idx f := Some x] ! ((read_idx f + k) mod BUFFER_SIZE) \<noteq> None" if "k < ring_length f" for k
    using assms other [OF that] that by (simp add: ring_ok_def)
  then show "ring_ok ?f" using assms unfolding ring_ok_def len by simp
  show "ring ?f = ring f" using other by (auto simp: ring_def len)
qed

lemma ring_advance:
  assumes ok: "ring_ok f" and x: "fi_data f ! write_idx f = Some x" and room: "(write_idx f + 1) mod BUFFER_SIZE \<noteq> read_idx f"
  shows "ring_ok (f\<lparr>write_idx := (write_idx f + 1) mod BUFFER_SIZE\<rparr>)"
    "ring (f\<lparr>write_idx := (write_idx f + 1) mod BUFFER_SIZE\<rparr>) = ring f @ [x]"
proof -
  let ?f = "f\<lparr>write_idx := (write_idx f + 1) mod BUFFER_SIZE\<rparr>"
  have b: "read_idx f < BUFFER_SIZE" "write_idx f < BUFFER_SIZE" using ok by (simp_all add: ring_ok_def)
  have w: "write_idx ?f < BUFFER_SIZE" by (simp add: BUFFER_SIZE_def)
  have len: "ring_length ?f = Suc (ring_length f)"
    using ring_length_cases [of ?f] ring_length_cases [of f] b w room by (auto simp: next_idx split: if_splits)
  have last: "(read_idx f + ring_length f) mod BUFFER_SIZE = write_idx f" by (rule ring_write_idx [OF ok])
  show "ring_ok ?f" using ok w x last len by (auto simp: ring_ok_def less_Suc_eq)
  show "ring ?f = ring f @ [x]" using x last by (simp add: ring_def len [simplified])
qed

lemma ring_drop:
  assumes ok: "ring_ok f" and ne: "read_idx f \<noteq> write_idx f"
  shows "\<exists>x. fi_data f ! read_idx f = Some x \<and> ring f = x # ring (f\<lparr>read_idx := (read_idx f + 1) mod BUFFER_SIZE\<rparr>) \<and>
    ring_ok (f\<lparr>read_idx := (read_idx f + 1) mod BUFFER_SIZE\<rparr>)"
proof -
  let ?f = "f\<lparr>read_idx := (read_idx f + 1) mod BUFFER_SIZE\<rparr>"
  have b: "read_idx f < BUFFER_SIZE" "write_idx f < BUFFER_SIZE" using ok by (simp_all add: ring_ok_def)
  have r: "read_idx ?f < BUFFER_SIZE" by (simp add: BUFFER_SIZE_def)
  have len: "ring_length f = Suc (ring_length ?f)"
    using ring_length_cases [of ?f] ring_length_cases [of f] b r ne by (auto simp: next_idx split: if_splits)
  have cell: "(read_idx ?f + k) mod BUFFER_SIZE = (read_idx f + Suc k) mod BUFFER_SIZE" for k
    by (simp add: mod_simps)
  have first: "(read_idx f + 0) mod BUFFER_SIZE = read_idx f" using b by simp
  obtain x where x: "fi_data f ! read_idx f = Some x" using ok first len by (force simp: ring_ok_def)
  have "ring f = x # ring ?f"
    using x first cell by (simp add: ring_def len upt_conv_Cons map_Suc_upt [symmetric] comp_def del: upt_Suc)
  moreover have "ring_ok ?f" using ok r cell len by (auto simp: ring_ok_def)
  ultimately show ?thesis using x by blast
qed

subsection \<open>A bounded queue\<close>

text \<open>
  The contract of a queue that holds up to \<open>bound\<close> elements and refuses more, with what the
  client may conclude about any sequence of calls.
\<close>

datatype 'a queue_op = Enq 'a | Deq
datatype 'a queue_result = Stored | Full | Got 'a | Empty

fun queue_run :: "('a \<Rightarrow> 's \<Rightarrow> bool \<times> 's) \<Rightarrow> ('s \<Rightarrow> ('a option \<times> 's) option) \<Rightarrow> 'a queue_op list \<Rightarrow> 's \<Rightarrow>
    ('a queue_result list \<times> 's) option" where
  "queue_run enq deq [] s = Some ([], s)"
| "queue_run enq deq (Enq x # ops) s =
     (let (b, s) = enq x s in
      do { (rs, s) \<leftarrow> queue_run enq deq ops s; Some ((if b then Stored else Full) # rs, s) })"
| "queue_run enq deq (Deq # ops) s =
     do { (r, s) \<leftarrow> deq s; (rs, s) \<leftarrow> queue_run enq deq ops s;
          Some ((case r of None \<Rightarrow> Empty | Some x \<Rightarrow> Got x) # rs, s) }"

text \<open>The same calls on a list.\<close>

fun list_queue :: "nat \<Rightarrow> 'a queue_op list \<Rightarrow> 'a list \<Rightarrow> 'a queue_result list \<times> 'a list" where
  "list_queue bound [] xs = ([], xs)"
| "list_queue bound (Enq x # ops) xs =
     (if length xs < bound then let (rs, ys) = list_queue bound ops (xs @ [x]) in (Stored # rs, ys)
      else let (rs, ys) = list_queue bound ops xs in (Full # rs, ys))"
| "list_queue bound (Deq # ops) xs =
     (case xs of [] \<Rightarrow> (let (rs, ys) = list_queue bound ops [] in (Empty # rs, ys))
      | x # xs \<Rightarrow> (let (rs, ys) = list_queue bound ops xs in (Got x # rs, ys)))"

locale bounded_queue =
  fixes inva :: "'s \<Rightarrow> bool" and items :: "'s \<Rightarrow> 'a list" and bound :: nat
    and enq :: "'a \<Rightarrow> 's \<Rightarrow> bool \<times> 's" and deq :: "'s \<Rightarrow> ('a option \<times> 's) option"
  assumes enq_room: "inva s \<Longrightarrow> length (items s) < bound \<Longrightarrow>
      \<exists>s'. enq x s = (True, s') \<and> inva s' \<and> items s' = items s @ [x]"
    and enq_full: "inva s \<Longrightarrow> bound \<le> length (items s) \<Longrightarrow>
      \<exists>s'. enq x s = (False, s') \<and> inva s' \<and> items s' = items s"
    and deq_some: "inva s \<Longrightarrow> items s = x # xs \<Longrightarrow> \<exists>s'. deq s = Some (Some x, s') \<and> inva s' \<and> items s' = xs"
    and deq_none: "inva s \<Longrightarrow> items s = [] \<Longrightarrow> \<exists>s'. deq s = Some (None, s') \<and> inva s' \<and> items s' = []"
begin

lemma run_list:
  "inva s \<Longrightarrow> \<exists>s'. queue_run enq deq ops s = Some (fst (list_queue bound ops (items s)), s') \<and> inva s' \<and>
     items s' = snd (list_queue bound ops (items s))"
proof (induction ops arbitrary: s)
  case Nil
  then show ?case by simp
next
  case (Cons a ops)
  show ?case
  proof (cases a)
    case (Enq x)
    show ?thesis
    proof (cases "length (items s) < bound")
      case True
      obtain s1 where "enq x s = (True, s1)" "inva s1" "items s1 = items s @ [x]"
        using enq_room [OF Cons.prems True] by blast
      then show ?thesis using Cons.IH [of s1] Enq True by (auto split: prod.splits)
    next
      case False
      then obtain s1 where "enq x s = (False, s1)" "inva s1" "items s1 = items s"
        using enq_full [OF Cons.prems] not_less by blast
      then show ?thesis using Cons.IH [of s1] Enq False by (auto split: prod.splits)
    qed
  next
    case Deq
    show ?thesis
    proof (cases "items s")
      case Nil
      obtain s1 where "deq s = Some (None, s1)" "inva s1" "items s1 = []"
        using deq_none [OF Cons.prems Nil] by blast
      then show ?thesis using Cons.IH [of s1] Deq Nil by (auto split: prod.splits)
    next
      case (Cons x xs)
      obtain s1 where "deq s = Some (Some x, s1)" "inva s1" "items s1 = xs"
        using deq_some [OF Cons.prems Cons] by blast
      then show ?thesis using Cons.IH [of s1] Deq Cons by (auto split: prod.splits)
    qed
  qed
qed

end

lemma fifo_push_ok:
  assumes ok: "fifo_ok f" and cap: "BUFFER_SIZE \<le> cap"
  shows "(if ring_length f < BUFFER_SIZE - 1
     then fst (fifo_push cap x f) \<and> ring (snd (fifo_push cap x f)) = ring f @ [x] \<and> fi_deleted (snd (fifo_push cap x f)) = fi_deleted f
     else \<not> fst (fifo_push cap x f) \<and> ring (snd (fifo_push cap x f)) = ring f \<and>
       fi_deleted (snd (fifo_push cap x f)) = fi_deleted f @ [x]) \<and> fifo_ok (snd (fifo_push cap x f))"
proof -
  let ?next = "(write_idx f + 1) mod BUFFER_SIZE"
  have r: "ring_ok f" "fi_pipe f = ring_length f" using ok by (simp_all add: fifo_ok_def)
  let ?f1 = "f\<lparr>fi_data := (fi_data f)[write_idx f := Some x]\<rparr>"
  show ?thesis
  proof (cases "?next = read_idx f")
    case True
    then have full: "ring_length f = BUFFER_SIZE - 1" using ring_full_iff [OF r(1)] by simp
    have "ring (fifo_delete x f) = ring f" "ring_length (fifo_delete x f) = ring_length f"
      "ring_ok (fifo_delete x f) = ring_ok f"
      by (simp_all add: fifo_delete_def ring_def ring_length_def ring_ok_def)
    then show ?thesis using True full r by (simp add: fifo_push_def fifo_ok_def) (simp add: fifo_delete_def)
  next
    case False
    then have room: "ring_length f < BUFFER_SIZE - 1"
      using ring_full_iff [OF r(1)] ring_length_less [of f] by linarith
    note s = ring_store [OF r(1), of x]
    have "fi_data ?f1 ! write_idx ?f1 = Some x" using r(1) by (simp add: ring_ok_def)
    from ring_advance [OF s(1) this] False have a: "ring_ok (?f1\<lparr>write_idx := ?next\<rparr>)" "ring (?f1\<lparr>write_idx := ?next\<rparr>) = ring f @ [x]"
      using s(2) by simp_all
    then have "ring_length (?f1\<lparr>write_idx := ?next\<rparr>) = Suc (ring_length f)" by (metis length_ring length_append_singleton)
    moreover have "fi_pipe f < cap" using r(2) ring_length_less [of f] cap by simp
    then have "fifo_push cap x f = (True, ?f1\<lparr>write_idx := ?next, fi_pipe := Suc (fi_pipe f)\<rparr>)"
      using False by (simp add: fifo_push_def pipe_write_def Let_def)
    ultimately show ?thesis using a r(2) room
      by (simp add: fifo_ok_def ring_def ring_length_def ring_ok_def)
  qed
qed

lemma fifo_pop_ok:
  assumes ok: "fifo_ok f"
  shows "(case ring f of [] \<Rightarrow> fifo_pop unpack f = Some (Inr None, f)
    | x # xs \<Rightarrow> (\<exists>f'. fifo_pop unpack f = Some (map_sum id Some (unpack x), f') \<and> fifo_ok f' \<and> ring f' = xs \<and>
        fi_deleted f' = fi_deleted f @ (case unpack x of Inl _ \<Rightarrow> [] | Inr _ \<Rightarrow> [x])))"
proof -
  have r: "ring_ok f" "fi_pipe f = ring_length f" using ok by (simp_all add: fifo_ok_def)
  show ?thesis
  proof (cases "read_idx f = write_idx f")
    case True
    then have "ring f = []" using ring_empty_iff [OF r(1)] by (metis length_0_conv length_ring)
    then show ?thesis using True by (simp add: fifo_pop_def)
  next
    case False
    let ?g = "f\<lparr>read_idx := (read_idx f + 1) mod BUFFER_SIZE\<rparr>"
    obtain x where x: "fi_data f ! read_idx f = Some x" "ring f = x # ring ?g" "ring_ok ?g"
      using ring_drop [OF r(1) False] by blast
    then have len: "ring_length f = Suc (ring_length ?g)" by (metis length_Cons length_ring)
    have g: "ring (pipe_read ?g) = ring ?g" "ring_ok (pipe_read ?g)" "ring_length (pipe_read ?g) = ring_length ?g"
      "fi_pipe (pipe_read ?g) = ring_length ?g" "fi_deleted (pipe_read ?g) = fi_deleted f"
      using x(3) len r(2) by (simp_all add: pipe_read_def ring_def ring_ok_def ring_length_def)
    have d: "ring (fifo_delete x h) = ring h" "ring_ok (fifo_delete x h) = ring_ok h"
      "ring_length (fifo_delete x h) = ring_length h" "fi_pipe (fifo_delete x h) = fi_pipe h"
      "fi_deleted (fifo_delete x h) = fi_deleted h @ [x]" for h :: "'a fifo"
      by (simp_all add: fifo_delete_def ring_def ring_ok_def ring_length_def)
    show ?thesis using False x(1,2) g d
      by (cases "unpack x") (simp_all add: fifo_pop_def fifo_ok_def Let_def)
  qed
qed

text \<open>A \<open>pop\<close> whose \<open>unpack\<close> returns the element.\<close>

definition fifo_deq :: "'a fifo \<Rightarrow> ('a option \<times> 'a fifo) option" where
  "fifo_deq f =
     do { (r, f) \<leftarrow> fifo_pop (Inr :: 'a \<Rightarrow> unit + 'a) f;
          Some (case r of Inl _ \<Rightarrow> None | Inr x \<Rightarrow> x, f) }"

lemma fifo_deq_ok:
  assumes "fifo_ok f"
  shows "(case ring f of [] \<Rightarrow> fifo_deq f = Some (None, f)
    | x # xs \<Rightarrow> (\<exists>f'. fifo_deq f = Some (Some x, f') \<and> fifo_ok f' \<and> ring f' = xs \<and> fi_deleted f' = fi_deleted f @ [x]))"
  using fifo_pop_ok [OF assms, of "Inr :: 'a \<Rightarrow> unit + 'a"] by (auto simp: fifo_deq_def split: list.splits)

interpretation fifo: bounded_queue fifo_ok ring "BUFFER_SIZE - 1" "fifo_push (BUFFER_SIZE + extra)" fifo_deq
proof
  fix s :: "'a fifo" and x :: 'a and xs
  assume ok: "fifo_ok s"
  note p = fifo_push_ok [OF ok, of "BUFFER_SIZE + extra" x]
  show "length (ring s) < BUFFER_SIZE - 1 \<Longrightarrow>
     \<exists>s'. fifo_push (BUFFER_SIZE + extra) x s = (True, s') \<and> fifo_ok s' \<and> ring s' = ring s @ [x]"
    using p by (cases "fifo_push (BUFFER_SIZE + extra) x s") auto
  show "BUFFER_SIZE - 1 \<le> length (ring s) \<Longrightarrow>
     \<exists>s'. fifo_push (BUFFER_SIZE + extra) x s = (False, s') \<and> fifo_ok s' \<and> ring s' = ring s"
    using p by (cases "fifo_push (BUFFER_SIZE + extra) x s") auto
  show "ring s = x # xs \<Longrightarrow> \<exists>s'. fifo_deq s = Some (Some x, s') \<and> fifo_ok s' \<and> ring s' = xs"
    using fifo_deq_ok [OF ok] by auto
  show "ring s = [] \<Longrightarrow> \<exists>s'. fifo_deq s = Some (None, s') \<and> fifo_ok s' \<and> ring s' = []"
    using fifo_deq_ok [OF ok] ok by auto
qed

lemma fifo_new_ok: "fifo_new pipe = Inr f \<Longrightarrow> fifo_ok f \<and> ring f = [] \<and> fi_deleted f = []"
  by (auto simp: fifo_new_def fifo_ok_def ring_ok_def ring_def ring_length_def BUFFER_SIZE_def split: option.splits)

primrec enqueued :: "'a queue_op list \<Rightarrow> 'a list" where
  "enqueued [] = []"
| "enqueued (a # ops) = (case a of Enq x \<Rightarrow> x # enqueued ops | Deq \<Rightarrow> enqueued ops)"

lemma fifo_run_deleted:
  "fifo_ok f \<Longrightarrow> BUFFER_SIZE \<le> cap \<Longrightarrow> queue_run (fifo_push cap) fifo_deq ops f = Some (rs, f') \<Longrightarrow>
   fifo_ok f' \<and> mset (fi_deleted f') + mset (ring f') = mset (fi_deleted f) + mset (ring f) + mset (enqueued ops)"
proof (induction ops arbitrary: f rs)
  case (Cons a ops)
  show ?case
  proof (cases a)
    case (Enq x)
    obtain b f1 where p: "fifo_push cap x f = (b, f1)" by fastforce
    from fifo_push_ok [OF Cons.prems(1,2), of x] p
    have f1: "fifo_ok f1" "mset (fi_deleted f1) + mset (ring f1) = mset (fi_deleted f) + mset (ring f) + {#x#}"
      by (auto split: if_splits)
    obtain rs' where "queue_run (fifo_push cap) fifo_deq ops f1 = Some (rs', f')"
      using Cons.prems(3) Enq p by (auto simp: bind_Some_iff)
    from Cons.IH [OF f1(1) Cons.prems(2) this] f1(2) Enq show ?thesis by simp
  next
    case Deq
    obtain r f1 where d: "fifo_deq f = Some (r, f1)" and
      f1: "fifo_ok f1" "mset (fi_deleted f1) + mset (ring f1) = mset (fi_deleted f) + mset (ring f)"
      using fifo_deq_ok [OF Cons.prems(1)] Cons.prems(1) by (cases "ring f") auto
    obtain rs' where "queue_run (fifo_push cap) fifo_deq ops f1 = Some (rs', f')"
      using Cons.prems(3) Deq d by (auto simp: bind_Some_iff)
    from Cons.IH [OF f1(1) Cons.prems(2) this] f1(2) Deq show ?thesis by simp
  qed
qed simp

lemma fifo_drain_ok:
  "fifo_ok f \<Longrightarrow> \<exists>f'. fifo_drain f = Some f' \<and> ring f' = [] \<and> fi_pipe f' = 0 \<and> fi_deleted f' = fi_deleted f @ ring f"
proof (induction "ring_length f" arbitrary: f)
  case 0
  then have "read_idx f = write_idx f" "ring f = []" using ring_empty_iff [of f]
    by (simp_all add: fifo_ok_def) (metis length_0_conv length_ring)
  then show ?case using 0 by (simp add: fifo_drain.simps fifo_ok_def)
next
  case (Suc n)
  then have r: "ring_ok f" "fi_pipe f = Suc n" by (simp_all add: fifo_ok_def)
  then have ne: "read_idx f \<noteq> write_idx f" using ring_empty_iff [of f] Suc.hyps(2) by simp
  let ?g = "f\<lparr>read_idx := (read_idx f + 1) mod BUFFER_SIZE\<rparr>"
  obtain x where x: "fi_data f ! read_idx f = Some x" "ring f = x # ring ?g" "ring_ok ?g"
    using ring_drop [OF r(1) ne] by blast
  let ?h = "pipe_read ((fifo_delete x f)\<lparr>read_idx := (read_idx f + 1) mod BUFFER_SIZE\<rparr>)"
  have h: "ring ?h = ring ?g" "ring_length ?h = ring_length ?g" "ring_ok ?h" "fi_pipe ?h = n" "fi_deleted ?h = fi_deleted f @ [x]"
    using x(3) r(2) by (simp_all add: pipe_read_def fifo_delete_def ring_def ring_ok_def ring_length_def)
  have "ring_length ?g = n" using x(2) Suc.hyps(2) by (metis length_Cons length_ring nat.inject)
  then obtain f' where "fifo_drain ?h = Some f'" "ring f' = []" "fi_pipe f' = 0" "fi_deleted f' = fi_deleted ?h @ ring ?h"
    using Suc.hyps(1) [of ?h] h by (auto simp: fifo_ok_def)
  with x h ne show ?case by (subst fifo_drain.simps) (simp add: Let_def)
qed

text \<open>
  C15: any sequence of \<open>push\<close> and \<open>pop\<close> calls on a fresh fifo behaves as a queue of at most 1023
  elements that refuses what does not fit: \<open>pop\<close> gives the elements in the order they were pushed
  and never reads a cell that was not written, \<open>push\<close> fails exactly when 1023 are waiting, and the
  descriptor is readable (there is a byte in the pipe) exactly when there is a message.
\<close>

theorem fifo_is_bounded_queue:
  assumes "fifo_new pipe = Inr f" "BUFFER_SIZE \<le> cap"
  shows "\<exists>f'. queue_run (fifo_push cap) fifo_deq ops f = Some (fst (list_queue 1023 ops []), f') \<and>
    ring f' = snd (list_queue 1023 ops []) \<and> fi_pipe f' = length (ring f') \<and> (hasMessage f' \<longleftrightarrow> 0 < fi_pipe f')"
proof -
  obtain extra where cap: "cap = BUFFER_SIZE + extra" using assms(2) le_Suc_ex by blast
  have ok: "fifo_ok f" "ring f = []" using fifo_new_ok [OF assms(1)] by simp_all
  obtain f' where f': "queue_run (fifo_push cap) fifo_deq ops f = Some (fst (list_queue 1023 ops []), f')" "fifo_ok f'"
    "ring f' = snd (list_queue 1023 ops [])"
    using fifo.run_list [OF ok(1), of extra ops] ok(2) cap by (auto simp: BUFFER_SIZE_def)
  then show ?thesis using ring_empty_iff [of f'] by (auto simp: fifo_ok_def hasMessage_def)
qed

lemma fifo_is_bounded_queue_witness:
  "\<exists>f f'. fifo_new (Some (3, 4)) = Inr f \<and>
     queue_run (fifo_push 65536) fifo_deq [Enq 7, Enq 8, Deq, Enq (9 :: nat), Deq, Deq, Deq] f =
       Some ([Stored, Stored, Got 7, Stored, Got 8, Got 9, Empty], f') \<and> \<not> hasMessage f'"
proof -
  obtain f :: "nat fifo" where f: "fifo_new (Some (3, 4)) = Inr f" by (simp add: fifo_new_def)
  have "BUFFER_SIZE \<le> 65536" by (simp add: BUFFER_SIZE_def)
  from fifo_is_bounded_queue [OF f this, of "[Enq 7, Enq 8, Deq, Enq 9, Deq, Deq, Deq]"]
  obtain f' where f': "queue_run (fifo_push 65536) fifo_deq [Enq 7, Enq 8, Deq, Enq 9, Deq, Deq, Deq] f =
       Some ([Stored, Stored, Got 7, Stored, Got 8, Got 9, Empty], f')" "ring f' = []" "fi_pipe f' = length (ring f')"
       "hasMessage f' \<longleftrightarrow> 0 < fi_pipe f'"
    by (auto simp del: queue_run.simps length_ring)
  then have "\<not> hasMessage f'" by (metis less_irrefl list.size(3))
  with f f'(1) show ?thesis by blast
qed



subsection \<open>Threads\<close>

text \<open>
  The mutex is held by one thread; a thread that finds it held waits in its \<open>*Lock\<close> state. The
  remaining states are the points of \<open>push\<close> and \<open>pop\<close> between two accesses to shared data, all
  inside the scope of the \<open>ScopedLock\<close>. \<open>fs_pushed\<close> and \<open>fs_popped\<close> record the elements in
  the order the indices are advanced.
\<close>

datatype 'a fifo_pc =
    Idle | PushLock 'a | PushCheck 'a | PushAdvance 'a | PushSignal | PushFull 'a
  | PopLock | PopCheck | PopAdvance 'a | PopDrain 'a | PopDelete 'a | ScopeEnd

definition critical :: "'a fifo_pc \<Rightarrow> bool" where
  "critical p = (case p of Idle \<Rightarrow> False | PushLock _ \<Rightarrow> False | PopLock \<Rightarrow> False | _ \<Rightarrow> True)"

record 'a fifo_sys =
  fs_fifo :: "'a fifo"
  fs_holder :: "nat option"
  fs_pc :: "nat \<Rightarrow> 'a fifo_pc"
  fs_pushed :: "'a list"
  fs_popped :: "'a list"

definition mutex_lock :: "nat \<Rightarrow> nat option \<Rightarrow> nat option option" where
  "mutex_lock t m = (if m = None then Some (Some t) else None)"

definition mutex_unlock :: "nat \<Rightarrow> nat option \<Rightarrow> nat option" where
  "mutex_unlock t m = None"

definition goto :: "nat \<Rightarrow> 'a fifo_pc \<Rightarrow> 'a fifo_sys \<Rightarrow> 'a fifo_sys" where
  "goto t p s = s\<lparr>fs_pc := (fs_pc s)(t := p)\<rparr>"

inductive fifo_move :: "nat \<Rightarrow> 'a fifo_sys \<Rightarrow> 'a fifo_sys \<Rightarrow> bool" for cap where
  push_lock: "fs_pc s t = PushLock x \<Longrightarrow> mutex_lock t (fs_holder s) = Some h \<Longrightarrow>
    fifo_move cap s (goto t (PushCheck x) (s\<lparr>fs_holder := h\<rparr>))"
| push_store: "fs_pc s t = PushCheck x \<Longrightarrow> fs_fifo s = f \<Longrightarrow> (write_idx f + 1) mod BUFFER_SIZE \<noteq> read_idx f \<Longrightarrow>
    fifo_move cap s (goto t (PushAdvance x) (s\<lparr>fs_fifo := f\<lparr>fi_data := (fi_data f)[write_idx f := Some x]\<rparr>\<rparr>))"
| push_full: "fs_pc s t = PushCheck x \<Longrightarrow> fs_fifo s = f \<Longrightarrow> (write_idx f + 1) mod BUFFER_SIZE = read_idx f \<Longrightarrow>
    fifo_move cap s (goto t (PushFull x) s)"
| push_advance: "fs_pc s t = PushAdvance x \<Longrightarrow> fs_fifo s = f \<Longrightarrow>
    fifo_move cap s (goto t PushSignal (s\<lparr>fs_fifo := f\<lparr>write_idx := (write_idx f + 1) mod BUFFER_SIZE\<rparr>,
      fs_pushed := fs_pushed s @ [x]\<rparr>))"
| push_signal: "fs_pc s t = PushSignal \<Longrightarrow> fifo_move cap s (goto t ScopeEnd (s\<lparr>fs_fifo := pipe_write cap (fs_fifo s)\<rparr>))"
| push_drop: "fs_pc s t = PushFull x \<Longrightarrow> fifo_move cap s (goto t ScopeEnd (s\<lparr>fs_fifo := fifo_delete x (fs_fifo s)\<rparr>))"
| pop_lock: "fs_pc s t = PopLock \<Longrightarrow> mutex_lock t (fs_holder s) = Some h \<Longrightarrow>
    fifo_move cap s (goto t PopCheck (s\<lparr>fs_holder := h\<rparr>))"
| pop_empty: "fs_pc s t = PopCheck \<Longrightarrow> fs_fifo s = f \<Longrightarrow> read_idx f = write_idx f \<Longrightarrow> fifo_move cap s (goto t ScopeEnd s)"
| pop_fetch: "fs_pc s t = PopCheck \<Longrightarrow> fs_fifo s = f \<Longrightarrow> read_idx f \<noteq> write_idx f \<Longrightarrow> fi_data f ! read_idx f = Some x \<Longrightarrow>
    fifo_move cap s (goto t (PopAdvance x) s)"
| pop_advance: "fs_pc s t = PopAdvance x \<Longrightarrow> fs_fifo s = f \<Longrightarrow>
    fifo_move cap s (goto t (PopDrain x) (s\<lparr>fs_fifo := f\<lparr>read_idx := (read_idx f + 1) mod BUFFER_SIZE\<rparr>,
      fs_popped := fs_popped s @ [x]\<rparr>))"
| pop_drain: "fs_pc s t = PopDrain x \<Longrightarrow> fifo_move cap s (goto t (PopDelete x) (s\<lparr>fs_fifo := pipe_read (fs_fifo s)\<rparr>))"
| pop_delete: "fs_pc s t = PopDelete x \<Longrightarrow> fifo_move cap s (goto t ScopeEnd (s\<lparr>fs_fifo := fifo_delete x (fs_fifo s)\<rparr>))"
| scope_end: "fs_pc s t = ScopeEnd \<Longrightarrow> fifo_move cap s (goto t Idle (s\<lparr>fs_holder := mutex_unlock t (fs_holder s)\<rparr>))"

text \<open>A step of the system: a thread moves or starts a call.\<close>

inductive fifo_step :: "nat \<Rightarrow> 'a fifo_sys \<Rightarrow> 'a fifo_sys \<Rightarrow> bool" for cap where
  "fifo_move cap s s' \<Longrightarrow> fifo_step cap s s'"
| "fs_pc s t = Idle \<Longrightarrow> fifo_step cap s (goto t (PushLock x) s)"
| "fs_pc s t = Idle \<Longrightarrow> fifo_step cap s (goto t PopLock s)"

definition fifo_start :: "'a fifo \<Rightarrow> 'a fifo_sys" where
  "fifo_start f = \<lparr>fs_fifo = f, fs_holder = None, fs_pc = (\<lambda>_. Idle), fs_pushed = [], fs_popped = []\<rparr>"

text \<open>What holds between two steps, by the state of the thread inside the lock.\<close>

definition pc_ok :: "'a fifo \<Rightarrow> 'a fifo_pc \<Rightarrow> bool" where
  "pc_ok f p =
     (case p of
        PushAdvance x \<Rightarrow> (write_idx f + 1) mod BUFFER_SIZE \<noteq> read_idx f \<and> fi_data f ! write_idx f = Some x \<and> fi_pipe f = ring_length f
      | PushSignal \<Rightarrow> Suc (fi_pipe f) = ring_length f
      | PopAdvance x \<Rightarrow> read_idx f \<noteq> write_idx f \<and> fi_data f ! read_idx f = Some x \<and> fi_pipe f = ring_length f
      | PopDrain x \<Rightarrow> fi_pipe f = Suc (ring_length f)
      | _ \<Rightarrow> fi_pipe f = ring_length f)"

definition sys_ok :: "'a fifo_sys \<Rightarrow> bool" where
  "sys_ok s \<longleftrightarrow> ring_ok (fs_fifo s) \<and> fs_popped s @ ring (fs_fifo s) = fs_pushed s \<and>
     (\<forall>t. critical (fs_pc s t) \<longleftrightarrow> fs_holder s = Some t) \<and>
     pc_ok (fs_fifo s) (case fs_holder s of None \<Rightarrow> Idle | Some t \<Rightarrow> fs_pc s t)"

lemma fifo_aux [simp]:
  "ring (f\<lparr>fi_pipe := n\<rparr>) = ring f" "ring_ok (f\<lparr>fi_pipe := n\<rparr>) = ring_ok f" "ring_length (f\<lparr>fi_pipe := n\<rparr>) = ring_length f"
  "ring (f\<lparr>fi_deleted := d\<rparr>) = ring f" "ring_ok (f\<lparr>fi_deleted := d\<rparr>) = ring_ok f" "ring_length (f\<lparr>fi_deleted := d\<rparr>) = ring_length f"
  by (simp_all add: ring_def ring_ok_def ring_length_def)

lemma critical_simps [simp]:
  "\<not> critical Idle" "\<not> critical (PushLock x)" "\<not> critical PopLock" "critical (PushCheck x)" "critical (PushAdvance x)"
  "critical PushSignal" "critical (PushFull x)" "critical PopCheck" "critical (PopAdvance x)" "critical (PopDrain x)"
  "critical (PopDelete x)" "critical ScopeEnd"
  by (simp_all add: critical_def)

lemma sys_ok_goto:
  assumes "sys_ok s" "critical (fs_pc s t)" "critical p" "ring_ok f" "ys @ ring f = xs" "pc_ok f p"
  shows "sys_ok (goto t p (s\<lparr>fs_fifo := f, fs_pushed := xs, fs_popped := ys\<rparr>))"
proof -
  have "fs_holder s = Some t" using assms(1,2) by (simp add: sys_ok_def)
  then show ?thesis using assms by (auto simp: sys_ok_def goto_def)
qed

lemma sys_ok_goto_same:
  "sys_ok s \<Longrightarrow> critical (fs_pc s t) \<Longrightarrow> critical p \<Longrightarrow> pc_ok (fs_fifo s) p \<Longrightarrow> sys_ok (goto t p s)"
  by (auto simp: sys_ok_def goto_def)

lemma fifo_move_ok:
  assumes "fifo_move cap s s'" "BUFFER_SIZE \<le> cap" "sys_ok s"
  shows "sys_ok s'"
  using assms
proof cases
  case (push_lock t x h)
  then show ?thesis using assms(3) by (auto simp: sys_ok_def goto_def mutex_lock_def pc_ok_def split: if_splits)
next
  case (pop_lock t h)
  then show ?thesis using assms(3) by (auto simp: sys_ok_def goto_def mutex_lock_def pc_ok_def split: if_splits)
next
  case (scope_end t)
  then have "fs_holder s = Some t" using assms(3) critical_simps(12) by (metis sys_ok_def)
  then show ?thesis using scope_end assms(3) by (auto simp: sys_ok_def goto_def mutex_unlock_def pc_ok_def)
next
  case (push_store t x f)
  then have h: "fs_holder s = Some t" using assms(3) critical_simps(4) by (metis sys_ok_def)
  have r: "ring_ok f" "fi_pipe f = ring_length f" using assms(3) push_store h by (auto simp: sys_ok_def pc_ok_def)
  note st = ring_store [OF r(1), of x]
  have "pc_ok (f\<lparr>fi_data := (fi_data f)[write_idx f := Some x]\<rparr>) (PushAdvance x)"
    using push_store(4) r st(3) by (simp add: pc_ok_def ring_ok_def)
  then show ?thesis using sys_ok_goto [OF assms(3), of t "PushAdvance x" "f\<lparr>fi_data := (fi_data f)[write_idx f := Some x]\<rparr>"
      "fs_popped s" "fs_pushed s"] push_store st assms(3) by (simp add: sys_ok_def [of s])
next
  case (push_full t x f)
  then have "fs_holder s = Some t" using assms(3) critical_simps(4) by (metis sys_ok_def)
  with push_full have "fi_pipe f = ring_length f" using assms(3) by (auto simp: sys_ok_def pc_ok_def)
  then show ?thesis using push_full sys_ok_goto_same [OF assms(3), of t "PushFull x"] by (simp add: pc_ok_def)
next
  case (push_advance t x f)
  then have h: "fs_holder s = Some t" using assms(3) critical_simps(5) by (metis sys_ok_def)
  have r: "ring_ok f" "fi_pipe f = ring_length f" "fi_data f ! write_idx f = Some x" "(write_idx f + 1) mod BUFFER_SIZE \<noteq> read_idx f"
    using assms(3) push_advance h by (auto simp: sys_ok_def pc_ok_def)
  note a = ring_advance [OF r(1,3,4)]
  then have "ring_length (f\<lparr>write_idx := (write_idx f + 1) mod BUFFER_SIZE\<rparr>) = Suc (ring_length f)"
    by (metis length_ring length_append_singleton)
  then show ?thesis using push_advance a r(2) assms(3)
      sys_ok_goto [OF assms(3), of t PushSignal "f\<lparr>write_idx := (write_idx f + 1) mod BUFFER_SIZE\<rparr>" "fs_popped s" "fs_pushed s @ [x]"]
    by (simp add: sys_ok_def [of s] pc_ok_def)
next
  case (push_signal t)
  then have h: "fs_holder s = Some t" using assms(3) critical_simps(6) by (metis sys_ok_def)
  then have "Suc (fi_pipe (fs_fifo s)) = ring_length (fs_fifo s)" using assms(3) push_signal by (auto simp: sys_ok_def pc_ok_def)
  then show ?thesis using push_signal ring_length_less [of "fs_fifo s"] assms(2,3)
      sys_ok_goto [OF assms(3), of t ScopeEnd "pipe_write cap (fs_fifo s)" "fs_popped s" "fs_pushed s"]
    by (simp add: sys_ok_def [of s] pc_ok_def pipe_write_def)
next
  case (push_drop t x)
  then have h: "fs_holder s = Some t" using assms(3) critical_simps(7) by (metis sys_ok_def)
  then show ?thesis using push_drop assms(3)
      sys_ok_goto [OF assms(3), of t ScopeEnd "fifo_delete x (fs_fifo s)" "fs_popped s" "fs_pushed s"]
    by (simp add: sys_ok_def [of s] pc_ok_def fifo_delete_def)
next
  case (pop_empty t f)
  then have h: "fs_holder s = Some t" using assms(3) critical_simps(8) by (metis sys_ok_def)
  then have "fi_pipe f = ring_length f" using pop_empty assms(3) by (auto simp: sys_ok_def pc_ok_def)
  then show ?thesis using pop_empty sys_ok_goto_same [OF assms(3), of t ScopeEnd] by (simp add: pc_ok_def)
next
  case (pop_fetch t f x)
  then have h: "fs_holder s = Some t" using assms(3) critical_simps(8) by (metis sys_ok_def)
  then have "fi_pipe f = ring_length f" using pop_fetch assms(3) by (auto simp: sys_ok_def pc_ok_def)
  then show ?thesis using pop_fetch sys_ok_goto_same [OF assms(3), of t "PopAdvance x"] by (simp add: pc_ok_def)
next
  case (pop_advance t x f)
  then have h: "fs_holder s = Some t" using assms(3) critical_simps(9) by (metis sys_ok_def)
  have r: "ring_ok f" "fi_pipe f = ring_length f" "fi_data f ! read_idx f = Some x" "read_idx f \<noteq> write_idx f"
    using assms(3) pop_advance h by (auto simp: sys_ok_def pc_ok_def)
  let ?g = "f\<lparr>read_idx := (read_idx f + 1) mod BUFFER_SIZE\<rparr>"
  have g: "ring f = x # ring ?g" "ring_ok ?g" using ring_drop [OF r(1,4)] r(3) by auto
  then have "ring_length f = Suc (ring_length ?g)" by (metis length_Cons length_ring)
  then show ?thesis using pop_advance g r(2) assms(3)
      sys_ok_goto [OF assms(3), of t "PopDrain x" ?g "fs_popped s @ [x]" "fs_pushed s"]
    by (simp add: sys_ok_def [of s] pc_ok_def)
next
  case (pop_drain t x)
  then have h: "fs_holder s = Some t" using assms(3) critical_simps(10) by (metis sys_ok_def)
  then have "fi_pipe (fs_fifo s) = Suc (ring_length (fs_fifo s))" using assms(3) pop_drain by (auto simp: sys_ok_def pc_ok_def)
  then show ?thesis using pop_drain assms(3)
      sys_ok_goto [OF assms(3), of t "PopDelete x" "pipe_read (fs_fifo s)" "fs_popped s" "fs_pushed s"]
    by (simp add: sys_ok_def [of s] pc_ok_def pipe_read_def)
next
  case (pop_delete t x)
  then have h: "fs_holder s = Some t" using assms(3) critical_simps(11) by (metis sys_ok_def)
  then show ?thesis using pop_delete assms(3)
      sys_ok_goto [OF assms(3), of t ScopeEnd "fifo_delete x (fs_fifo s)" "fs_popped s" "fs_pushed s"]
    by (simp add: sys_ok_def [of s] pc_ok_def fifo_delete_def)
qed

lemma fifo_step_ok: "fifo_step cap s s' \<Longrightarrow> BUFFER_SIZE \<le> cap \<Longrightarrow> sys_ok s \<Longrightarrow> sys_ok s'"
proof (induction rule: fifo_step.induct)
  case (1 s s')
  then show ?case using fifo_move_ok by blast
next
  case (2 s t x)
  then have "fs_holder s \<noteq> Some t" using critical_simps(1) by (metis sys_ok_def)
  with 2 show ?case by (auto simp: sys_ok_def goto_def split: option.splits)
next
  case (3 s t)
  then have "fs_holder s \<noteq> Some t" using critical_simps(1) by (metis sys_ok_def)
  with 3 show ?case by (auto simp: sys_ok_def goto_def split: option.splits)
qed

lemma fifo_reach_ok:
  assumes "(fifo_step cap)\<^sup>*\<^sup>* (fifo_start f) s" "BUFFER_SIZE \<le> cap" "fifo_ok f" "ring f = []"
  shows "sys_ok s"
  using assms(1)
proof (induction rule: rtranclp_induct)
  case base
  then show ?case using assms(3,4) by (auto simp: sys_ok_def fifo_start_def fifo_ok_def pc_ok_def)
qed (use fifo_step_ok assms(2) in blast)

text \<open>No thread inside the lock is ever stuck, and a free lock lets a waiting thread in.\<close>

lemma critical_moves:
  assumes ok: "sys_ok s" and c: "critical (fs_pc s t)"
  shows "\<exists>s'. fifo_move cap s s'"
proof -
  have h: "fs_holder s = Some t" and r: "ring_ok (fs_fifo s)" using ok c by (simp_all add: sys_ok_def)
  show ?thesis
  proof (cases "fs_pc s t")
    case (PushCheck x)
    show ?thesis
    proof (cases "(write_idx (fs_fifo s) + 1) mod BUFFER_SIZE = read_idx (fs_fifo s)")
      case True show ?thesis using fifo_move.push_full [OF PushCheck refl True] by blast
    next
      case False show ?thesis using fifo_move.push_store [OF PushCheck refl False] by blast
    qed
  next
    case PopCheck
    show ?thesis
    proof (cases "read_idx (fs_fifo s) = write_idx (fs_fifo s)")
      case True
      show ?thesis using fifo_move.pop_empty [OF PopCheck refl True] by blast
    next
      case False
      obtain x where x: "fi_data (fs_fifo s) ! read_idx (fs_fifo s) = Some x" using ring_drop [OF r False] by blast
      show ?thesis using fifo_move.pop_fetch [OF PopCheck refl False x] by blast
    qed
  next
    case (PushAdvance x) show ?thesis using fifo_move.push_advance [OF PushAdvance refl] by blast
  next
    case PushSignal show ?thesis using fifo_move.push_signal [OF PushSignal] by blast
  next
    case (PushFull x) show ?thesis using fifo_move.push_drop [OF PushFull] by blast
  next
    case (PopAdvance x) show ?thesis using fifo_move.pop_advance [OF PopAdvance refl] by blast
  next
    case (PopDrain x) show ?thesis using fifo_move.pop_drain [OF PopDrain] by blast
  next
    case (PopDelete x) show ?thesis using fifo_move.pop_delete [OF PopDelete] by blast
  next
    case ScopeEnd show ?thesis using fifo_move.scope_end [OF ScopeEnd] by blast
  qed (use c in simp_all)
qed

lemma sys_moves:
  assumes ok: "sys_ok s" and t: "fs_pc s t \<noteq> Idle"
  shows "\<exists>s'. fifo_move cap s s'"
proof (cases "fs_holder s")
  case None
  show ?thesis
  proof (cases "critical (fs_pc s t)")
    case False
    have l: "mutex_lock t (fs_holder s) = Some (Some t)" using None by (simp add: mutex_lock_def)
    from False t consider x where "fs_pc s t = PushLock x" | "fs_pc s t = PopLock"
      by (cases "fs_pc s t") auto
    then show ?thesis
    proof cases
      case 1 show ?thesis using fifo_move.push_lock [OF 1 l] by blast
    next
      case 2 show ?thesis using fifo_move.pop_lock [OF 2 l] by blast
    qed
  qed (rule critical_moves [OF ok])
next
  case (Some u)
  then have "critical (fs_pc s u)" using ok by (simp add: sys_ok_def)
  then show ?thesis by (rule critical_moves [OF ok])
qed

text \<open>
  C5: with any number of threads pushing and popping at the same time, interleaved at every access
  to the shared fields, at most one thread is ever between lock and unlock; what has been popped,
  followed by what is in the buffer, is at every moment what has been pushed, in that order; and
  as long as some call is in progress some thread can move.
\<close>

theorem fifo_threads_safe:
  assumes "fifo_new pipe = Inr f" "BUFFER_SIZE \<le> cap" "(fifo_step cap)\<^sup>*\<^sup>* (fifo_start f) s"
  shows "fs_popped s @ ring (fs_fifo s) = fs_pushed s \<and>
    (\<forall>t u. critical (fs_pc s t) \<and> critical (fs_pc s u) \<longrightarrow> t = u) \<and>
    ((\<exists>t. fs_pc s t \<noteq> Idle) \<longrightarrow> (\<exists>s'. fifo_move cap s s'))"
proof -
  have ok: "sys_ok s" using fifo_new_ok [OF assms(1)] fifo_reach_ok [OF assms(3,2)] by simp
  then have "\<forall>t u. critical (fs_pc s t) \<and> critical (fs_pc s u) \<longrightarrow> t = u" by (auto simp: sys_ok_def)
  then show ?thesis using ok sys_moves [OF ok] by (auto simp: sys_ok_def)
qed

lemma fifo_threads_safe_witness:
  "\<exists>f s. fifo_new (Some (3, 4)) = Inr f \<and> (fifo_step 65536)\<^sup>*\<^sup>* (fifo_start f) s \<and>
     fs_pc s 1 = PushCheck (7 :: nat) \<and> fs_pc s 2 = PopLock \<and> (\<exists>s'. fifo_move 65536 s s')"
proof -
  obtain f :: "nat fifo" where f: "fifo_new (Some (3, 4)) = Inr f" by (simp add: fifo_new_def)
  let ?s0 = "fifo_start f"
  let ?s1 = "goto 1 (PushLock 7) ?s0"
  let ?s2 = "goto 2 PopLock ?s1"
  let ?s3 = "goto 1 (PushCheck 7) (?s2\<lparr>fs_holder := Some 1\<rparr>)"
  have s1: "fifo_step 65536 ?s0 ?s1" by (rule fifo_step.intros) (simp add: fifo_start_def)
  have s2: "fifo_step 65536 ?s1 ?s2" by (rule fifo_step.intros) (simp add: fifo_start_def goto_def)
  have s3: "fifo_step 65536 ?s2 ?s3"
    by (rule fifo_step.intros(1), rule fifo_move.push_lock) (simp_all add: fifo_start_def goto_def mutex_lock_def)
  have reach: "(fifo_step 65536)\<^sup>*\<^sup>* (fifo_start f) ?s3"
    using rtranclp.rtrancl_into_rtrancl [OF rtranclp.rtrancl_into_rtrancl [OF rtranclp.rtrancl_into_rtrancl
      [OF rtranclp.rtrancl_refl [of "fifo_step 65536" ?s0] s1] s2] s3] .
  have cap: "BUFFER_SIZE \<le> 65536" by (simp add: BUFFER_SIZE_def)
  have pc: "fs_pc ?s3 1 = PushCheck 7" "fs_pc ?s3 2 = PopLock" by (simp_all add: goto_def)
  then have "\<exists>s'. fifo_move 65536 ?s3 s'"
    using fifo_threads_safe [OF f cap reach] by (metis fifo_pc.distinct(3))
  with f reach pc show ?thesis by blast
qed

end
