(* ===== verification/LkSocket.thy ===== *)
theory LkSocket
  imports Prelude CDouble
begin

text \<open>
  The sockets of \<open>modules/lk/include/lk/Socket.h\<close> and \<open>modules/lk/src/more/socket.cpp\<close>. The kernel
  and the resolver are parameters: \<open>recv\<close> is a function from the room offered and the state of the
  world to what it answers, the calls that set up connections are the fields of \<open>sys\<close>. What a
  stream socket promises is the locale \<open>byte_stream\<close>, what descriptors promise is \<open>fd_table\<close>. A
  method returns \<open>None\<close> where it never returns or writes or reads outside \<open>buffer_\<close>, and
  \<open>Inl\<close> where it throws; the state of the object after an exception is part of the result.
\<close>

subsection \<open>The socket object\<close>

definition MAX_BUFF_SIZE :: nat where "MAX_BUFF_SIZE = 8196"

definition BACKLOG :: int where "BACKLOG = 10"

datatype socket_type = TCP | UDP

text \<open>
  \<open>so_buffer\<close> holds the bytes of the array \<open>buffer_\<close> that have been written so far, from its start;
  reading past them is reading uninitialised memory.
\<close>

record socket =
  socket_fd :: int
  so_type :: socket_type
  local_host :: string
  local_port :: int
  remote_host :: string
  remote_port :: int
  buffer_length :: int
  buffer_i :: int
  so_buffer :: "byte list"
  non_blocking :: bool

definition socket_new :: "socket_type \<Rightarrow> socket" where
  "socket_new ty = \<lparr>socket_fd = -1, so_type = ty, local_host = ''*'', local_port = -1, remote_host = ''?'',
     remote_port = -1, buffer_length = 0, buffer_i = 0, so_buffer = [], non_blocking = False\<rparr>"

text \<open>The exceptions, with the arguments of their message; an \<open>int\<close> stands for \<open>errno\<close> or a status.\<close>

datatype socket_error =
    NoAddrInfo string int int | NoSocket string int int | NoNonBlocking int | NoBind string int int
  | NoLocalBind int | NoConnect string int int | ConnectFinishTooEarly | NoFinish int
  | ListenBeforeBind | NoListen int | AcceptBeforeBind | NoAccept int | NoRemoteName int
  | NoPort int | BadMode string | NoReceive int | NoSend int | TimeoutTooEarly | NoTimeout int

text \<open>What the kernel answers to \<open>recv\<close>: the bytes copied (none: the peer has closed) or \<open>errno\<close>.\<close>

datatype recv_result = Received "byte list" | RecvError int

type_synonym 'w recv_call = "int \<Rightarrow> nat \<Rightarrow> 'w \<Rightarrow> (recv_result \<times> 'w) option"

definition EAGAIN :: int where "EAGAIN = 11"

definition EINPROGRESS :: int where "EINPROGRESS = 115"

text \<open>An \<open>int\<close> passed where a \<open>size_t\<close> is expected.\<close>

definition size_arg :: "int \<Rightarrow> nat" where
  "size_arg sz = unat (word_of_int sz :: u64)"

text \<open>The kernel writes the received bytes to the start of the array, which has \<open>MAX_BUFF_SIZE\<close> bytes.\<close>

definition fill_buffer :: "byte list \<Rightarrow> socket \<Rightarrow> socket option" where
  "fill_buffer bs s =
     (if length bs \<le> MAX_BUFF_SIZE
      then Some (s\<lparr>so_buffer := bs @ drop (length bs) (so_buffer s), buffer_length := int (length bs)\<rparr>) else None)"

text \<open>The bytes \<open>lua_pushlstring(L, buffer_ + buffer_i_, sz)\<close> copies.\<close>

definition buffer_slice :: "socket \<Rightarrow> int \<Rightarrow> byte list option" where
  "buffer_slice s sz =
     (if 0 \<le> buffer_i s \<and> buffer_i s + int (size_arg sz) \<le> int (length (so_buffer s))
      then Some (take (size_arg sz) (drop (nat (buffer_i s)) (so_buffer s))) else None)"

subsection \<open>Receiving\<close>

text \<open>
  \<open>recvLine\<close>: a value, no value (\<open>Inr None\<close>, the connection is closed) or an exception. The inner
  loop, over what is in the buffer, and the outer loop, which refills it, are one recursion.
\<close>

partial_function (option) recvLine_loop ::
    "'w recv_call \<Rightarrow> byte list \<Rightarrow> socket \<Rightarrow> 'w \<Rightarrow> ((socket_error + byte list option) \<times> socket \<times> 'w) option" where
  "recvLine_loop rcv acc s w =
     (if buffer_i s < buffer_length s then
        do { c \<leftarrow> at_index (so_buffer s) (buffer_i s);
             let s = s\<lparr>buffer_i := buffer_i s + 1\<rparr>;
             if c = 10 then Some (Inr (Some acc), s, w)
             else recvLine_loop rcv (if c = 13 then acc else acc @ [c]) s w }
      else
        do { (r, w) \<leftarrow> rcv (socket_fd s) MAX_BUFF_SIZE w;
             case r of
               RecvError e \<Rightarrow> Some (Inl (NoReceive e), s\<lparr>buffer_length := 0\<rparr>, w)
             | Received bs \<Rightarrow>
                 (if bs = [] then Some (Inr None, s\<lparr>buffer_length := 0\<rparr>, w)
                  else do { s \<leftarrow> fill_buffer bs s; recvLine_loop rcv acc (s\<lparr>buffer_i := 0\<rparr>) w }) })"

definition recvLine ::
    "'w recv_call \<Rightarrow> socket \<Rightarrow> 'w \<Rightarrow> ((socket_error + byte list option) \<times> socket \<times> 'w) option" where
  "recvLine rcv s w = recvLine_loop rcv [] s w"

partial_function (option) recvBytes_loop ::
    "'w recv_call \<Rightarrow> byte list \<Rightarrow> int \<Rightarrow> socket \<Rightarrow> 'w \<Rightarrow> ((socket_error + byte list option) \<times> socket \<times> 'w) option" where
  "recvBytes_loop rcv acc sz s w =
     (if sz \<noteq> 0 then
        do { (r, w) \<leftarrow> rcv (socket_fd s) (size_arg (if sz < int MAX_BUFF_SIZE then sz else int MAX_BUFF_SIZE)) w;
             case r of
               RecvError e \<Rightarrow> Some (Inl (NoReceive e), s\<lparr>buffer_length := 0\<rparr>, w)
             | Received bs \<Rightarrow>
                 (if bs = [] then Some (Inr None, s\<lparr>buffer_length := 0\<rparr>, w)
                  else do { s \<leftarrow> fill_buffer bs s;
                            recvBytes_loop rcv (acc @ bs) (sz - buffer_length s) (s\<lparr>buffer_i := buffer_length s\<rparr>) w }) }
      else Some (Inr (Some acc), s, w))"

definition recvBytes ::
    "'w recv_call \<Rightarrow> int \<Rightarrow> socket \<Rightarrow> 'w \<Rightarrow> ((socket_error + byte list option) \<times> socket \<times> 'w) option" where
  "recvBytes rcv sz s w =
     (if buffer_i s < buffer_length s then
        if sz \<le> buffer_length s - buffer_i s then
          do { bs \<leftarrow> buffer_slice s sz; Some (Inr (Some bs), s\<lparr>buffer_i := buffer_i s + sz\<rparr>, w) }
        else do { bs \<leftarrow> buffer_slice s (buffer_length s - buffer_i s);
                  recvBytes_loop rcv bs (sz - (buffer_length s - buffer_i s)) s w }
      else recvBytes_loop rcv [] sz s w)"

partial_function (option) recvAll_loop ::
    "'w recv_call \<Rightarrow> byte list \<Rightarrow> socket \<Rightarrow> 'w \<Rightarrow> ((socket_error + byte list option) \<times> socket \<times> 'w) option" where
  "recvAll_loop rcv acc s w =
     do { (r, w) \<leftarrow> rcv (socket_fd s) MAX_BUFF_SIZE w;
          case r of
            RecvError e \<Rightarrow>
              (let s = s\<lparr>buffer_length := 0\<rparr> in
               if e = EAGAIN then Some (Inr (Some acc), s, w) else Some (Inl (NoReceive e), s, w))
          | Received bs \<Rightarrow>
              (if bs = [] then Some (Inr None, s\<lparr>buffer_length := 0\<rparr>, w)
               else do { s \<leftarrow> fill_buffer bs s; recvAll_loop rcv (acc @ bs) s w }) }"

text \<open>For UDP, one \<open>recvfrom\<close>; an error is no value and leaves \<open>buffer_length_\<close> at -1.\<close>

definition recvAll ::
    "'w recv_call \<Rightarrow> 'w recv_call \<Rightarrow> socket \<Rightarrow> 'w \<Rightarrow> ((socket_error + byte list option) \<times> socket \<times> 'w) option" where
  "recvAll rcv rcvfrom s w =
     (if so_type s = UDP then
        do { (r, w) \<leftarrow> rcvfrom (socket_fd s) MAX_BUFF_SIZE w;
             case r of
               RecvError e \<Rightarrow> Some (Inr None, s\<lparr>buffer_length := -1\<rparr>, w)
             | Received bs \<Rightarrow> do { s \<leftarrow> fill_buffer bs s; Some (Inr (Some bs), s, w) } }
      else if buffer_i s < buffer_length s then
        do { bs \<leftarrow> buffer_slice s (buffer_length s - buffer_i s); recvAll_loop rcv bs s w }
      else recvAll_loop rcv [] s w)"

subsection \<open>The stream behind a connected socket\<close>

text \<open>
  What \<open>recv\<close> documents for a connected stream socket. \<open>pend\<close> are the bytes that will be delivered
  before the next event that is not data, \<open>ending\<close> is that event. A call with room for \<open>n\<close> bytes
  delivers between 1 and \<open>n\<close> of the pending bytes, and only when there are none the event.
\<close>

datatype stream_end = Closes | Fails int | Blocks

locale byte_stream =
  fixes rcv :: "nat \<Rightarrow> 'w \<Rightarrow> (recv_result \<times> 'w) option" and pend :: "'w \<Rightarrow> byte list" and ending :: "'w \<Rightarrow> stream_end"
  assumes rcv_data: "0 < n \<Longrightarrow> pend w \<noteq> [] \<Longrightarrow> \<exists>bs w'. rcv n w = Some (Received bs, w') \<and> bs \<noteq> [] \<and> length bs \<le> n \<and>
      pend w = bs @ pend w' \<and> ending w' = ending w"
    and rcv_end: "0 < n \<Longrightarrow> pend w = [] \<Longrightarrow>
      (case ending w of Closes \<Rightarrow> \<exists>w'. rcv n w = Some (Received [], w')
       | Fails e \<Rightarrow> \<exists>w'. rcv n w = Some (RecvError e, w') | Blocks \<Rightarrow> rcv n w = None)"

text \<open>What is in the buffer and not yet used; every operation keeps \<open>socket_ok\<close>.\<close>

definition unread :: "socket \<Rightarrow> byte list" where
  "unread s = take (nat (buffer_length s - buffer_i s)) (drop (nat (buffer_i s)) (so_buffer s))"

definition socket_ok :: "socket \<Rightarrow> bool" where
  "socket_ok s \<longleftrightarrow> 0 \<le> buffer_i s \<and> buffer_length s \<le> int (length (so_buffer s)) \<and> length (so_buffer s) \<le> MAX_BUFF_SIZE"

lemma socket_new_ok: "socket_ok (socket_new ty)" "unread (socket_new ty) = []"
  by (simp_all add: socket_ok_def socket_new_def unread_def)

lemma MAX_BUFF_SIZE_pos [simp]: "0 < MAX_BUFF_SIZE" by (simp add: MAX_BUFF_SIZE_def)

lemma size_arg_nonneg: "0 \<le> sz \<Longrightarrow> sz < 2 ^ 64 \<Longrightarrow> size_arg sz = nat sz"
  by (simp add: size_arg_def unsigned_of_int take_bit_int_eq_self)

lemma unread_empty: "buffer_length s \<le> buffer_i s \<Longrightarrow> unread s = []"
  by (simp add: unread_def)

lemma unread_cons:
  assumes "socket_ok s" "buffer_i s < buffer_length s"
  obtains c where "at_index (so_buffer s) (buffer_i s) = Some c" "unread s = c # unread (s\<lparr>buffer_i := buffer_i s + 1\<rparr>)"
    "socket_ok (s\<lparr>buffer_i := buffer_i s + 1\<rparr>)"
proof -
  define i where "i = nat (buffer_i s)"
  have i: "buffer_i s = int i" "i < length (so_buffer s)" using assms by (auto simp: socket_ok_def i_def)
  then have "drop i (so_buffer s) = (so_buffer s ! i) # drop (Suc i) (so_buffer s)" by (simp add: Cons_nth_drop_Suc)
  moreover have "nat (buffer_length s - int i) = Suc (nat (buffer_length s - (int i + 1)))" using assms(2) i(1) by simp
  ultimately have "unread s = (so_buffer s ! i) # unread (s\<lparr>buffer_i := buffer_i s + 1\<rparr>)"
    by (simp add: unread_def i(1) nat_add_distrib del: nat_diff_distrib')
  then show thesis using that i assms by (simp add: at_index_def socket_ok_def)
qed

lemma fill_buffer_ok:
  assumes "socket_ok s" "length bs \<le> MAX_BUFF_SIZE"
  shows "\<exists>s'. fill_buffer bs s = Some s' \<and> socket_ok (s'\<lparr>buffer_i := 0\<rparr>) \<and> unread (s'\<lparr>buffer_i := 0\<rparr>) = bs \<and>
    socket_ok (s'\<lparr>buffer_i := buffer_length s'\<rparr>) \<and> unread (s'\<lparr>buffer_i := buffer_length s'\<rparr>) = [] \<and>
    buffer_length s' = int (length bs) \<and> socket_fd s' = socket_fd s \<and> so_type s' = so_type s \<and> socket_ok s'"
  using assms by (auto simp: fill_buffer_def socket_ok_def unread_def)


lemma length_unread: "socket_ok s \<Longrightarrow> length (unread s) = nat (buffer_length s - buffer_i s)"
  by (auto simp: unread_def socket_ok_def nat_diff_distrib')

lemma buffer_slice_unread:
  assumes "socket_ok s" "buffer_i s < buffer_length s"
  shows "k \<le> length (unread s) \<Longrightarrow> buffer_slice s (int k) = Some (take k (unread s))"
    "buffer_slice s (buffer_length s - buffer_i s) = Some (unread s)"
proof -
  define i n where "i = nat (buffer_i s)" and "n = nat (buffer_length s - buffer_i s)"
  have b: "buffer_i s = int i" "buffer_length s = int (i + n)" "i + n \<le> length (so_buffer s)" "length (so_buffer s) \<le> MAX_BUFF_SIZE"
    using assms by (auto simp: socket_ok_def i_def n_def)
  have u: "unread s = take n (drop i (so_buffer s))" by (simp add: unread_def b(1,2))
  have slice: "buffer_slice s (int k) = Some (take k (unread s))" if "k \<le> n" for k
  proof -
    have "size_arg (int k) = k" using that b(3,4) by (simp add: size_arg_nonneg MAX_BUFF_SIZE_def)
    then show ?thesis using that b(1,3) by (simp add: buffer_slice_def u min_def)
  qed
  have len: "length (unread s) = n" using b(3) by (simp add: u)
  then show "k \<le> length (unread s) \<Longrightarrow> buffer_slice s (int k) = Some (take k (unread s))" using slice by simp
  show "buffer_slice s (buffer_length s - buffer_i s) = Some (unread s)" using slice [of n] len b(1,2) by simp
qed

text \<open>A line: what precedes the newline, carriage returns dropped.\<close>

definition split_line :: "byte list \<Rightarrow> (byte list \<times> byte list) option" where
  "split_line bs =
     (if 10 \<in> set bs
      then Some (filter (\<lambda>c. c \<noteq> 13) (takeWhile (\<lambda>c. c \<noteq> 10) bs), tl (dropWhile (\<lambda>c. c \<noteq> 10) bs)) else None)"

lemma split_line_simps [simp]:
  "split_line [] = None"
  "split_line (c # cs) = (if c = 10 then Some ([], cs)
     else map_option (\<lambda>(l, rest). (if c = 13 then l else c # l, rest)) (split_line cs))"
  by (auto simp: split_line_def)

text \<open>How a read that needs more than the stream has ends: the bytes it took are gone.\<close>

definition read_fails :: "stream_end \<Rightarrow> ((socket_error + byte list option) \<times> socket \<times> 'w) option \<Rightarrow> bool" where
  "read_fails en res =
     (case en of Closes \<Rightarrow> \<exists>s' w'. res = Some (Inr None, s', w') \<and> socket_ok s' \<and> unread s' = []
      | Fails e \<Rightarrow> \<exists>s' w'. res = Some (Inl (NoReceive e), s', w') \<and> socket_ok s' \<and> unread s' = []
      | Blocks \<Rightarrow> res = None)"

definition read_gives :: "('w \<Rightarrow> byte list) \<Rightarrow> ('w \<Rightarrow> stream_end) \<Rightarrow> int \<Rightarrow> byte list \<Rightarrow> byte list \<Rightarrow> stream_end \<Rightarrow>
    ((socket_error + byte list option) \<times> socket \<times> 'w) option \<Rightarrow> bool" where
  "read_gives pend ending fd bs rest en res \<longleftrightarrow>
     (\<exists>s' w'. res = Some (Inr (Some bs), s', w') \<and> socket_ok s' \<and> unread s' @ pend w' = rest \<and> ending w' = en \<and>
        socket_fd s' = fd)"

context byte_stream
begin

lemma recvLine_loop_reads:
  assumes "socket_ok s" "R (socket_fd s) = rcv"
  shows "case split_line (unread s @ pend w) of
      Some (l, rest) \<Rightarrow> read_gives pend ending (socket_fd s) (acc @ l) rest (ending w) (recvLine_loop R acc s w)
    | None \<Rightarrow> read_fails (ending w) (recvLine_loop R acc s w)"
  using assms
proof (induction "2 * length (pend w) + length (unread s)" arbitrary: acc s w rule: less_induct)
  case less
  show ?case
  proof (cases "buffer_i s < buffer_length s")
    case True
    let ?s = "s\<lparr>buffer_i := buffer_i s + 1\<rparr>"
    obtain c where c: "at_index (so_buffer s) (buffer_i s) = Some c" "unread s = c # unread ?s" "socket_ok ?s"
      using unread_cons [OF less.prems(1) True] by blast
    have step: "recvLine_loop R acc s w = (if c = 10 then Some (Inr (Some acc), ?s, w)
        else recvLine_loop R (if c = 13 then acc else acc @ [c]) ?s w)"
      using True c(1) by (subst recvLine_loop.simps) simp
    show ?thesis
    proof (cases "c = 10")
      case True
      then show ?thesis using step c by (simp add: read_gives_def)
    next
      case False
      have "R (socket_fd ?s) = rcv" using less.prems(2) by simp
      from less.hyps [OF _ c(3) this, of w "if c = 13 then acc else acc @ [c]"] c(2)
      show ?thesis unfolding step using False by (auto split: option.splits if_splits)
    qed
  next
    case False
    then have u: "unread s = []" by (simp add: unread_empty)
    show ?thesis
    proof (cases "pend w = []")
      case True
      then have "read_fails (ending w) (recvLine_loop R acc s w)"
        using rcv_end [of MAX_BUFF_SIZE w] False less.prems
        by (subst recvLine_loop.simps) (auto simp: read_fails_def socket_ok_def unread_def split: stream_end.splits)
      then show ?thesis using True u by simp
    next
      case ne: False
      obtain bs w' where r: "rcv MAX_BUFF_SIZE w = Some (Received bs, w')" "bs \<noteq> []" "length bs \<le> MAX_BUFF_SIZE"
        "pend w = bs @ pend w'" "ending w' = ending w"
        using rcv_data [OF MAX_BUFF_SIZE_pos ne] by blast
      obtain s' where s': "fill_buffer bs s = Some s'" "socket_ok (s'\<lparr>buffer_i := 0\<rparr>)" "unread (s'\<lparr>buffer_i := 0\<rparr>) = bs"
        "socket_fd s' = socket_fd s"
        using fill_buffer_ok [OF less.prems(1) r(3)] by blast
      have step: "recvLine_loop R acc s w = recvLine_loop R acc (s'\<lparr>buffer_i := 0\<rparr>) w'"
        using False r(1,2) s'(1) less.prems(2) by (subst recvLine_loop.simps) simp
      have "R (socket_fd (s'\<lparr>buffer_i := 0\<rparr>)) = rcv" using s'(4) less.prems(2) by simp
      from less.hyps [OF _ s'(2) this, of w' acc] r s' u show ?thesis unfolding step
        by (auto split: option.splits)
    qed
  qed
qed

lemma recvBytes_loop_reads:
  assumes "socket_ok s" "R (socket_fd s) = rcv" "sz = 0 \<Longrightarrow> unread s = []" "sz < 2 ^ 31"
  shows "if sz \<le> length (pend w)
    then read_gives pend ending (socket_fd s) (acc @ take sz (pend w)) (drop sz (pend w)) (ending w)
      (recvBytes_loop R acc (int sz) s w)
    else read_fails (ending w) (recvBytes_loop R acc (int sz) s w)"
  using assms
proof (induction sz arbitrary: acc s w rule: less_induct)
  case (less sz)
  show ?case
  proof (cases "sz = 0")
    case True
    then show ?thesis using less.prems by (subst recvBytes_loop.simps) (simp add: read_gives_def)
  next
    case False
    define n where "n = size_arg (if int sz < int MAX_BUFF_SIZE then int sz else int MAX_BUFF_SIZE)"
    have n: "n = min sz MAX_BUFF_SIZE" "0 < n" using False less.prems(4)
      by (auto simp: n_def size_arg_nonneg MAX_BUFF_SIZE_def)
    show ?thesis
    proof (cases "pend w = []")
      case True
      then have "read_fails (ending w) (recvBytes_loop R acc (int sz) s w)"
        using rcv_end [OF n(2), of w] False less.prems n_def
        by (subst recvBytes_loop.simps) (auto simp: read_fails_def socket_ok_def unread_def split: stream_end.splits)
      then show ?thesis using True False by simp
    next
      case ne: False
      obtain bs w' where r: "rcv n w = Some (Received bs, w')" "bs \<noteq> []" "length bs \<le> n"
        "pend w = bs @ pend w'" "ending w' = ending w"
        using rcv_data [OF n(2) ne] by blast
      have le: "length bs \<le> MAX_BUFF_SIZE" "length bs \<le> sz" using r(3) n(1) by simp_all
      obtain s' where s': "fill_buffer bs s = Some s'" "buffer_length s' = int (length bs)"
        "socket_ok (s'\<lparr>buffer_i := buffer_length s'\<rparr>)" "unread (s'\<lparr>buffer_i := buffer_length s'\<rparr>) = []"
        "socket_fd s' = socket_fd s"
        using fill_buffer_ok [OF less.prems(1) le(1)] by blast
      define res where "res = recvBytes_loop R (acc @ bs) (int (sz - length bs)) (s'\<lparr>buffer_i := buffer_length s'\<rparr>) w'"
      have step: "recvBytes_loop R acc (int sz) s w = res"
        unfolding res_def using False r(1,2) s'(1,2) less.prems(2) le(2) n_def by (subst recvBytes_loop.simps) (simp add: of_nat_diff)
      have lt: "sz - length bs < sz" "sz - length bs < 2 ^ 31" using r(2) False less.prems(4) by simp_all
      have "R (socket_fd (s'\<lparr>buffer_i := buffer_length s'\<rparr>)) = rcv" using s'(5) less.prems(2) by simp
      from less.IH [OF lt(1) s'(3) this s'(4) lt(2), of w' "acc @ bs"] r s'(5) le(2)
      show ?thesis unfolding step res_def [symmetric] by (auto split: if_splits)
    qed
  qed
qed

lemma recvBytes_reads:
  assumes "socket_ok s" "R (socket_fd s) = rcv" "sz < 2 ^ 31"
  shows "if sz \<le> length (unread s @ pend w)
    then read_gives pend ending (socket_fd s) (take sz (unread s @ pend w)) (drop sz (unread s @ pend w)) (ending w)
      (recvBytes R (int sz) s w)
    else read_fails (ending w) (recvBytes R (int sz) s w)"
proof (cases "buffer_i s < buffer_length s")
  case False
  then show ?thesis using recvBytes_loop_reads [where R = R and s = s and w = w and sz = sz and acc = "[]"] assms unread_empty [of s]
    by (auto simp: recvBytes_def split: if_splits)
next
  case True
  define n where "n = length (unread s)"
  have n: "buffer_length s - buffer_i s = int n" using length_unread [OF assms(1)] True by (simp add: n_def)
  note slice = buffer_slice_unread [OF assms(1) True]
  show ?thesis
  proof (cases "sz \<le> n")
    case le: True
    let ?s = "s\<lparr>buffer_i := buffer_i s + int sz\<rparr>"
    have "recvBytes R (int sz) s w = Some (Inr (Some (take sz (unread s))), ?s, w)"
      using True le n slice(1) [of sz] by (simp add: recvBytes_def n_def)
    moreover have "nat (buffer_length ?s - buffer_i ?s) = n - sz" "nat (buffer_i ?s) = nat (buffer_i s) + sz"
      using le n assms(1) by (simp_all add: socket_ok_def nat_add_distrib)
    then have "unread ?s = take (n - sz) (drop (nat (buffer_i s) + sz) (so_buffer s))" unfolding unread_def by simp
    then have "unread ?s = drop sz (unread s)" using n by (simp add: unread_def [of s] drop_take add.commute)
    moreover have "socket_ok ?s" using assms(1) by (simp add: socket_ok_def)
    ultimately show ?thesis using le by (simp add: read_gives_def n_def)
  next
    case False
    define res where "res = recvBytes_loop R (unread s) (int (sz - n)) s w"
    have step: "recvBytes R (int sz) s w = res"
      using True False n slice(2) unfolding res_def by (simp add: recvBytes_def of_nat_diff)
    have lt: "sz - n < 2 ^ 31" "sz - n \<noteq> 0" using assms(3) False by simp_all
    show ?thesis using recvBytes_loop_reads [where R = R and s = s, OF assms(1,2) _ lt(1), of w "unread s"] False lt(2)
      unfolding step res_def [symmetric] by (auto simp: n_def [symmetric] split: if_splits)
  qed
qed

end

subsection \<open>A sequence of reads\<close>

datatype read_cmd = ReadLine | ReadBytes nat

definition socket_read :: "'w recv_call \<Rightarrow> read_cmd \<Rightarrow> socket \<Rightarrow> 'w \<Rightarrow>
    ((socket_error + byte list option) \<times> socket \<times> 'w) option" where
  "socket_read R c s w = (case c of ReadLine \<Rightarrow> recvLine R s w | ReadBytes n \<Rightarrow> recvBytes R (int n) s w)"

definition parse_read :: "read_cmd \<Rightarrow> byte list \<Rightarrow> (byte list \<times> byte list) option" where
  "parse_read c bs =
     (case c of ReadLine \<Rightarrow> split_line bs
      | ReadBytes n \<Rightarrow> if n \<le> length bs then Some (take n bs, drop n bs) else None)"

definition read_fits :: "read_cmd \<Rightarrow> bool" where
  "read_fits c = (case c of ReadLine \<Rightarrow> True | ReadBytes n \<Rightarrow> n < 2 ^ 31)"

text \<open>The reads of a client, up to the first that gives no value, and what they give on a list of bytes.\<close>

fun socket_reads :: "'w recv_call \<Rightarrow> read_cmd list \<Rightarrow> socket \<Rightarrow> 'w \<Rightarrow> (byte list list \<times> socket \<times> 'w) option" where
  "socket_reads R [] s w = Some ([], s, w)"
| "socket_reads R (c # cs) s w =
     do { (r, s, w) \<leftarrow> socket_read R c s w;
          case r of Inr (Some bs) \<Rightarrow> do { (rs, s, w) \<leftarrow> socket_reads R cs s w; Some (bs # rs, s, w) }
          | _ \<Rightarrow> Some ([], s, w) }"

fun expected_reads :: "read_cmd list \<Rightarrow> byte list \<Rightarrow> stream_end \<Rightarrow> byte list list option" where
  "expected_reads [] bs en = Some []"
| "expected_reads (c # cs) bs en =
     (case parse_read c bs of
        Some (r, rest) \<Rightarrow> map_option ((#) r) (expected_reads cs rest en)
      | None \<Rightarrow> if en = Blocks then None else Some [])"

context byte_stream
begin

lemma socket_read_parses:
  assumes "socket_ok s" "R (socket_fd s) = rcv" "read_fits c"
  shows "case parse_read c (unread s @ pend w) of
      Some (bs, rest) \<Rightarrow> read_gives pend ending (socket_fd s) bs rest (ending w) (socket_read R c s w)
    | None \<Rightarrow> read_fails (ending w) (socket_read R c s w)"
proof (cases c)
  case ReadLine
  then show ?thesis using recvLine_loop_reads [where R = R and s = s, OF assms(1,2), of w "[]"]
    by (auto simp: socket_read_def parse_read_def recvLine_def split: option.splits)
next
  case (ReadBytes n)
  with assms(3) have "n < 2 ^ 31" by (simp add: read_fits_def)
  from recvBytes_reads [where R = R and s = s, OF assms(1,2) this, of w] ReadBytes show ?thesis
    by (simp add: socket_read_def parse_read_def del: take_append drop_append split: if_splits)
qed

lemma socket_reads_expected:
  assumes "socket_ok s" "R (socket_fd s) = rcv" "list_all read_fits cs"
  shows "map_option fst (socket_reads R cs s w) = expected_reads cs (unread s @ pend w) (ending w)"
  using assms
proof (induction cs arbitrary: s w)
  case (Cons c cs)
  have fits: "read_fits c" "list_all read_fits cs" using Cons.prems(3) by simp_all
  note r = socket_read_parses [where R = R and s = s, OF Cons.prems(1,2) fits(1), of w]
  show ?case
  proof (cases "parse_read c (unread s @ pend w)")
    case None
    then show ?thesis using r by (cases "ending w") (auto simp: read_fails_def)
  next
    case (Some p)
    obtain bs rest where p: "p = (bs, rest)" by force
    with r Some obtain s' w' where s': "socket_read R c s w = Some (Inr (Some bs), s', w')" "socket_ok s'"
      "unread s' @ pend w' = rest" "ending w' = ending w" "socket_fd s' = socket_fd s"
      by (auto simp: read_gives_def)
    have "R (socket_fd s') = rcv" using s'(5) Cons.prems(2) by simp
    note IH = Cons.IH [OF s'(2) this fits(2), of w', unfolded s'(3,4)]
    show ?thesis using s'(1) Some p by (cases "socket_reads R cs s' w'") (auto simp: IH [symmetric])
  qed
qed simp

lemma recvAll_loop_reads:
  assumes "socket_ok s" "R (socket_fd s) = rcv"
  shows "case ending w of
      Closes \<Rightarrow> \<exists>s' w'. recvAll_loop R acc s w = Some (Inr None, s', w') \<and> unread s' = []
    | Fails e \<Rightarrow> \<exists>s' w'. recvAll_loop R acc s w =
        Some (if e = EAGAIN then Inr (Some (acc @ pend w)) else Inl (NoReceive e), s', w') \<and> unread s' = []
    | Blocks \<Rightarrow> recvAll_loop R acc s w = None"
  using assms
proof (induction "length (pend w)" arbitrary: acc s w rule: less_induct)
  case less
  show ?case
  proof (cases "pend w = []")
    case True
    then have e: "case ending w of Closes \<Rightarrow> \<exists>w'. rcv MAX_BUFF_SIZE w = Some (Received [], w')
       | Fails e \<Rightarrow> \<exists>w'. rcv MAX_BUFF_SIZE w = Some (RecvError e, w') | Blocks \<Rightarrow> rcv MAX_BUFF_SIZE w = None"
      by (rule rcv_end [OF MAX_BUFF_SIZE_pos])
    have "unread (s\<lparr>buffer_length := 0\<rparr>) = []" using less.prems(1) by (simp add: socket_ok_def unread_def)
    then show ?thesis using e less.prems(2) True
      by (cases "ending w") (auto simp: recvAll_loop.simps [of R acc s w] Let_def)
  next
    case ne: False
    obtain bs w' where r: "rcv MAX_BUFF_SIZE w = Some (Received bs, w')" "bs \<noteq> []" "length bs \<le> MAX_BUFF_SIZE"
      "pend w = bs @ pend w'" "ending w' = ending w"
      using rcv_data [OF MAX_BUFF_SIZE_pos ne] by blast
    obtain s' where s': "fill_buffer bs s = Some s'" "socket_ok s'" "socket_fd s' = socket_fd s"
      using fill_buffer_ok [OF less.prems(1) r(3)] by blast
    have step: "recvAll_loop R acc s w = recvAll_loop R (acc @ bs) s' w'"
      using r(1,2) s'(1) less.prems(2) by (subst recvAll_loop.simps) simp
    have lt: "length (pend w') < length (pend w)" using r(2,4) by simp
    have "R (socket_fd s') = rcv" using s'(3) less.prems(2) by simp
    from less.hyps [OF lt s'(2) this, of "acc @ bs"] r(4,5) show ?thesis unfolding step
      by (cases "ending w") auto
  qed
qed

end

subsection \<open>What the reads promise\<close>

text \<open>
  A connection as the sequence of what arrives on it. The kernel keeps what did not fit;
  a closed connection stays closed; an error is reported once.
\<close>

datatype net_event = Chunk "byte list" | Hangup | NetError int

fun chunk_recv :: "nat \<Rightarrow> net_event list \<Rightarrow> (recv_result \<times> net_event list) option" where
  "chunk_recv n [] = None"
| "chunk_recv n (Chunk bs # es) =
     (if bs = [] then chunk_recv n es
      else Some (Received (take n bs), if length bs \<le> n then es else Chunk (drop n bs) # es))"
| "chunk_recv n (Hangup # es) = Some (Received [], Hangup # es)"
| "chunk_recv n (NetError e # es) = Some (RecvError e, es)"

fun chunk_pend :: "net_event list \<Rightarrow> byte list" where
  "chunk_pend (Chunk bs # es) = bs @ chunk_pend es"
| "chunk_pend _ = []"

fun chunk_end :: "net_event list \<Rightarrow> stream_end" where
  "chunk_end [] = Blocks"
| "chunk_end (Chunk bs # es) = chunk_end es"
| "chunk_end (Hangup # es) = Closes"
| "chunk_end (NetError e # es) = Fails e"

lemma chunk_recv_data:
  "0 < n \<Longrightarrow> chunk_pend w \<noteq> [] \<Longrightarrow> \<exists>bs w'. chunk_recv n w = Some (Received bs, w') \<and> bs \<noteq> [] \<and> length bs \<le> n \<and>
     chunk_pend w = bs @ chunk_pend w' \<and> chunk_end w' = chunk_end w"
  by (induction n w rule: chunk_recv.induct) (auto simp flip: append_assoc)

lemma chunk_recv_end:
  "chunk_pend w = [] \<Longrightarrow>
     (case chunk_end w of Closes \<Rightarrow> \<exists>w'. chunk_recv n w = Some (Received [], w')
      | Fails e \<Rightarrow> \<exists>w'. chunk_recv n w = Some (RecvError e, w') | Blocks \<Rightarrow> chunk_recv n w = None)"
  by (induction n w rule: chunk_recv.induct) (auto split: stream_end.splits)

interpretation chunks: byte_stream chunk_recv chunk_pend chunk_end
  using chunk_recv_data chunk_recv_end by unfold_locales blast+

text \<open>
  C8: what a sequence of \<open>recv("*l")\<close> and \<open>recv(n)\<close> calls gives depends only on the bytes of the
  stream and on how it ends, not on how the network cuts it into pieces or on what earlier calls
  left in the buffer: it is what the same reads give on the list of all the bytes, up to the
  first that needs more than there is; and that one returns unless the connection stays silent.
\<close>

theorem socket_reads_parse_stream:
  assumes "byte_stream (R (socket_fd s)) pend ending" "socket_ok s" "list_all read_fits cs"
  shows "map_option fst (socket_reads R cs s w) = expected_reads cs (unread s @ pend w) (ending w)"
  using byte_stream.socket_reads_expected [where R = R and s = s, OF assms(1,2) refl assms(3)] .

lemma socket_reads_parse_stream_witness:
  "map_option fst (socket_reads (\<lambda>fd. chunk_recv) [ReadLine, ReadBytes 3, ReadLine] (socket_new TCP)
     [Chunk [104], Chunk [105, 13, 10, 1, 2], Chunk [3, 97, 10], Hangup]) = Some [[104, 105], [1, 2, 3], [97]]"
  by (subst socket_reads_parse_stream [where pend = chunk_pend and ending = chunk_end])
    (simp_all add: chunks.byte_stream_axioms socket_new_ok read_fits_def parse_read_def)

text \<open>
  C35: a read that needs more than the stream has before it closes or fails delivers nothing, and
  the bytes it had already taken are in no later read: the buffer is empty and \<open>nil\<close> or the
  exception is all the caller gets.
\<close>

theorem socket_read_loses_partial:
  assumes "byte_stream (R (socket_fd s)) pend ending" "socket_ok s" "read_fits c"
    and "parse_read c (unread s @ pend w) = None" "ending w \<noteq> Blocks"
  shows "\<exists>s' w'. socket_read R c s w =
      Some (case ending w of Fails e \<Rightarrow> Inl (NoReceive e) | _ \<Rightarrow> Inr None, s', w') \<and> unread s' = []"
  using byte_stream.socket_read_parses [where R = R and s = s, OF assms(1,2) refl assms(3), of w] assms(4,5)
  by (cases "ending w") (auto simp: read_fails_def)

lemma socket_read_loses_partial_witness:
  "\<exists>s' w'. socket_read (\<lambda>fd. chunk_recv) ReadLine (socket_new TCP) [Chunk [104, 105], NetError EAGAIN, Chunk [10]] =
      Some (Inl (NoReceive EAGAIN), s', w') \<and> unread s' = []"
  using socket_read_loses_partial [where R = "\<lambda>fd. chunk_recv" and s = "socket_new TCP" and c = ReadLine and
      w = "[Chunk [104, 105], NetError EAGAIN, Chunk [10]]", OF chunks.byte_stream_axioms]
  by (simp add: socket_new_ok read_fits_def parse_read_def)

text \<open>
  C36: \<open>recvAll\<close> on a TCP socket returns everything received when the connection would block,
  but when the peer has closed it, it returns no value and drops everything received.
\<close>

theorem recvAll_drops_data_on_close:
  assumes "byte_stream (R (socket_fd s)) pend ending" "socket_ok s" "so_type s = TCP"
  shows "(ending w = Fails EAGAIN \<longrightarrow>
      (\<exists>s' w'. recvAll R rcvfrom s w = Some (Inr (Some (unread s @ pend w)), s', w') \<and> unread s' = [])) \<and>
    (ending w = Closes \<longrightarrow> (\<exists>s' w'. recvAll R rcvfrom s w = Some (Inr None, s', w') \<and> unread s' = []))"
proof -
  have "recvAll R rcvfrom s w = recvAll_loop R (unread s) s w"
    using assms(3) buffer_slice_unread(2) [OF assms(2)] unread_empty [of s] by (auto simp: recvAll_def)
  then show ?thesis using byte_stream.recvAll_loop_reads [where R = R and s = s and w = w and acc = "unread s", OF assms(1,2) refl] by auto
qed

lemma recvAll_drops_data_on_close_witness:
  "\<exists>s' w'. recvAll (\<lambda>fd. chunk_recv) (\<lambda>fd. chunk_recv) (socket_new TCP) [Chunk [104, 105], Hangup] = Some (Inr None, s', w') \<and>
     unread s' = []"
proof -
  have "so_type (socket_new TCP) = TCP" by (simp add: socket_new_def)
  from recvAll_drops_data_on_close [OF chunks.byte_stream_axioms socket_new_ok(1) this] show ?thesis by simp
qed





subsection \<open>Binding, connecting and accepting\<close>

text \<open>
  The part of \<open>struct sockaddr\<close> the code reads (the port is in network byte order and at the same
  place for both families), and the first result of \<open>getaddrinfo\<close>.
\<close>

record sockaddr =
  sa_family :: int
  sa_port :: "byte \<times> byte"
  sa_data :: "byte list"

record addrinfo =
  ai_family :: int
  ai_socktype :: socket_type
  ai_protocol :: int
  ai_addr :: sockaddr

text \<open>The calls, each from the state of the world to its result and the next state.\<close>

record 'w sys =
  sys_errno :: "'w \<Rightarrow> int"
  sys_getaddrinfo :: "string option \<Rightarrow> byte list \<Rightarrow> socket_type \<Rightarrow> bool \<Rightarrow> 'w \<Rightarrow> (int + addrinfo) \<times> 'w"
  sys_socket :: "int \<times> socket_type \<times> int \<Rightarrow> 'w \<Rightarrow> int \<times> 'w"
  sys_close :: "int \<Rightarrow> 'w \<Rightarrow> 'w"
  sys_set_nonblock :: "int \<Rightarrow> 'w \<Rightarrow> bool \<times> 'w"
  sys_bind :: "int \<Rightarrow> sockaddr \<Rightarrow> 'w \<Rightarrow> bool \<times> 'w"
  sys_connect :: "int \<Rightarrow> sockaddr \<Rightarrow> 'w \<Rightarrow> bool \<times> 'w"
  sys_listen :: "int \<Rightarrow> int \<Rightarrow> 'w \<Rightarrow> bool \<times> 'w"
  sys_accept :: "int \<Rightarrow> 'w \<Rightarrow> (int \<times> sockaddr) \<times> 'w"
  sys_getsockname :: "int \<Rightarrow> 'w \<Rightarrow> sockaddr option \<times> 'w"
  sys_getnameinfo :: "sockaddr \<Rightarrow> nat \<Rightarrow> 'w \<Rightarrow> string option \<times> 'w"
  sys_so_error :: "int \<Rightarrow> 'w \<Rightarrow> int option \<times> 'w"
  sys_set_timeout :: "int \<Rightarrow> string \<Rightarrow> int \<times> int \<Rightarrow> 'w \<Rightarrow> bool \<times> 'w"
  sys_send :: "int \<Rightarrow> byte list \<Rightarrow> 'w \<Rightarrow> int \<times> 'w"
  sys_sendto :: "int \<Rightarrow> byte list \<Rightarrow> sockaddr \<Rightarrow> 'w \<Rightarrow> int \<times> 'w"

type_synonym ('w, 'r) sock_res = "(socket_error + 'r) \<times> socket \<times> 'w"

definition AF_INET :: int where "AF_INET = 2"

definition SOCKADDR_SIZE :: nat where "SOCKADDR_SIZE = 16"

definition ntohs :: "byte \<times> byte \<Rightarrow> int" where
  "ntohs p = uint (fst p) * 256 + uint (snd p)"

text \<open>\<open>snprintf(port_str, 10, "%i", port)\<close>\<close>

definition port_str :: "int \<Rightarrow> byte list" where
  "port_str port = take 9 (if port < 0 then 45 # digits_of (- port) else digits_of port)"

definition get_port :: "'w sys \<Rightarrow> int \<Rightarrow> 'w \<Rightarrow> (socket_error + int) \<times> 'w" where
  "get_port sys fd w =
     (let (r, w) = sys_getsockname sys fd w in
      case r of None \<Rightarrow> (Inl (NoPort (sys_errno sys w)), w)
      | Some sa \<Rightarrow> (Inr (ntohs (sa_port sa)), w))"

definition socket_close :: "'w sys \<Rightarrow> socket \<Rightarrow> 'w \<Rightarrow> socket \<times> 'w" where
  "socket_close sys s w =
     (if socket_fd s \<noteq> -1 then (s\<lparr>socket_fd := -1\<rparr>, sys_close sys (socket_fd s) w) else (s, w))"

definition setNonBlocking :: "'w sys \<Rightarrow> socket \<Rightarrow> 'w \<Rightarrow> ('w, unit) sock_res" where
  "setNonBlocking sys s w =
     (let s = s\<lparr>non_blocking := True\<rparr> in
      if socket_fd s \<noteq> -1 then
        let (ok, w) = sys_set_nonblock sys (socket_fd s) w in
        if \<not> ok then (Inl (NoNonBlocking (sys_errno sys w)), s, w) else (Inr (), s, w)
      else (Inr (), s, w))"

definition setTimeout :: "'w sys \<Rightarrow> int \<Rightarrow> string \<Rightarrow> socket \<Rightarrow> 'w \<Rightarrow> ('w, unit) sock_res" where
  "setTimeout sys timeout opt s w =
     (if socket_fd s = -1 then (Inl TimeoutTooEarly, s, w)
      else
        let sec = sgn timeout * (abs timeout div 1000); msec = sgn timeout * (abs timeout mod 1000);
            (ok, w) = sys_set_timeout sys (socket_fd s) opt (sec, msec * 1000) w in
        if \<not> ok then (Inl (NoTimeout (sys_errno sys w)), s, w) else (Inr (), s, w))"

definition setRecvTimeout :: "'w sys \<Rightarrow> int \<Rightarrow> socket \<Rightarrow> 'w \<Rightarrow> ('w, unit) sock_res" where
  "setRecvTimeout sys timeout s w = setTimeout sys timeout ''SO_RCVTIMEO'' s w"

definition setSendTimeout :: "'w sys \<Rightarrow> int \<Rightarrow> socket \<Rightarrow> 'w \<Rightarrow> ('w, unit) sock_res" where
  "setSendTimeout sys timeout s w = setTimeout sys timeout ''SO_SNDTIMEO'' s w"

text \<open>Opening the descriptor, common to \<open>bind\<close> and \<open>connect\<close>: \<open>socket\<close>, then the non-blocking flag.\<close>

definition open_socket :: "'w sys \<Rightarrow> addrinfo \<Rightarrow> (int \<Rightarrow> socket_error) \<Rightarrow> socket \<Rightarrow> 'w \<Rightarrow> ('w, unit) sock_res" where
  "open_socket sys ai err s w =
     (let (fd, w) = sys_socket sys (ai_family ai, ai_socktype ai, ai_protocol ai) w; s = s\<lparr>socket_fd := fd\<rparr> in
      if fd = -1 then (Inl (err (sys_errno sys w)), s, w)
      else if non_blocking s then setNonBlocking sys s w else (Inr (), s, w))"

definition bind_host :: "string option \<Rightarrow> socket \<Rightarrow> socket" where
  "bind_host localhost s =
     (case localhost of None \<Rightarrow> s
      | Some h \<Rightarrow> if h = '''' \<or> h = ''*'' then s\<lparr>local_host := ''*''\<rparr> else s\<lparr>local_host := h\<rparr>)"

definition socket_bind :: "'w sys \<Rightarrow> string option \<Rightarrow> int \<Rightarrow> socket \<Rightarrow> 'w \<Rightarrow> ('w, int) sock_res" where
  "socket_bind sys localhost port s w =
     (let s = bind_host localhost s; (gai, w) = sys_getaddrinfo sys None (port_str port) (so_type s) True w in
      case gai of Inl status \<Rightarrow> (Inl (NoAddrInfo (local_host s) port status), s, w)
      | Inr ai \<Rightarrow>
          let (s, w) = socket_close sys s w; (r, s, w) = open_socket sys ai (NoSocket (local_host s) port) s w in
          case r of Inl e \<Rightarrow> (Inl e, s, w)
          | Inr _ \<Rightarrow>
              let (ok, w) = sys_bind sys (socket_fd s) (ai_addr ai) w in
              if \<not> ok then (Inl (NoBind (local_host s) port (sys_errno sys w)), s, w)
              else if port = 0 then
                let (p, w) = get_port sys (socket_fd s) w in
                case p of Inl e \<Rightarrow> (Inl e, s, w) | Inr p \<Rightarrow> (Inr p, s\<lparr>local_port := p\<rparr>, w)
              else (Inr port, s\<lparr>local_port := port\<rparr>, w))"

text \<open>\<open>connect\<close> for UDP binds any local port and does not look at the result of \<open>socket\<close>.\<close>

definition any_address :: sockaddr where
  "any_address = \<lparr>sa_family = AF_INET, sa_port = (0, 0), sa_data = [0, 0, 0, 0]\<rparr>"

definition connect_udp :: "'w sys \<Rightarrow> string \<Rightarrow> int \<Rightarrow> socket \<Rightarrow> 'w \<Rightarrow> ('w, bool) sock_res" where
  "connect_udp sys host port s w =
     (let s = s\<lparr>remote_host := host, remote_port := port\<rparr>; (fd, w) = sys_socket sys (AF_INET, UDP, 0) w;
          s = s\<lparr>socket_fd := fd\<rparr>; (ok, w) = sys_bind sys fd any_address w in
      if \<not> ok then (Inl (NoLocalBind (sys_errno sys w)), s, w) else (Inr True, s, w))"

definition connect_tcp :: "'w sys \<Rightarrow> string \<Rightarrow> int \<Rightarrow> socket \<Rightarrow> 'w \<Rightarrow> ('w, bool) sock_res" where
  "connect_tcp sys host port s w =
     (let (gai, w) = sys_getaddrinfo sys (Some host) (port_str port) TCP False w in
      case gai of Inl status \<Rightarrow> (Inl (NoAddrInfo host port status), s, w)
      | Inr ai \<Rightarrow>
          let (r, s, w) = open_socket sys ai (NoSocket host port) s w in
          case r of Inl e \<Rightarrow> (Inl e, s, w)
          | Inr _ \<Rightarrow>
              let (ok, w) = sys_connect sys (socket_fd s) (ai_addr ai) w in
              if \<not> ok then
                if sys_errno sys w = EINPROGRESS then (Inr False, s, w)
                else (Inl (NoConnect host port (sys_errno sys w)), s, w)
              else (Inr True, s\<lparr>remote_host := host, remote_port := port\<rparr>, w))"

definition socket_connect :: "'w sys \<Rightarrow> string \<Rightarrow> int \<Rightarrow> socket \<Rightarrow> 'w \<Rightarrow> ('w, bool) sock_res" where
  "socket_connect sys host port s w =
     (let (s, w) = socket_close sys s w in
      if so_type s = UDP then connect_udp sys host port s w else connect_tcp sys host port s w)"

definition connectFinish :: "'w sys \<Rightarrow> socket \<Rightarrow> 'w \<Rightarrow> ('w, unit) sock_res" where
  "connectFinish sys s w =
     (if socket_fd s = -1 then (Inl ConnectFinishTooEarly, s, w)
      else
        let (r, w) = sys_so_error sys (socket_fd s) w in
        case r of None \<Rightarrow> (Inl (NoFinish (sys_errno sys w)), s, w)
        | Some err \<Rightarrow> if err \<noteq> 0 then (Inl (NoFinish err), s, w) else (Inr (), s, w))"

definition socket_listen :: "'w sys \<Rightarrow> int \<Rightarrow> socket \<Rightarrow> 'w \<Rightarrow> ('w, unit) sock_res" where
  "socket_listen sys backlog s w =
     (if local_port s = -1 then (Inl ListenBeforeBind, s, w)
      else
        let (ok, w) = sys_listen sys (socket_fd s) backlog w in
        if \<not> ok then (Inl (NoListen (sys_errno sys w)), s, w) else (Inr (), s, w))"

text \<open>The constructor for an accepted descriptor asks for its port, and may throw.\<close>

definition socket_from_fd :: "'w sys \<Rightarrow> socket_type \<Rightarrow> int \<Rightarrow> string \<Rightarrow> string \<Rightarrow> int \<Rightarrow> 'w \<Rightarrow>
    (socket_error + socket) \<times> 'w" where
  "socket_from_fd sys ty fd lhost rhost rport w =
     (let (p, w) = get_port sys fd w in
      case p of Inl e \<Rightarrow> (Inl e, w)
      | Inr p \<Rightarrow> (Inr ((socket_new ty)\<lparr>socket_fd := fd, local_host := lhost, local_port := p, remote_host := rhost,
          remote_port := rport\<rparr>), w))"

definition socket_accept :: "'w sys \<Rightarrow> socket \<Rightarrow> 'w \<Rightarrow> (socket_error + socket) \<times> 'w" where
  "socket_accept sys s w =
     (if local_port s = -1 then (Inl AcceptBeforeBind, w)
      else
        let ((fd, sa), w) = sys_accept sys (socket_fd s) w in
        if fd = -1 then (Inl (NoAccept (sys_errno sys w)), w)
        else
          let rport = ntohs (sa_port sa); (name, w) = sys_getnameinfo sys sa SOCKADDR_SIZE w in
          case name of None \<Rightarrow> (Inl (NoRemoteName (sys_errno sys w)), w)
          | Some rhost \<Rightarrow> socket_from_fd sys (so_type s) fd (local_host s) rhost rport w)"

subsection \<open>Sending\<close>

definition sendBytes :: "'w sys \<Rightarrow> byte list \<Rightarrow> socket \<Rightarrow> 'w \<Rightarrow> (socket_error + int) \<times> 'w" where
  "sendBytes sys bs s w =
     (if so_type s = UDP then
        let (gai, w) = sys_getaddrinfo sys (Some (remote_host s)) (port_str (remote_port s)) UDP False w in
        case gai of Inl status \<Rightarrow> (Inl (NoAddrInfo (remote_host s) (remote_port s) status), w)
        | Inr ai \<Rightarrow> let (sent, w) = sys_sendto sys (socket_fd s) bs (ai_addr ai) w in (Inr sent, w)
      else
        let (sent, w) = sys_send sys (socket_fd s) bs w in
        if sent = -1 then
          if sys_errno sys w = EAGAIN then (Inr 0, w) else (Inl (NoSend (sys_errno sys w)), w)
        else (Inr sent, w))"

text \<open>
  \<open>recv\<close>: the arguments as Lua sees them, a number of bytes, a string that is not a number or
  something else, and a timeout.
\<close>

datatype recv_arg = ArgNumber int | ArgString string | ArgOther

definition socket_recv :: "'w sys \<Rightarrow> 'w recv_call \<Rightarrow> 'w recv_call \<Rightarrow> recv_arg \<Rightarrow> int option \<Rightarrow> socket \<Rightarrow> 'w \<Rightarrow>
    ((socket_error + byte list option) \<times> socket \<times> 'w) option" where
  "socket_recv sys rcv rcvfrom arg timeout s w =
     (let (r, s, w) = (case timeout of None \<Rightarrow> (Inr (), s, w) | Some t \<Rightarrow> setRecvTimeout sys t s w) in
      case r of Inl e \<Rightarrow> Some (Inl e, s, w)
      | Inr _ \<Rightarrow>
          (case arg of
             ArgNumber n \<Rightarrow> recvBytes rcv n s w
           | ArgString mode \<Rightarrow>
               (if take 2 mode = ''*a'' then recvAll rcv rcvfrom s w
                else if take 2 mode = ''*l'' then recvLine rcv s w
                else Some (Inl (BadMode mode), s, w))
           | ArgOther \<Rightarrow> recvLine rcv s w))"

subsection \<open>Descriptors\<close>

text \<open>
  What the calls do to the set of open descriptors of the process: \<open>socket\<close> and \<open>accept\<close> give a
  fresh one or -1, \<open>close\<close> removes its argument, and no other call changes it.
\<close>

locale fd_table =
  fixes sys :: "'w sys" and opens :: "'w \<Rightarrow> int set"
  assumes socket_fresh: "sys_socket sys a w = (fd, w') \<Longrightarrow>
      if fd = -1 then opens w' = opens w else fd \<notin> opens w \<and> opens w' = insert fd (opens w)"
    and accept_fresh: "sys_accept sys l w = ((fd, sa), w') \<Longrightarrow>
      if fd = -1 then opens w' = opens w else fd \<notin> opens w \<and> opens w' = insert fd (opens w)"
    and close_removes: "opens (sys_close sys fd w) = opens w - {fd}"
    and keeps: "opens (snd (sys_getaddrinfo sys h p ty b w)) = opens w"
      "opens (snd (sys_set_nonblock sys fd w)) = opens w" "opens (snd (sys_bind sys fd sa w)) = opens w"
      "opens (snd (sys_connect sys fd sa w)) = opens w" "opens (snd (sys_listen sys fd n w)) = opens w"
      "opens (snd (sys_getsockname sys fd w)) = opens w" "opens (snd (sys_getnameinfo sys sa k w)) = opens w"
      "opens (snd (sys_so_error sys fd w)) = opens w" "opens (snd (sys_set_timeout sys fd opt t w)) = opens w"
      "opens (snd (sys_send sys fd bs w)) = opens w" "opens (snd (sys_sendto sys fd bs sa w)) = opens w"

text \<open>The calls a client makes on a socket, and the state they leave, whether they throw or not.\<close>

datatype socket_call =
    CallBind "string option" int | CallConnect string int | CallConnectFinish | CallListen int | CallSetNonBlocking
  | CallSetRecvTimeout int | CallSetSendTimeout int | CallSend "byte list" | CallClose

definition socket_call :: "'w sys \<Rightarrow> socket_call \<Rightarrow> socket \<times> 'w \<Rightarrow> socket \<times> 'w" where
  "socket_call sys c sw =
     (let (s, w) = sw in
      case c of
        CallBind h p \<Rightarrow> snd (socket_bind sys h p s w)
      | CallConnect h p \<Rightarrow> snd (socket_connect sys h p s w)
      | CallConnectFinish \<Rightarrow> snd (connectFinish sys s w)
      | CallListen n \<Rightarrow> snd (socket_listen sys n s w)
      | CallSetNonBlocking \<Rightarrow> snd (setNonBlocking sys s w)
      | CallSetRecvTimeout t \<Rightarrow> snd (setRecvTimeout sys t s w)
      | CallSetSendTimeout t \<Rightarrow> snd (setSendTimeout sys t s w)
      | CallSend bs \<Rightarrow> (s, snd (sendBytes sys bs s w))
      | CallClose \<Rightarrow> socket_close sys s w)"

context fd_table
begin

definition owns :: "int set \<Rightarrow> socket \<times> 'w \<Rightarrow> bool" where
  "owns base sw \<longleftrightarrow>
     (let (s, w) = sw in
      if socket_fd s = -1 then opens w = base else socket_fd s \<notin> base \<and> opens w = insert (socket_fd s) base)"

lemma owns_keeps [intro]:
  "owns base (s, w) \<Longrightarrow> socket_fd s' = socket_fd s \<Longrightarrow> opens w' = opens w \<Longrightarrow> owns base (s', w')"
  by (simp add: owns_def)

lemma owns_close:
  "owns base (s, w) \<Longrightarrow> owns base (socket_close sys s w) \<and> socket_fd (fst (socket_close sys s w)) = -1 \<and>
     opens (snd (socket_close sys s w)) = base"
  by (auto simp: owns_def socket_close_def close_removes)

lemma keeps_pair:
  "sys_getaddrinfo sys h p ty b w = (r1, w') \<Longrightarrow> opens w' = opens w"
  "sys_set_nonblock sys fd w = (ok, w') \<Longrightarrow> opens w' = opens w" "sys_bind sys fd sa w = (ok, w') \<Longrightarrow> opens w' = opens w"
  "sys_connect sys fd sa w = (ok, w') \<Longrightarrow> opens w' = opens w" "sys_listen sys fd n w = (ok, w') \<Longrightarrow> opens w' = opens w"
  "sys_getsockname sys fd w = (r2, w') \<Longrightarrow> opens w' = opens w" "sys_getnameinfo sys sa k w = (r3, w') \<Longrightarrow> opens w' = opens w"
  "sys_so_error sys fd w = (r4, w') \<Longrightarrow> opens w' = opens w" "sys_set_timeout sys fd opt t w = (ok, w') \<Longrightarrow> opens w' = opens w"
  "sys_send sys fd bs w = (r5, w') \<Longrightarrow> opens w' = opens w" "sys_sendto sys fd bs sa w = (r5, w') \<Longrightarrow> opens w' = opens w"
  using keeps by (metis snd_conv)+

lemma get_port_keeps: "get_port sys fd w = (r, w') \<Longrightarrow> opens w' = opens w"
  by (auto simp: get_port_def split: prod.splits option.splits dest: keeps_pair)

lemma setNonBlocking_keeps:
  "setNonBlocking sys s w = (r, s', w') \<Longrightarrow> socket_fd s' = socket_fd s \<and> opens w' = opens w"
  by (auto simp: setNonBlocking_def Let_def split: prod.splits if_splits dest: keeps_pair)

lemma open_socket_owns:
  assumes "open_socket sys ai err s w = (r, s', w')" "owns base (s, w)" "socket_fd s = -1"
  shows "owns base (s', w')"
proof -
  obtain fd w1 where fd: "sys_socket sys (ai_family ai, ai_socktype ai, ai_protocol ai) w = (fd, w1)" by force
  have "owns base (s\<lparr>socket_fd := fd\<rparr>, w1)"
    using socket_fresh [OF fd] assms(2,3) by (auto simp: owns_def split: if_splits)
  moreover have "socket_fd s' = fd \<and> opens w' = opens w1"
    using assms(1) fd setNonBlocking_keeps [of "s\<lparr>socket_fd := fd\<rparr>" w1]
    by (auto simp: open_socket_def Let_def split: if_splits)
  ultimately show ?thesis by auto
qed

lemma bind_host_fd [simp]: "socket_fd (bind_host h s) = socket_fd s"
  by (auto simp: bind_host_def split: option.splits)

lemma socket_bind_owns:
  assumes "owns base (s, w)"
  shows "owns base (snd (socket_bind sys h p s w))"
proof -
  let ?s = "bind_host h s"
  obtain gai w1 where g: "sys_getaddrinfo sys None (port_str p) (so_type ?s) True w = (gai, w1)" by force
  have o1: "owns base (?s, w1)" using owns_keeps [OF assms] keeps_pair(1) [OF g] by simp
  show ?thesis
  proof (cases gai)
    case (Inl e)
    then show ?thesis using o1 g by (simp add: socket_bind_def Let_def)
  next
    case (Inr ai)
    obtain s2 w2 where c: "socket_close sys ?s w1 = (s2, w2)" by force
    have o2: "owns base (s2, w2)" "socket_fd s2 = -1" using owns_close [OF o1] c by simp_all
    obtain r s3 w3 where os: "open_socket sys ai (NoSocket (local_host s2) p) s2 w2 = (r, s3, w3)" by (metis prod.exhaust)
    have o3: "owns base (s3, w3)" by (rule open_socket_owns [OF os o2])
    obtain ok w4 where b: "sys_bind sys (socket_fd s3) (ai_addr ai) w3 = (ok, w4)" by force
    have o4: "owns base (s3, w4)" using o3 keeps_pair(3) [OF b] by auto
    obtain q w5 where gp: "get_port sys (socket_fd s3) w4 = (q, w5)" by force
    have o5: "owns base (s3, w5)" using o4 get_port_keeps [OF gp] by auto
    have "owns base (s3\<lparr>local_port := k\<rparr>, w5)" "owns base (s3\<lparr>local_port := k\<rparr>, w4)" for k using o4 o5 by auto
    then show ?thesis using Inr g c os b gp o3 o4 o5
      by (auto simp: socket_bind_def Let_def split: sum.splits)
  qed
qed

lemma connect_udp_owns:
  assumes "owns base (s, w)" "socket_fd s = -1"
  shows "owns base (snd (connect_udp sys h p s w))"
proof -
  obtain fd w1 where fd: "sys_socket sys (AF_INET, UDP, 0) w = (fd, w1)" by force
  obtain ok w2 where b: "sys_bind sys fd any_address w1 = (ok, w2)" by force
  have "owns base (s\<lparr>remote_host := h, remote_port := p, socket_fd := fd\<rparr>, w2)"
    using socket_fresh [OF fd] keeps_pair(3) [OF b] assms by (auto simp: owns_def split: if_splits)
  then show ?thesis using fd b by (simp add: connect_udp_def Let_def)
qed

lemma connect_tcp_owns:
  assumes "owns base (s, w)" "socket_fd s = -1"
  shows "owns base (snd (connect_tcp sys h p s w))"
proof -
  obtain gai w1 where g: "sys_getaddrinfo sys (Some h) (port_str p) TCP False w = (gai, w1)" by force
  have o1: "owns base (s, w1)" using owns_keeps [OF assms(1)] keeps_pair(1) [OF g] by simp
  show ?thesis
  proof (cases gai)
    case (Inl e)
    then show ?thesis using o1 g by (simp add: connect_tcp_def)
  next
    case (Inr ai)
    obtain r s3 w3 where os: "open_socket sys ai (NoSocket h p) s w1 = (r, s3, w3)" by (metis prod.exhaust)
    have o3: "owns base (s3, w3)" by (rule open_socket_owns [OF os o1 assms(2)])
    obtain ok w4 where b: "sys_connect sys (socket_fd s3) (ai_addr ai) w3 = (ok, w4)" by force
    have o4: "owns base (s3, w4)" "owns base (s3\<lparr>remote_host := h, remote_port := p\<rparr>, w4)"
      using o3 keeps_pair(4) [OF b] by auto
    then show ?thesis using Inr g os b o3 by (auto simp: connect_tcp_def split: sum.splits)
  qed
qed

lemma socket_connect_owns:
  assumes "owns base (s, w)"
  shows "owns base (snd (socket_connect sys h p s w))"
proof -
  obtain s1 w1 where c: "socket_close sys s w = (s1, w1)" by force
  have "owns base (s1, w1)" "socket_fd s1 = -1" using owns_close [OF assms] c by simp_all
  then show ?thesis using c connect_udp_owns connect_tcp_owns by (simp add: socket_connect_def)
qed

lemma setTimeout_owns: "owns base (s, w) \<Longrightarrow> owns base (snd (setTimeout sys t opt s w))"
  by (auto simp: setTimeout_def Let_def split: prod.splits dest: keeps_pair)

lemma socket_call_owns:
  assumes "owns base (s, w)"
  shows "owns base (socket_call sys c (s, w))"
proof (cases c)
  case (CallBind h p)
  then show ?thesis using socket_bind_owns [OF assms] by (simp add: socket_call_def)
next
  case (CallConnect h p)
  then show ?thesis using socket_connect_owns [OF assms] by (simp add: socket_call_def)
next
  case CallConnectFinish
  have "owns base (snd (connectFinish sys s w))"
    using assms by (auto simp: connectFinish_def Let_def split: prod.splits option.splits dest: keeps_pair)
  with CallConnectFinish show ?thesis by (simp add: socket_call_def)
next
  case (CallListen n)
  have "owns base (snd (socket_listen sys n s w))"
    using assms by (auto simp: socket_listen_def Let_def split: prod.splits dest: keeps_pair)
  with CallListen show ?thesis by (simp add: socket_call_def)
next
  case CallSetNonBlocking
  have "owns base (snd (setNonBlocking sys s w))"
    using assms setNonBlocking_keeps [of s w] by (cases "setNonBlocking sys s w") auto
  with CallSetNonBlocking show ?thesis by (simp add: socket_call_def)
next
  case (CallSend bs)
  have "opens (snd (sendBytes sys bs s w)) = opens w"
    by (auto simp: sendBytes_def Let_def split: prod.splits sum.splits dest!: keeps_pair)
  with CallSend assms show ?thesis by (auto simp: socket_call_def)
qed (use assms setTimeout_owns owns_close in \<open>simp_all add: socket_call_def setRecvTimeout_def setSendTimeout_def\<close>)

lemma socket_calls_own: "owns base sw \<Longrightarrow> owns base (fold (socket_call sys) cs sw)"
proof (induction cs arbitrary: sw)
  case (Cons c cs)
  then show ?case using socket_call_owns by (cases sw) simp
qed simp

end

text \<open>A world that only keeps the open descriptors, on which every call that can succeed does.\<close>

definition fresh_fd :: "int list \<Rightarrow> int" where
  "fresh_fd w = fold max w 2 + 1"

definition ipv6_peer :: sockaddr where
  "ipv6_peer = \<lparr>sa_family = 10, sa_port = (31, 144), sa_data = []\<rparr>"

definition sim_sys :: "int list sys" where
  "sim_sys = \<lparr>sys_errno = (\<lambda>w. 0),
     sys_getaddrinfo = (\<lambda>h p ty b w. (Inr \<lparr>ai_family = AF_INET, ai_socktype = ty, ai_protocol = 0, ai_addr = any_address\<rparr>, w)),
     sys_socket = (\<lambda>a w. (fresh_fd w, fresh_fd w # w)),
     sys_close = (\<lambda>fd w. removeAll fd w),
     sys_set_nonblock = (\<lambda>fd w. (True, w)), sys_bind = (\<lambda>fd sa w. (True, w)), sys_connect = (\<lambda>fd sa w. (True, w)),
     sys_listen = (\<lambda>fd n w. (True, w)),
     sys_accept = (\<lambda>l w. ((fresh_fd w, ipv6_peer), fresh_fd w # w)),
     sys_getsockname = (\<lambda>fd w. (Some ipv6_peer, w)),
     sys_getnameinfo = (\<lambda>sa k w. (if sa_family sa = 10 \<and> k < 28 then None else Some ''peer'', w)),
     sys_so_error = (\<lambda>fd w. (Some 0, w)), sys_set_timeout = (\<lambda>fd opt t w. (True, w)),
     sys_send = (\<lambda>fd bs w. (int (length bs), w)), sys_sendto = (\<lambda>fd bs sa w. (int (length bs), w))\<rparr>"

lemma fold_max_ge: "(a :: int) \<le> fold max w a \<and> (\<forall>x \<in> set w. x \<le> fold max w a)"
  by (induction w arbitrary: a) (auto, (meson max.bounded_iff order_trans)+)

lemma fresh_fd_fresh: "fresh_fd w \<notin> set w" "fresh_fd w \<noteq> -1"
  using fold_max_ge [of 2 w] by (auto simp: fresh_fd_def)

interpretation sim: fd_table sim_sys set
  by unfold_locales (auto simp: sim_sys_def fresh_fd_fresh split: if_splits)



text \<open>
  C39: \<open>accept\<close> hands \<open>getnameinfo\<close> the 16 bytes of a \<open>struct sockaddr\<close>, which for an IPv6 peer is
  not the whole address: every IPv6 connection is accepted by the kernel, answered with an
  exception, and its descriptor stays open with no object to close it.
\<close>

theorem accept_leaks_ipv6:
  assumes "fd_table sys opens" "local_port s \<noteq> -1"
    and "\<And>sa n w. sa_family sa = 10 \<Longrightarrow> n < 28 \<Longrightarrow> fst (sys_getnameinfo sys sa n w) = None"
    and "sys_accept sys (socket_fd s) w = ((fd, sa), w1)" "fd \<noteq> -1" "sa_family sa = 10"
  shows "\<exists>e w'. socket_accept sys s w = (Inl e, w') \<and> fd \<notin> opens w \<and> opens w' = insert fd (opens w)"
proof -
  obtain w2 where g: "sys_getnameinfo sys sa SOCKADDR_SIZE w1 = (None, w2)"
    using assms(3) [OF assms(6), of SOCKADDR_SIZE w1]
    by (cases "sys_getnameinfo sys sa SOCKADDR_SIZE w1") (auto simp: SOCKADDR_SIZE_def)
  have "opens w2 = opens w1" by (rule fd_table.keeps_pair(7) [OF assms(1) g])
  then show ?thesis using fd_table.accept_fresh [OF assms(1,4)] assms(2,4,5) g
    by (simp add: socket_accept_def Let_def)
qed

lemma accept_leaks_ipv6_witness:
  "\<exists>e w'. socket_accept sim_sys ((socket_new TCP)\<lparr>socket_fd := 3, local_port := 8080\<rparr>) [3] = (Inl e, w') \<and>
     4 \<notin> set [3 :: int] \<and> set w' = insert 4 (set [3])"
  by (rule accept_leaks_ipv6 [where sa = ipv6_peer and ?w1.0 = "[4, 3]", OF sim.fd_table_axioms])
    (simp_all add: sim_sys_def fresh_fd_def ipv6_peer_def)

text \<open>
  The interface given to \<open>bind\<close> is only stored: the calls made to the system, the port and
  the descriptor are those of a \<open>bind\<close> to any interface.
\<close>

theorem bind_ignores_interface:
  assumes "socket_bind sys (Some h) port s w = (r, s1, w1)" "socket_bind sys None port s w = (r', s2, w2)"
  shows "w1 = w2 \<and> s2 = s1\<lparr>local_host := local_host s\<rparr> \<and> (\<forall>p. r = Inr p \<longleftrightarrow> r' = Inr p)"
proof -
  let ?h = "bind_host (Some h) s"
  have fields: "so_type ?h = so_type s" "socket_fd ?h = socket_fd s" "non_blocking ?h = non_blocking s"
    "?h = s\<lparr>local_host := local_host ?h\<rparr>"
    by (auto simp: bind_host_def)
  define lh where "lh = local_host ?h"
  have h: "?h = s\<lparr>local_host := lh\<rparr>" using fields(4) by (simp add: lh_def)
  have n: "bind_host None s = s" by (simp add: bind_host_def)
  obtain gai w' where g: "sys_getaddrinfo sys None (port_str port) (so_type s) True w = (gai, w')" by force
  show ?thesis
  proof (cases gai)
    case (Inl e)
    then show ?thesis using assms g unfolding socket_bind_def h n by auto
  next
    case (Inr ai)
    obtain fd w3 where fd: "sys_socket sys (ai_family ai, ai_socktype ai, ai_protocol ai) (snd (socket_close sys s w')) = (fd, w3)"
      by force
    show ?thesis using assms g Inr fd unfolding socket_bind_def h n
      by (auto simp: socket_close_def open_socket_def setNonBlocking_def Let_def split: if_splits prod.splits sum.splits)
  qed
qed

lemma bind_ignores_interface_witness:
  "\<exists>r s1 w1 r' s2 w2. socket_bind sim_sys (Some ''10.0.0.1'') 80 (socket_new TCP) [] = (r, s1, w1) \<and>
     socket_bind sim_sys None 80 (socket_new TCP) [] = (r', s2, w2) \<and> w1 = w2"
proof -
  obtain r s1 w1 where 1: "socket_bind sim_sys (Some ''10.0.0.1'') 80 (socket_new TCP) [] = (r, s1, w1)" by (metis prod.exhaust)
  obtain r' s2 w2 where 2: "socket_bind sim_sys None 80 (socket_new TCP) [] = (r', s2, w2)" by (metis prod.exhaust)
  from bind_ignores_interface [OF 1 2] 1 2 show ?thesis by blast
qed

end
