(* ===== verification/LkMsgpack.thy ===== *)
theory LkMsgpack
  imports MsgpackDecode MsgpackBuffer
begin

text \<open>
  \<open>modules/core/src/msgpack/msgpack.cpp\<close>: Lua values to MessagePack and back. The Lua API the code
  uses is modelled on explicit stacks and tables (\<open>lstate\<close>); the length of a table that
  \<open>luaL_getn\<close> reports, which the language leaves open for tables with holes, is a parameter. The
  packing loops write to any buffer of the packer's interface, \<open>msgpack_lua_to_bin\<close> to a simple
  buffer on the heap. A result \<open>None\<close> means no normal return, \<open>Inl\<close> a C++ exception or a Lua error.
\<close>

subsection \<open>Lua values, tables and the stack\<close>

text \<open>
  A number is the bits of a double, a string its bytes, a table its address; \<open>LOther\<close> stands for
  the types that cannot be packed, with their name. A table is its entries in the order in which
  \<open>lua_next\<close> visits them; no entry has the value \<open>nil\<close>.
\<close>

datatype lval = LNil | LBool bool | LNum u64 | LStr "byte list" | LTab nat | LOther string

type_synonym ltable = "(lval \<times> lval) list"

record lstate =
  l_stack :: "lval list"
  l_tabs :: "nat \<Rightarrow> ltable"
  l_next :: nat

definition lnum :: "nat \<Rightarrow> lval" where
  "lnum n = LNum (dbl_of_int_abs (int n))"

text \<open>Equality of keys: numbers by value, tables by identity.\<close>

definition raw_eq :: "lval \<Rightarrow> lval \<Rightarrow> bool" where
  "raw_eq a b = (case (a, b) of (LNum x, LNum y) \<Rightarrow> dbl_eq x y | _ \<Rightarrow> a = b)"

definition raw_get :: "ltable \<Rightarrow> lval \<Rightarrow> lval" where
  "raw_get t k = (case find (\<lambda>e. raw_eq (fst e) k) t of None \<Rightarrow> LNil | Some e \<Rightarrow> snd e)"

fun raw_put :: "ltable \<Rightarrow> lval \<Rightarrow> lval \<Rightarrow> ltable" where
  "raw_put [] k v = [(k, v)]"
| "raw_put (e # t) k v = (if raw_eq (fst e) k then (fst e, v) # t else e # raw_put t k v)"

definition raw_set :: "ltable \<Rightarrow> lval \<Rightarrow> lval \<Rightarrow> ltable" where
  "raw_set t k v = (if v = LNil then filter (\<lambda>e. \<not> raw_eq (fst e) k) t else raw_put t k v)"

text \<open>An error that Lua raises leaves the C function at once.\<close>

datatype lua_error = IndexIsNil | IndexIsNaN

definition push :: "lval \<Rightarrow> lstate \<Rightarrow> lstate" where
  "push v L = L\<lparr>l_stack := l_stack L @ [v]\<rparr>"

definition lua_newtable :: "lstate \<Rightarrow> lstate" where
  "lua_newtable L =
     push (LTab (l_next L)) (L\<lparr>l_tabs := (l_tabs L)(l_next L := []), l_next := Suc (l_next L)\<rparr>)"

text \<open>The table at a stack position; a position that holds none is an invalid access.\<close>

definition table_at :: "nat \<Rightarrow> lstate \<Rightarrow> nat option" where
  "table_at pos L =
     (if 0 < pos \<and> pos \<le> length (l_stack L)
      then case l_stack L ! (pos - 1) of LTab a \<Rightarrow> Some a | _ \<Rightarrow> None else None)"

definition lua_rawseti :: "nat \<Rightarrow> nat \<Rightarrow> lstate \<Rightarrow> lstate option" where
  "lua_rawseti pos n L =
     do { a \<leftarrow> table_at pos L;
          guard_c (l_stack L \<noteq> []);
          Some (L\<lparr>l_stack := butlast (l_stack L), l_tabs := (l_tabs L)(a := raw_set (l_tabs L a) (lnum n) (last (l_stack L)))\<rparr>) }"

definition lua_rawset :: "nat \<Rightarrow> lstate \<Rightarrow> ((lua_error + unit) \<times> lstate) option" where
  "lua_rawset pos L =
     do { a \<leftarrow> table_at pos L;
          guard_c (2 \<le> length (l_stack L));
          let v = last (l_stack L);
          let k = last (butlast (l_stack L));
          let L' = L\<lparr>l_stack := butlast (butlast (l_stack L)), l_tabs := (l_tabs L)(a := raw_set (l_tabs L a) k v)\<rparr>;
          case k of LNil \<Rightarrow> Some (Inl IndexIsNil, L)
          | LNum d \<Rightarrow> if dbl_isnan d then Some (Inl IndexIsNaN, L) else Some (Inr (), L')
          | _ \<Rightarrow> Some (Inr (), L') }"

subsection \<open>From Lua to bytes\<close>

text \<open>The exceptions of the packer: a table nested too deep, and a value of a type it cannot pack.\<close>

datatype pack_error = RecursiveTable | CannotPack string

definition MAX_DEPTH :: nat where "MAX_DEPTH = 10000"

text \<open>The results of the \<open>msgpack_pack_*\<close> functions are not looked at.\<close>

definition ignoring :: "(int \<times> 's) option \<Rightarrow> ((pack_error + unit) \<times> 's) option" where
  "ignoring r = do { (ret, s) \<leftarrow> r; Some (Inr (), s) }"

definition pack_string :: "'s writer \<Rightarrow> byte list \<Rightarrow> 's \<Rightarrow> ((pack_error + unit) \<times> 's) option" where
  "pack_string pk str s =
     do { (ret, s) \<leftarrow> msgpack_pack_raw pk (of_nat (length str)) s;
          ignoring (msgpack_pack_raw_body pk str (of_nat (length str)) s) }"

primrec pack_each :: "('a \<Rightarrow> 's \<Rightarrow> ((pack_error + unit) \<times> 's) option) \<Rightarrow> 'a list \<Rightarrow> 's \<Rightarrow>
    ((pack_error + unit) \<times> 's) option" where
  "pack_each f [] s = Some (Inr (), s)"
| "pack_each f (x # xs) s =
     do { (r, s) \<leftarrow> f x s; case r of Inl e \<Rightarrow> Some (Inl e, s) | Inr _ \<Rightarrow> pack_each f xs s }"

text \<open>
  The loops of \<open>pack_array\<close> and \<open>pack_hash\<close>, over a function that packs the item at an index and
  one that packs the key and the value of an entry.
\<close>

definition pack_array :: "'s writer \<Rightarrow> nat \<Rightarrow> (nat \<Rightarrow> 's \<Rightarrow> ((pack_error + unit) \<times> 's) option) \<Rightarrow> 's \<Rightarrow>
    ((pack_error + unit) \<times> 's) option" where
  "pack_array pk sz item s =
     do { (ret, s) \<leftarrow> msgpack_pack_array pk (of_nat sz) s; pack_each item [1..<Suc sz] s }"

definition pack_hash :: "'s writer \<Rightarrow> ltable \<Rightarrow> (lval \<Rightarrow> 's \<Rightarrow> ((pack_error + unit) \<times> 's) option) \<Rightarrow>
    (lval \<Rightarrow> 's \<Rightarrow> ((pack_error + unit) \<times> 's) option) \<Rightarrow> 's \<Rightarrow> ((pack_error + unit) \<times> 's) option" where
  "pack_hash pk t pkey pval s =
     do { (ret, s) \<leftarrow> msgpack_pack_map pk (of_nat (length t)) s;
          pack_each (\<lambda>e s. do { (r, s) \<leftarrow> pkey (fst e) s; case r of Inl e \<Rightarrow> Some (Inl e, s) | Inr _ \<Rightarrow> pval (snd e) s }) t s }"

text \<open>
  \<open>ht\<close> is the height of the Lua stack and \<open>index\<close> the position of the value \<open>v\<close>, which
  bounds the nesting: an item of an array sits one above the top, the key and the value of an
  entry one and two above it. The length that \<open>luaL_getn\<close> reports is a parameter.
\<close>

function pack_lua :: "(ltable \<Rightarrow> nat) \<Rightarrow> (nat \<Rightarrow> ltable) \<Rightarrow> 's writer \<Rightarrow> nat \<Rightarrow> nat \<Rightarrow> lval \<Rightarrow> 's \<Rightarrow>
    ((pack_error + unit) \<times> 's) option" where
  "pack_lua getn H pk ht index v s =
     (if ht < index then Some (Inl (CannotPack ''no value''), s)
      else case v of
        LNum d \<Rightarrow> ignoring (msgpack_pack_double pk d s)
      | LBool b \<Rightarrow> ignoring (if b then msgpack_pack_true pk s else msgpack_pack_false pk s)
      | LStr str \<Rightarrow> pack_string pk str s
      | LNil \<Rightarrow> ignoring (msgpack_pack_nil pk s)
      | LTab a \<Rightarrow>
          (if MAX_DEPTH < index then Some (Inl RecursiveTable, s)
           else
             let sz = getn (H a) in
             if 0 < sz then
               pack_array pk sz (\<lambda>i s. pack_lua getn H pk (ht + 1) (ht + 1) (raw_get (H a) (lnum i)) s) s
             else
               pack_hash pk (H a) (\<lambda>k s. pack_lua getn H pk (ht + 2) (ht + 1) k s)
                 (\<lambda>w s. pack_lua getn H pk (ht + 2) (ht + 2) w s) s)
      | LOther ty \<Rightarrow> Some (Inl (CannotPack ty), s))"
  by pat_completeness auto
termination
  by (relation "measure (\<lambda>(getn, H, pk, ht, index, v, s). Suc MAX_DEPTH - index)") auto

declare pack_lua.simps [simp del]

text \<open>
  \<open>msgpack_lua_to_bin\<close>: the values above \<open>skip_index\<close>. The memory of the buffer and of the packer
  comes from the heap; neither allocation is checked, so a failed one has no normal return.
\<close>

definition msgpack_packer_new :: "heap \<Rightarrow> ptr \<times> heap" where
  "msgpack_packer_new h = calloc_c 16 h"

definition pack_args :: "(ltable \<Rightarrow> nat) \<Rightarrow> (nat \<Rightarrow> ltable) \<Rightarrow> 's writer \<Rightarrow> lval list \<Rightarrow> nat \<Rightarrow> 's \<Rightarrow>
    ((pack_error + unit) \<times> 's) option" where
  "pack_args getn H pk stack skip s =
     (let top = length stack; rtop = int top - int skip in
      if rtop = 0 then ignoring (msgpack_pack_nil pk s)
      else if rtop = 1 then pack_lua getn H pk top (1 + skip) (stack ! skip) s
      else do { (ret, s) \<leftarrow> msgpack_pack_array pk (word_of_int rtop) s;
                pack_each (\<lambda>i s. pack_lua getn H pk top (i + skip) (stack ! (i + skip - 1)) s) [1..<Suc (nat rtop)] s })"

definition msgpack_lua_to_bin :: "(ltable \<Rightarrow> nat) \<Rightarrow> (nat \<Rightarrow> ltable) \<Rightarrow> lval list \<Rightarrow> nat \<Rightarrow> heap \<Rightarrow>
    ((pack_error + (ptr \<times> msgpack_sbuffer)) \<times> heap) option" where
  "msgpack_lua_to_bin getn H stack skip h =
     do { let (buffer, h) = msgpack_sbuffer_new h;
          (p, sb) \<leftarrow> buffer;
          let sb = msgpack_sbuffer_init;
          let (pk, h) = msgpack_packer_new h;
          guard_c (pk \<noteq> Null);
          (r, sb, h) \<leftarrow> pack_args getn H msgpack_sbuffer_write stack skip (sb, h);
          h \<leftarrow> free_c pk h;
          case r of Inl e \<Rightarrow> do { h \<leftarrow> msgpack_sbuffer_free (Some (p, sb)) h; Some (Inl e, h) }
          | Inr _ \<Rightarrow> Some (Inr (p, sb), h) }"

subsection \<open>From bytes to Lua\<close>

text \<open>
  \<open>unpack_object\<close> returns how many values it has pushed. The loops of its array and map cases are
  the mutually recursive functions; the results of the inner calls are not looked at.
\<close>

fun unpack_object :: "mobj \<Rightarrow> bool \<Rightarrow> lstate \<Rightarrow> ((lua_error + nat) \<times> lstate) option"
  and unpack_args :: "mobj list \<Rightarrow> lstate \<Rightarrow> ((lua_error + unit) \<times> lstate) option"
  and unpack_items :: "mobj list \<Rightarrow> nat \<Rightarrow> nat \<Rightarrow> lstate \<Rightarrow> ((lua_error + unit) \<times> lstate) option"
  and unpack_kvs :: "mobj_kv list \<Rightarrow> nat \<Rightarrow> lstate \<Rightarrow> ((lua_error + unit) \<times> lstate) option" where
  "unpack_object MNil args L = Some (Inr 1, push LNil L)"
| "unpack_object (MBool b) args L = Some (Inr 1, push (LBool b) L)"
| "unpack_object (MPosInt n) args L = Some (Inr 1, push (LNum (dbl_of_u64 n)) L)"
| "unpack_object (MNegInt n) args L = Some (Inr 1, push (LNum (dbl_of_i64 n)) L)"
| "unpack_object (MDouble d) args L = Some (Inr 1, push (LNum d) L)"
| "unpack_object (MRaw r) args L = Some (Inr 1, push (LStr r) L)"
| "unpack_object (MArray xs) args L =
     (if args then do { (r, L) \<leftarrow> unpack_args xs L; Some (map_sum id (\<lambda>_. length xs) r, L) }
      else
        let L = lua_newtable L; tbl_pos = length (l_stack L) in
        do { (r, L) \<leftarrow> unpack_items xs tbl_pos 0 L; Some (map_sum id (\<lambda>_. 1) r, L) })"
| "unpack_object (MMap kvs) args L =
     (let L = lua_newtable L; tbl_pos = length (l_stack L) in
      do { (r, L) \<leftarrow> unpack_kvs kvs tbl_pos L; Some (map_sum id (\<lambda>_. 1) r, L) })"
| "unpack_object (MOther t n) args L = Some (Inr 0, L)"
| "unpack_args [] L = Some (Inr (), L)"
| "unpack_args (x # xs) L =
     do { (r, L) \<leftarrow> unpack_object x False L; case r of Inl e \<Rightarrow> Some (Inl e, L) | Inr _ \<Rightarrow> unpack_args xs L }"
| "unpack_items [] pos i L = Some (Inr (), L)"
| "unpack_items (x # xs) pos i L =
     do { (r, L) \<leftarrow> unpack_object x False L;
          case r of Inl e \<Rightarrow> Some (Inl e, L)
          | Inr _ \<Rightarrow> do { L \<leftarrow> lua_rawseti pos (i + 1) L; unpack_items xs pos (i + 1) L } }"
| "unpack_kvs [] pos L = Some (Inr (), L)"
| "unpack_kvs (KV k v # kvs) pos L =
     do { (r, L) \<leftarrow> unpack_object k False L;
          case r of Inl e \<Rightarrow> Some (Inl e, L)
          | Inr _ \<Rightarrow> do {
              (r, L) \<leftarrow> unpack_object v False L;
              case r of Inl e \<Rightarrow> Some (Inl e, L)
              | Inr _ \<Rightarrow> do {
                  (r, L) \<leftarrow> lua_rawset pos L;
                  case r of Inl e \<Rightarrow> Some (Inl e, L) | Inr _ \<Rightarrow> unpack_kvs kvs pos L } } }"

text \<open>
  \<open>msgpack_bin_to_lua\<close>: \<open>ctx0\<close> and \<open>garbage\<close> are what the uninitialised context and object on the
  C stack hold. A Lua error is not a C++ exception: it passes the \<open>catch\<close>, so the zone is not
  destroyed.
\<close>

datatype unpack_error = CouldNotUnpack | LuaRaised lua_error

definition msgpack_bin_to_lua :: "template_context \<Rightarrow> mobj \<Rightarrow> byte list \<Rightarrow> lstate \<Rightarrow> heap \<Rightarrow>
    ((unpack_error + nat) \<times> lstate \<times> heap) option" where
  "msgpack_bin_to_lua ctx0 garbage data L h =
     do { (zone, h) \<leftarrow> msgpack_zone_init 512 h;
          (ret, off, obj, zone, h) \<leftarrow> msgpack_unpack ctx0 data None zone garbage h;
          zone \<leftarrow> zone;
          if ret = 0 then do { h \<leftarrow> msgpack_zone_destroy zone h; Some (Inl CouldNotUnpack, L, h) }
          else do {
            (r, L) \<leftarrow> unpack_object obj True L;
            case r of Inl e \<Rightarrow> Some (Inl (LuaRaised e), L, h)
            | Inr arg_count \<Rightarrow> do { h \<leftarrow> msgpack_zone_destroy zone h; Some (Inr arg_count, L, h) } } }"

subsection \<open>Table lengths\<close>

lemma raw_eq_lnum:
  assumes "0 < m" "m < 2 ^ 32" "0 < n" "n < 2 ^ 32"
  shows "raw_eq (lnum m) (lnum n) \<longleftrightarrow> m = n"
  using assms small_int_number [of "int m"] small_int_number [of "int n"] dbl_of_int_abs_inj [of "int m" "int n"]
  by (auto simp: raw_eq_def lnum_def dbl_eq_def)

lemma raw_eq_lnum_unique:
  assumes "0 < m" "m < 2 ^ 32" "0 < n" "n < 2 ^ 32" "raw_eq k (lnum m)" "raw_eq k (lnum n)"
  shows "m = n"
  using assms small_int_number [of "int m"] small_int_number [of "int n"] dbl_of_int_abs_inj [of "int m" "int n"]
  by (cases k) (auto simp: raw_eq_def lnum_def dbl_eq_def)

text \<open>
  What Lua promises of the length of a table: a border, an \<open>n\<close> such that \<open>t[n]\<close> is not \<open>nil\<close>
  unless \<open>n\<close> is zero, and \<open>t[n + 1]\<close> is.
\<close>

definition border_ok :: "(ltable \<Rightarrow> nat) \<Rightarrow> bool" where
  "border_ok getn \<longleftrightarrow>
     (\<forall>t. length t < 2 ^ 31 \<longrightarrow> getn t < 2 ^ 31 \<and> (0 < getn t \<longrightarrow> raw_get t (lnum (getn t)) \<noteq> LNil) \<and>
        raw_get t (lnum (getn t + 1)) = LNil)"

lemma raw_get_array:
  "0 < m \<Longrightarrow> m + length vs \<le> 2 ^ 32 \<Longrightarrow> m \<le> i \<Longrightarrow> i < 2 ^ 32 \<Longrightarrow>
   raw_get (zip (map lnum [m..<m + length vs]) vs) (lnum i) = (if i < m + length vs then vs ! (i - m) else LNil)"
proof (induction vs arbitrary: m)
  case Nil
  then show ?case by (simp add: raw_get_def)
next
  case (Cons v vs)
  have "[m..<m + length (v # vs)] = m # [Suc m..<Suc m + length vs]" by (simp add: upt_rec)
  then show ?case using Cons.IH [of "Suc m"] Cons.prems raw_eq_lnum [of m i]
    by (auto simp: raw_get_def nth_Cons' Suc_diff_Suc split: if_splits)
qed

definition array_table :: "lval list \<Rightarrow> ltable" where
  "array_table vs = zip (map lnum [1..<Suc (length vs)]) vs"

lemma array_table_get:
  assumes "length vs < 2 ^ 31" "0 < i" "i < 2 ^ 32"
  shows "raw_get (array_table vs) (lnum i) = (if i \<le> length vs then vs ! (i - 1) else LNil)"
  using raw_get_array [of 1 vs i] assms by (simp add: array_table_def less_Suc_eq_le)

lemma border_array:
  assumes "border_ok getn" "length vs < 2 ^ 31" "LNil \<notin> set vs"
  shows "getn (array_table vs) = length vs"
proof (rule ccontr)
  let ?n = "getn (array_table vs)"
  assume ne: "?n \<noteq> length vs"
  have b: "?n < 2 ^ 31" "0 < ?n \<Longrightarrow> raw_get (array_table vs) (lnum ?n) \<noteq> LNil" "raw_get (array_table vs) (lnum (?n + 1)) = LNil"
    using assms(1,2) by (simp_all add: border_ok_def array_table_def)
  show False
  proof (cases "?n < length vs")
    case True
    then have "vs ! ?n = LNil" using b(3) array_table_get [OF assms(2), of "?n + 1"] assms(2) by simp
    then show False using True assms(3) nth_mem by metis
  next
    case False
    then show False using ne b(1,2) array_table_get [OF assms(2), of ?n] by (cases "?n = 0") auto
  qed
qed

text \<open>Keys that no positive integer equals and that a table accepts.\<close>

definition key_ok :: "lval \<Rightarrow> bool" where
  "key_ok k = (case k of LBool _ \<Rightarrow> True | LStr _ \<Rightarrow> True
     | LNum d \<Rightarrow> \<not> dbl_isnan d \<and> (\<forall>n. 0 < n \<longrightarrow> n < 2 ^ 32 \<longrightarrow> \<not> raw_eq (LNum d) (lnum n)) | _ \<Rightarrow> False)"

lemma border_hash:
  assumes "border_ok getn" "length t < 2 ^ 31" "\<forall>e \<in> set t. key_ok (fst e)"
  shows "getn t = 0"
proof (rule ccontr)
  assume ne: "getn t \<noteq> 0"
  have b: "getn t < 2 ^ 31" "0 < getn t \<Longrightarrow> raw_get t (lnum (getn t)) \<noteq> LNil" using assms(1,2) by (simp_all add: border_ok_def)
  have "\<not> raw_eq (fst e) (lnum (getn t))" if "e \<in> set t" for e
    using assms(3) that ne b(1) by (cases "fst e") (auto simp: key_ok_def raw_eq_def lnum_def)
  then have "find (\<lambda>e. raw_eq (fst e) (lnum (getn t))) t = None" by (force simp: find_None_iff)
  then show False using b(2) ne by (simp add: raw_get_def)
qed

subsection \<open>Lua values and objects\<close>

text \<open>
  A Lua value and the object it stands for, over the tables \<open>T\<close>: an array is a table whose keys
  are exactly 1 to \<open>n\<close>, a map one with no integer key from 1 on. \<open>P\<close> holds of the addresses of
  all the tables involved.
\<close>

inductive lua_deep :: "(nat \<Rightarrow> bool) \<Rightarrow> (nat \<Rightarrow> ltable) \<Rightarrow> lval \<Rightarrow> mobj \<Rightarrow> bool" for P T where
  deep_nil: "lua_deep P T LNil MNil"
| deep_bool: "lua_deep P T (LBool b) (MBool b)"
| deep_num: "lua_deep P T (LNum d) (MDouble d)"
| deep_str: "length r < 2 ^ 32 \<Longrightarrow> lua_deep P T (LStr r) (MRaw r)"
| deep_array: "P a \<Longrightarrow> T a = array_table vs \<Longrightarrow> vs \<noteq> [] \<Longrightarrow> LNil \<notin> set vs \<Longrightarrow> length vs < 2 ^ 31 \<Longrightarrow>
    list_all2 (lua_deep P T) vs os \<Longrightarrow> lua_deep P T (LTab a) (MArray os)"
| deep_map: "P a \<Longrightarrow> T a = zip ks vs \<Longrightarrow> length ks = length vs \<Longrightarrow> LNil \<notin> set vs \<Longrightarrow> length vs < 2 ^ 31 \<Longrightarrow>
    list_all key_ok ks \<Longrightarrow> (\<forall>i < length ks. \<forall>j < i. \<not> raw_eq (ks ! j) (ks ! i)) \<Longrightarrow>
    list_all2 (lua_deep P T) ks (map kv_key kvs) \<Longrightarrow> list_all2 (lua_deep P T) vs (map kv_val kvs) \<Longrightarrow>
    lua_deep P T (LTab a) (MMap kvs)"

inductive_cases lua_deep_NilE: "lua_deep P T v MNil"
inductive_cases lua_deep_BoolE: "lua_deep P T v (MBool b)"
inductive_cases lua_deep_NumE: "lua_deep P T v (MDouble d)"
inductive_cases lua_deep_StrE: "lua_deep P T v (MRaw r)"
inductive_cases lua_deep_ArrayE: "lua_deep P T v (MArray os)"
inductive_cases lua_deep_MapE: "lua_deep P T v (MMap kvs)"

lemma lua_deep_frame:
  "lua_deep P T v ob \<Longrightarrow> (\<And>a. P a \<Longrightarrow> Q a \<and> T' a = T a) \<Longrightarrow> lua_deep Q T' v ob"
proof (induction rule: lua_deep.induct)
  case (deep_array a vs os)
  then have "list_all2 (lua_deep Q T') vs os" by (auto elim!: list_all2_mono)
  with deep_array show ?case by (intro lua_deep.deep_array [of Q a T' vs]) auto
next
  case (deep_map a ks vs kvs)
  then have "list_all2 (lua_deep Q T') ks (map kv_key kvs)" "list_all2 (lua_deep Q T') vs (map kv_val kvs)"
    by (auto elim!: list_all2_mono)
  with deep_map show ?case by (intro lua_deep.deep_map [of Q a T' ks vs]) auto
qed (auto intro: lua_deep.intros)

lemma lua_deep_obj_ok: "lua_deep P T v ob \<Longrightarrow> obj_ok ob"
proof (induction rule: lua_deep.induct)
  case (deep_array a vs os)
  then show ?case by (auto simp: list_all2_conv_all_nth list_all_length)
next
  case (deep_map a ks vs kvs)
  then show ?case by (auto simp: list_all2_conv_all_nth list_all_length)
qed simp_all

subsection \<open>What packing writes\<close>

text \<open>
  Packing never stops when the buffer refuses bytes: the result is the whole encoding or, when
  some write failed, something shorter. \<open>room s n\<close> says that the buffer will take \<open>n\<close> more bytes,
  in whatever pieces.
\<close>

definition packs_as :: "('s \<Rightarrow> byte list) \<Rightarrow> ('s \<Rightarrow> bool) \<Rightarrow> ('s \<Rightarrow> nat \<Rightarrow> bool) \<Rightarrow>
    ('s \<Rightarrow> ((pack_error + unit) \<times> 's) option) \<Rightarrow> byte list \<Rightarrow> bool" where
  "packs_as contents invar room f enc \<longleftrightarrow>
     (\<forall>s. invar s \<longrightarrow> (\<exists>s' bs. f s = Some (Inr (), s') \<and> invar s' \<and> contents s' = contents s @ bs \<and>
        (bs = enc \<or> length bs < length enc) \<and> (\<forall>k. room s (length enc + k) \<longrightarrow> bs = enc \<and> room s' k)))"

lemma packs_as_seq:
  assumes "packs_as c I rm f a" "packs_as c I rm g b"
  shows "packs_as c I rm (\<lambda>s. do { (r, s) \<leftarrow> f s; case r of Inl e \<Rightarrow> Some (Inl e, s) | Inr _ \<Rightarrow> g s }) (a @ b)"
  unfolding packs_as_def
proof (intro allI impI)
  fix s assume "I s"
  then obtain s1 p where 1: "f s = Some (Inr (), s1)" "I s1" "c s1 = c s @ p" "p = a \<or> length p < length a"
    "\<And>k. rm s (length a + k) \<Longrightarrow> p = a \<and> rm s1 k"
    using assms(1) unfolding packs_as_def by blast
  then obtain s2 q where 2: "g s1 = Some (Inr (), s2)" "I s2" "c s2 = c s1 @ q" "q = b \<or> length q < length b"
    "\<And>k. rm s1 (length b + k) \<Longrightarrow> q = b \<and> rm s2 k"
    using assms(2) unfolding packs_as_def by blast
  have "p @ q = a @ b \<and> rm s2 k" if "rm s (length (a @ b) + k)" for k
    using 1(5) [of "length b + k"] 2(5) [of k] that by (simp add: add.assoc)
  then show "\<exists>s' bs. (do { (r, s) \<leftarrow> f s; case r of Inl e \<Rightarrow> Some (Inl e, s) | Inr _ \<Rightarrow> g s }) = Some (Inr (), s') \<and> I s' \<and>
      c s' = c s @ bs \<and> (bs = a @ b \<or> length bs < length (a @ b)) \<and>
      (\<forall>k. rm s (length (a @ b) + k) \<longrightarrow> bs = a @ b \<and> rm s' k)"
    using 1(1-4) 2(1-4) by (intro exI [of _ s2] exI [of _ "p @ q"]) auto
qed

lemma packs_as_done: "packs_as c I rm (\<lambda>s. Some (Inr (), s)) []"
  by (simp add: packs_as_def)

lemma packs_as_each:
  "(\<And>x. x \<in> set xs \<Longrightarrow> packs_as c I rm (f x) (g x)) \<Longrightarrow> packs_as c I rm (pack_each f xs) (concat (map g xs))"
proof (induction xs)
  case Nil
  then show ?case using packs_as_done by (simp add: packs_as_def)
next
  case (Cons x xs)
  then have "packs_as c I rm (f x) (g x)" "packs_as c I rm (pack_each f xs) (concat (map g xs))" by simp_all
  from packs_as_seq [OF this] show ?case by simp
qed

lemma foldr_max_ge: "x \<in> set xs \<Longrightarrow> x \<le> foldr max xs (b :: nat)"
  by (induction xs) auto

lemma array_child: "x \<in> set xs \<Longrightarrow> size x < size (MArray xs) \<and> obj_depth x < obj_depth (MArray xs)"
  using foldr_max_ge [of "obj_depth x" "map obj_depth xs" 0] size_list_estimation' [of x xs "size x" size] by simp

lemma map_child:
  assumes "kv \<in> set kvs"
  shows "size (kv_key kv) < size (MMap kvs) \<and> size (kv_val kv) < size (MMap kvs) \<and>
    obj_depth (kv_key kv) < obj_depth (MMap kvs) \<and> obj_depth (kv_val kv) < obj_depth (MMap kvs)"
proof -
  let ?f = "\<lambda>kv. max (obj_depth (kv_key kv)) (obj_depth (kv_val kv))"
  have "?f kv \<le> foldr max (map ?f kvs) 0" using assms by (intro foldr_max_ge) auto
  then show ?thesis using size_kv_list [OF assms] by auto
qed

text \<open>A buffer that says what it has room for.\<close>

locale roomy_buffer = answering_buffer wr contents invar okay
  for wr :: "byte list \<Rightarrow> 's \<Rightarrow> (int \<times> 's) option" and contents :: "'s \<Rightarrow> byte list" and invar :: "'s \<Rightarrow> bool"
    and okay :: "int \<Rightarrow> bool" +
  fixes room :: "'s \<Rightarrow> nat \<Rightarrow> bool"
  assumes room_write: "invar s \<Longrightarrow> length bs < 2 ^ 32 \<Longrightarrow> room s (length bs + k) \<Longrightarrow> wr bs s = Some (r, s') \<Longrightarrow>
      0 \<le> r \<and> room s' k"
begin

abbreviation packs :: "('s \<Rightarrow> ((pack_error + unit) \<times> 's) option) \<Rightarrow> byte list \<Rightarrow> bool" where
  "packs \<equiv> packs_as contents invar room"

lemma packs_ignoring:
  assumes len: "length bs < 2 ^ 32"
  shows "packs (\<lambda>s. ignoring (wr bs s)) bs"
  unfolding packs_as_def
proof (intro allI impI)
  fix s assume s: "invar s"
  obtain r s' where w: "wr bs s = Some (r, s')" using write_answers [OF s len] by blast
  let ?p = "if 0 \<le> r then bs else []"
  have "contents s' = contents s @ ?p" using write_ok [OF s len w] write_fail [OF s len w] by auto
  then show "\<exists>s' p. ignoring (wr bs s) = Some (Inr (), s') \<and> invar s' \<and> contents s' = contents s @ p \<and>
      (p = bs \<or> length p < length bs) \<and> (\<forall>k. room s (length bs + k) \<longrightarrow> p = bs \<and> room s' k)"
    using w write_inv [OF s len w] room_write [OF s len _ w]
    by (intro exI [of _ s'] exI [of _ ?p]) (auto simp: ignoring_def)
qed

lemma packs_header:
  assumes "length hdr < 2 ^ 32" "packs g b"
  shows "packs (\<lambda>s. do { (ret, s) \<leftarrow> wr hdr s; g s }) (hdr @ b)"
proof -
  have "(\<lambda>s. do { (ret, s) \<leftarrow> wr hdr s; g s }) =
      (\<lambda>s. do { (r, s) \<leftarrow> ignoring (wr hdr s); case r of Inl e \<Rightarrow> Some (Inl e, s) | Inr _ \<Rightarrow> g s })"
    by (auto simp: ignoring_def Option.bind_assoc intro!: ext bind_option_cong)
  then show ?thesis using packs_as_seq [OF packs_ignoring [OF assms(1)] assms(2)] by simp
qed

lemma packs_string: "length str < 2 ^ 32 \<Longrightarrow> packs (pack_string wr str) (raw_header (length str) @ str)"
  using packs_header [OF length_headers(1) packs_ignoring, of str "length str"]
  by (simp add: pack_string_def [abs_def] pack_raw_header pack_raw_body)

lemma packs_array:
  assumes "length os < 2 ^ 32" "\<And>i. i < length os \<Longrightarrow> packs (item (Suc i)) (mp_encode (os ! i))"
  shows "packs (pack_array wr (length os) item) (mp_encode (MArray os))"
proof -
  have "packs (pack_each item [1..<Suc (length os)]) (concat (map (\<lambda>i. mp_encode (os ! (i - 1))) [1..<Suc (length os)]))"
  proof (rule packs_as_each)
    fix x assume "x \<in> set [1..<Suc (length os)]"
    then have "Suc (x - 1) = x" "x - 1 < length os" by auto
    then show "packs (item x) (mp_encode (os ! (x - 1)))" using assms(2) [of "x - 1"] by metis
  qed
  moreover have "map (\<lambda>i. mp_encode (os ! (i - 1))) [1..<Suc (length os)] = map mp_encode os"
    by (rule nth_equalityI) (simp_all del: upt_Suc)
  ultimately show ?thesis using packs_header [OF length_headers(2)] assms(1)
    by (simp add: pack_array_def [abs_def] pack_array_header del: upt_Suc)
qed

lemma packs_hash:
  assumes "length kvs < 2 ^ 32" "length t = length kvs"
    and "\<And>i. i < length kvs \<Longrightarrow> packs (pkey (fst (t ! i))) (mp_encode (kv_key (kvs ! i)))"
    and "\<And>i. i < length kvs \<Longrightarrow> packs (pval (snd (t ! i))) (mp_encode (kv_val (kvs ! i)))"
  shows "packs (pack_hash wr t pkey pval) (mp_encode (MMap kvs))"
proof -
  let ?f = "\<lambda>e s. do { (r, s) \<leftarrow> pkey (fst e) s; case r of Inl e \<Rightarrow> Some (Inl e, s) | Inr _ \<Rightarrow> pval (snd e) s }"
  let ?g = "\<lambda>kv. mp_encode (kv_key kv) @ mp_encode (kv_val kv)"
  have "packs (pack_each (\<lambda>i. ?f (t ! i)) [0..<length kvs]) (concat (map (\<lambda>i. ?g (kvs ! i)) [0..<length kvs]))"
    by (rule packs_as_each) (rule packs_as_seq; use assms(3,4) in simp)
  moreover have eq: "pack_each (\<lambda>i. f (t ! i)) xs = pack_each f (map (\<lambda>i. t ! i) xs)"
    for f :: "lval \<times> lval \<Rightarrow> 's \<Rightarrow> ((pack_error + unit) \<times> 's) option" and xs
    by (induction xs) (auto intro!: ext bind_option_cong split: sum.splits)
  moreover have "map (\<lambda>i. t ! i) [0..<length kvs] = t" using assms(2) by (metis map_nth)
  moreover have "map (\<lambda>i. ?g (kvs ! i)) [0..<length kvs] = map ?g kvs" by (rule nth_equalityI) simp_all
  ultimately have "packs (pack_each ?f t) (concat (map ?g kvs))" unfolding eq [of ?f] by simp
  then show ?thesis using packs_header [OF length_headers(3)] assms(1,2)
    by (simp add: pack_hash_def [abs_def] pack_map_header)
qed

lemma pack_lua_packs:
  assumes "lua_deep P T v ob" "border_ok getn" "index \<le> ht" "ht + 2 * obj_depth ob \<le> MAX_DEPTH"
  shows "packs (pack_lua getn T wr ht index v) (mp_encode ob)"
  using assms
proof (induction ob arbitrary: v ht index rule: measure_induct_rule [where f = size])
  case (less ob)
  from less.prems(1) show ?case
  proof cases
    case deep_nil
    then show ?thesis using packs_ignoring [of "[0xc0]"] less.prems(3)
      by (simp add: pack_lua.simps [abs_def] pack_const_bytes)
  next
    case (deep_bool b)
    then show ?thesis using packs_ignoring [of "[if b then 0xc3 else 0xc2]"] less.prems(3)
      by (cases b) (simp_all add: pack_lua.simps [abs_def] pack_const_bytes)
  next
    case (deep_num d)
    then show ?thesis using packs_ignoring [of "0xcb # be_bytes64 d"] less.prems(3)
      by (simp add: pack_lua.simps [abs_def] pack_const_bytes)
  next
    case (deep_str r)
    then show ?thesis using packs_string [of r] less.prems(3)
      by (simp add: pack_lua.simps [abs_def])
  next
    case (deep_array a vs os)
    have n: "getn (T a) = length os" "0 < length os" "length os < 2 ^ 31" "length vs = length os"
      using border_array [OF less.prems(2), of vs] deep_array list_all2_lengthD [OF deep_array(8)] by auto
    have "packs (pack_lua getn T wr (ht + 1) (ht + 1) (raw_get (T a) (lnum (Suc i)))) (mp_encode (os ! i))"
      if i: "i < length os" for i
    proof -
      have "raw_get (T a) (lnum (Suc i)) = vs ! i" using deep_array(4) i n(3,4) by (simp add: array_table_get)
      moreover have "lua_deep P T (vs ! i) (os ! i)" using deep_array(8) i n(4) by (simp add: list_all2_conv_all_nth)
      moreover have "size (os ! i) < size ob" "obj_depth (os ! i) < obj_depth ob"
        using deep_array(2) array_child [OF nth_mem [OF i]] by simp_all
      ultimately show ?thesis using less.IH [of "os ! i" "vs ! i" "ht + 1" "ht + 1"] less.prems(2,4) by simp
    qed
    then have "packs (pack_array wr (length os) (\<lambda>i. pack_lua getn T wr (ht + 1) (ht + 1) (raw_get (T a) (lnum i)))) (mp_encode ob)"
      unfolding deep_array(2) using n(3) by (intro packs_array) simp_all
    moreover have "index \<le> MAX_DEPTH" using less.prems(3,4) by simp
    ultimately show ?thesis using deep_array(1) n(1,2) less.prems(3) by (simp add: pack_lua.simps [abs_def])
  next
    case (deep_map a ks vs kvs)
    have len: "length ks = length kvs" "length vs = length kvs" "length kvs < 2 ^ 31"
      using deep_map(5,7) list_all2_lengthD [OF deep_map(10)] by auto
    have "list_all key_ok ks \<Longrightarrow> \<forall>e \<in> set (zip ks vs). key_ok (fst e)" by (auto simp: list_all_iff dest: set_zip_leftD)
    then have n: "getn (T a) = 0" using border_hash [OF less.prems(2)] deep_map(4,8) len by simp
    have child: "packs (pack_lua getn T wr (ht + 2) (ht + 1) (fst (T a ! i))) (mp_encode (kv_key (kvs ! i)))"
      "packs (pack_lua getn T wr (ht + 2) (ht + 2) (snd (T a ! i))) (mp_encode (kv_val (kvs ! i)))" if i: "i < length kvs" for i
    proof -
      have d: "lua_deep P T (ks ! i) (kv_key (kvs ! i))" "lua_deep P T (vs ! i) (kv_val (kvs ! i))"
        using deep_map(10,11) i len by (simp_all add: list_all2_conv_all_nth)
      note c = map_child [OF nth_mem [OF i]]
      show "packs (pack_lua getn T wr (ht + 2) (ht + 1) (fst (T a ! i))) (mp_encode (kv_key (kvs ! i)))"
        using less.IH [OF _ d(1) less.prems(2), of "ht + 1" "ht + 2"] c deep_map(2,4) i len less.prems(4) by simp
      show "packs (pack_lua getn T wr (ht + 2) (ht + 2) (snd (T a ! i))) (mp_encode (kv_val (kvs ! i)))"
        using less.IH [OF _ d(2) less.prems(2), of "ht + 2" "ht + 2"] c deep_map(2,4) i len less.prems(4) by simp
    qed
    have "packs (pack_hash wr (T a) (pack_lua getn T wr (ht + 2) (ht + 1)) (pack_lua getn T wr (ht + 2) (ht + 2))) (mp_encode ob)"
      unfolding deep_map(2) using child len deep_map(4) by (intro packs_hash) simp_all
    moreover have "index \<le> MAX_DEPTH" using less.prems(3,4) by simp
    ultimately show ?thesis using deep_map(1) n less.prems(3) by (simp add: pack_lua.simps [abs_def])
  qed
qed

end

subsection \<open>Unpacking makes copies\<close>

text \<open>
  \<open>copied ob v\<close>: unpacking \<open>ob\<close> pushes one value, built from fresh tables only, that stands for the
  same object as \<open>v\<close>; a key comes back as itself.
\<close>

definition copied :: "mobj \<Rightarrow> lval \<Rightarrow> bool" where
  "copied ob v \<longleftrightarrow>
     (\<forall>L. \<exists>v' L'. unpack_object ob False L = Some (Inr 1, L') \<and> l_stack L' = l_stack L @ [v'] \<and> l_next L \<le> l_next L' \<and>
        (\<forall>x < l_next L. l_tabs L' x = l_tabs L x) \<and>
        lua_deep (\<lambda>x. l_next L \<le> x \<and> x < l_next L') (l_tabs L') v' ob \<and>
        (v' = LNil \<longleftrightarrow> v = LNil) \<and> (key_ok v \<longrightarrow> v' = v))"

lemma table_at_iff: "table_at pos L = Some a \<longleftrightarrow> 0 < pos \<and> pos \<le> length (l_stack L) \<and> l_stack L ! (pos - 1) = LTab a"
  by (auto simp: table_at_def split: lval.splits)

lemma raw_put_new: "(\<And>e. e \<in> set t \<Longrightarrow> \<not> raw_eq (fst e) k) \<Longrightarrow> raw_put t k v = t @ [(k, v)]"
  by (induction t) auto

lemma array_table_snoc:
  assumes "length vs < 2 ^ 31" "v \<noteq> LNil"
  shows "raw_set (array_table vs) (lnum (length vs + 1)) v = array_table (vs @ [v])"
proof -
  have "\<not> raw_eq (fst e) (lnum (length vs + 1))" if e: "e \<in> set (array_table vs)" for e
  proof -
    obtain j where j: "j < length (array_table vs)" "array_table vs ! j = e"
      using e unfolding in_set_conv_nth by blast
    have "j < length vs" using j(1) by (simp add: array_table_def del: upt_Suc)
    then have "fst (array_table vs ! j) = lnum (Suc j)" unfolding array_table_def by (simp del: upt_Suc)
    then show ?thesis using raw_eq_lnum [of "Suc j" "length vs + 1"] assms(1) \<open>j < length vs\<close> j(2) by simp
  qed
  then have "raw_set (array_table vs) (lnum (length vs + 1)) v = array_table vs @ [(lnum (length vs + 1), v)]"
    using assms(2) by (simp add: raw_set_def raw_put_new)
  moreover have "[1..<Suc (length (vs @ [v]))] = [1..<Suc (length vs)] @ [length vs + 1]" by simp
  then have "array_table (vs @ [v]) = array_table vs @ [(lnum (length vs + 1), v)]"
    unfolding array_table_def by (simp del: upt_Suc)
  ultimately show ?thesis by simp
qed

lemma list_all2_frame:
  assumes "list_all2 (lua_deep P T) vs os" "\<And>a. P a \<Longrightarrow> Q a \<and> T' a = T a"
  shows "list_all2 (lua_deep Q T') vs os"
  using assms(1)
proof (rule list_all2_mono)
  fix v ob assume "lua_deep P T v ob"
  then show "lua_deep Q T' v ob" by (rule lua_deep_frame) (rule assms(2))
qed

text \<open>The loop that fills the table at address \<open>a\<close>.\<close>

lemma unpack_items_copied:
  assumes "list_all2 copied xs vs" "LNil \<notin> set vs"
    and "table_at pos L = Some a" "pos = length (l_stack L)" "a < l_next L" "l_tabs L a = array_table done"
    and "length done + length xs < 2 ^ 31"
    and "list_all2 (lua_deep (\<lambda>x. a < x \<and> x < l_next L) (l_tabs L)) done dos" "LNil \<notin> set done"
  shows "\<exists>L' new. unpack_items xs pos (length done) L = Some (Inr (), L') \<and> l_stack L' = l_stack L \<and> l_next L \<le> l_next L' \<and>
    (\<forall>x < l_next L. x \<noteq> a \<longrightarrow> l_tabs L' x = l_tabs L x) \<and> l_tabs L' a = array_table new \<and> LNil \<notin> set new \<and>
    list_all2 (lua_deep (\<lambda>x. a < x \<and> x < l_next L') (l_tabs L')) new (dos @ xs)"
  using assms
proof (induction xs arbitrary: vs L "done" dos)
  case Nil
  then show ?case by auto
next
  case (Cons x xs)
  obtain v vs' where vs: "vs = v # vs'" "copied x v" "list_all2 copied xs vs'" using Cons.prems(1) by (cases vs) auto
  obtain v1 L1 where u: "unpack_object x False L = Some (Inr 1, L1)" "l_stack L1 = l_stack L @ [v1]" "l_next L \<le> l_next L1"
    "\<forall>y < l_next L. l_tabs L1 y = l_tabs L y" "lua_deep (\<lambda>y. l_next L \<le> y \<and> y < l_next L1) (l_tabs L1) v1 x"
    "v1 = LNil \<longleftrightarrow> v = LNil"
    using vs(2) unfolding copied_def by blast
  have v1: "v1 \<noteq> LNil" using u(6) vs(1) Cons.prems(2) by auto
  have pos: "table_at pos L1 = Some a"
    using Cons.prems(3,4) u(2) by (auto simp: table_at_iff nth_append)
  define L2 where "L2 = L1\<lparr>l_stack := l_stack L, l_tabs := (l_tabs L1)(a := array_table (done @ [v1]))\<rparr>"
  have "l_tabs L1 a = array_table done" using u(4) Cons.prems(5,6) by simp
  moreover have "length done < 2 ^ 31" using Cons.prems(7) by simp
  ultimately have set: "lua_rawseti pos (length done + 1) L1 = Some L2"
    using pos u(2) array_table_snoc [OF _ v1, of "done"] by (simp add: lua_rawseti_def L2_def)
  have tab2: "table_at pos L2 = Some a" using Cons.prems(3,4) by (auto simp: table_at_iff L2_def)
  have d1: "list_all2 (lua_deep (\<lambda>y. a < y \<and> y < l_next L2) (l_tabs L2)) done dos"
    by (rule list_all2_frame [OF Cons.prems(8)]) (use u(3,4) in \<open>auto simp: L2_def\<close>)
  have d2: "lua_deep (\<lambda>y. a < y \<and> y < l_next L2) (l_tabs L2) v1 x"
    by (rule lua_deep_frame [OF u(5)]) (use Cons.prems(5) in \<open>auto simp: L2_def\<close>)
  have d: "list_all2 (lua_deep (\<lambda>y. a < y \<and> y < l_next L2) (l_tabs L2)) (done @ [v1]) (dos @ [x])"
    using d1 d2 by (simp add: list_all2_appendI)
  have "\<exists>L' new. unpack_items xs pos (length (done @ [v1])) L2 = Some (Inr (), L') \<and> l_stack L' = l_stack L2 \<and>
      l_next L2 \<le> l_next L' \<and> (\<forall>x < l_next L2. x \<noteq> a \<longrightarrow> l_tabs L' x = l_tabs L2 x) \<and> l_tabs L' a = array_table new \<and>
      LNil \<notin> set new \<and> list_all2 (lua_deep (\<lambda>x. a < x \<and> x < l_next L') (l_tabs L')) new ((dos @ [x]) @ xs)"
    by (rule Cons.IH [OF vs(3) _ tab2 _ _ _ _ d])
      (use Cons.prems vs(1) v1 u(3) in \<open>auto simp: L2_def\<close>)
  then obtain L' new where r: "unpack_items xs pos (Suc (length done)) L2 = Some (Inr (), L')" "l_stack L' = l_stack L2"
    "l_next L2 \<le> l_next L'" "\<forall>x < l_next L2. x \<noteq> a \<longrightarrow> l_tabs L' x = l_tabs L2 x" "l_tabs L' a = array_table new"
    "LNil \<notin> set new" "list_all2 (lua_deep (\<lambda>x. a < x \<and> x < l_next L') (l_tabs L')) new (dos @ x # xs)" by auto
  moreover have "unpack_items (x # xs) pos (length done) L = Some (Inr (), L')" using u(1) set r(1) by simp
  moreover have "\<forall>y < l_next L. y \<noteq> a \<longrightarrow> l_tabs L' y = l_tabs L y" using r(4) u(3,4) by (simp add: L2_def)
  ultimately show ?case using u(3) by (intro exI [of _ L'] exI [of _ new]) (simp add: L2_def)
qed

lemma unpack_kvs_copied:
  assumes "list_all2 copied (map kv_key kvs) ks" "list_all2 copied (map kv_val kvs) vs" "LNil \<notin> set vs" "list_all key_ok ks"
    and "table_at pos L = Some a" "pos = length (l_stack L)" "a < l_next L" "l_tabs L a = zip dks dvs"
    and "list_all2 (lua_deep (\<lambda>x. a < x \<and> x < l_next L) (l_tabs L)) dks (map kv_key dkvs)"
    and "list_all2 (lua_deep (\<lambda>x. a < x \<and> x < l_next L) (l_tabs L)) dvs (map kv_val dkvs)"
    and "length dks = length dvs" "LNil \<notin> set dvs"
    and "\<forall>i < length (dks @ ks). \<forall>j < i. \<not> raw_eq ((dks @ ks) ! j) ((dks @ ks) ! i)"
  shows "\<exists>L' new. unpack_kvs kvs pos L = Some (Inr (), L') \<and> l_stack L' = l_stack L \<and> l_next L \<le> l_next L' \<and>
    (\<forall>x < l_next L. x \<noteq> a \<longrightarrow> l_tabs L' x = l_tabs L x) \<and> l_tabs L' a = zip (dks @ ks) new \<and> LNil \<notin> set new \<and>
    length new = length (dks @ ks) \<and>
    list_all2 (lua_deep (\<lambda>x. a < x \<and> x < l_next L') (l_tabs L')) (dks @ ks) (map kv_key (dkvs @ kvs)) \<and>
    list_all2 (lua_deep (\<lambda>x. a < x \<and> x < l_next L') (l_tabs L')) new (map kv_val (dkvs @ kvs))"
  using assms
proof (induction kvs arbitrary: ks vs L dks dvs dkvs)
  case Nil
  then show ?case by auto
next
  case (Cons kv kvs)
  obtain ko vo where kv: "kv = KV ko vo" by (cases kv)
  obtain k ks' where ks: "ks = k # ks'" "copied ko k" "list_all2 copied (map kv_key kvs) ks'"
    using Cons.prems(1) kv by (cases ks) auto
  obtain v vs' where vs: "vs = v # vs'" "copied vo v" "list_all2 copied (map kv_val kvs) vs'"
    using Cons.prems(2) kv by (cases vs) auto
  have k: "key_ok k" "list_all key_ok ks'" using Cons.prems(4) ks(1) by simp_all
  obtain L1 where u1: "unpack_object ko False L = Some (Inr 1, L1)" "l_stack L1 = l_stack L @ [k]" "l_next L \<le> l_next L1"
    "\<forall>y < l_next L. l_tabs L1 y = l_tabs L y" "lua_deep (\<lambda>y. l_next L \<le> y \<and> y < l_next L1) (l_tabs L1) k ko"
    using ks(2) k(1) unfolding copied_def by blast
  obtain v2 L2 where u2: "unpack_object vo False L1 = Some (Inr 1, L2)" "l_stack L2 = l_stack L1 @ [v2]" "l_next L1 \<le> l_next L2"
    "\<forall>y < l_next L1. l_tabs L2 y = l_tabs L1 y" "lua_deep (\<lambda>y. l_next L1 \<le> y \<and> y < l_next L2) (l_tabs L2) v2 vo"
    "v2 = LNil \<longleftrightarrow> v = LNil"
    using vs(2) unfolding copied_def by blast
  have v2: "v2 \<noteq> LNil" using u2(6) vs(1) Cons.prems(3) by auto
  have pos: "table_at pos L2 = Some a"
    using Cons.prems(5,6) u1(2) u2(2) by (auto simp: table_at_iff nth_append)
  define L3 where "L3 = L2\<lparr>l_stack := l_stack L, l_tabs := (l_tabs L2)(a := zip (dks @ [k]) (dvs @ [v2]))\<rparr>"
  have fresh: "\<not> raw_eq (fst e) k" if e: "e \<in> set (zip dks dvs)" for e
  proof -
    obtain j where "j < length dks" "fst e = dks ! j" using e by (auto simp: in_set_conv_nth)
    then show ?thesis using Cons.prems(13) [rule_format, of "length dks" j] ks(1) by (simp add: nth_append)
  qed
  have "l_tabs L2 a = zip dks dvs" using u1(3,4) u2(4) Cons.prems(7,8) by simp
  then have "raw_set (l_tabs L2 a) k v2 = zip (dks @ [k]) (dvs @ [v2])"
    using v2 raw_put_new [OF fresh] Cons.prems(11) by (simp add: raw_set_def)
  then have set: "lua_rawset pos L2 = Some (Inr (), L3)"
    using pos u1(2) u2(2) k(1)
    by (cases k) (auto simp: lua_rawset_def L3_def Let_def key_ok_def butlast_append)
  have tab3: "table_at pos L3 = Some a" using Cons.prems(5,6) by (auto simp: table_at_iff L3_def)
  let ?Q = "\<lambda>y. a < y \<and> y < l_next L3"
  have fr: "list_all2 (lua_deep ?Q (l_tabs L3)) ws obs"
    if "list_all2 (lua_deep (\<lambda>x. a < x \<and> x < l_next L) (l_tabs L)) ws obs" for ws obs
    by (rule list_all2_frame [OF that]) (use u1(3,4) u2(3,4) in \<open>auto simp: L3_def\<close>)
  have dk: "lua_deep ?Q (l_tabs L3) k ko"
    by (rule lua_deep_frame [OF u1(5)]) (use Cons.prems(7) u2(3,4) in \<open>auto simp: L3_def\<close>)
  have dv: "lua_deep ?Q (l_tabs L3) v2 vo"
    by (rule lua_deep_frame [OF u2(5)]) (use Cons.prems(7) u1(3) in \<open>auto simp: L3_def\<close>)
  have "\<exists>L' new. unpack_kvs kvs pos L3 = Some (Inr (), L') \<and> l_stack L' = l_stack L3 \<and> l_next L3 \<le> l_next L' \<and>
      (\<forall>x < l_next L3. x \<noteq> a \<longrightarrow> l_tabs L' x = l_tabs L3 x) \<and> l_tabs L' a = zip ((dks @ [k]) @ ks') new \<and> LNil \<notin> set new \<and>
      length new = length ((dks @ [k]) @ ks') \<and>
      list_all2 (lua_deep (\<lambda>x. a < x \<and> x < l_next L') (l_tabs L')) ((dks @ [k]) @ ks') (map kv_key ((dkvs @ [kv]) @ kvs)) \<and>
      list_all2 (lua_deep (\<lambda>x. a < x \<and> x < l_next L') (l_tabs L')) new (map kv_val ((dkvs @ [kv]) @ kvs))"
  proof (rule Cons.IH [where dks = "dks @ [k]" and dvs = "dvs @ [v2]" and dkvs = "dkvs @ [kv]", OF ks(3) vs(3) _ k(2) tab3])
    show "list_all2 (lua_deep ?Q (l_tabs L3)) (dks @ [k]) (map kv_key (dkvs @ [kv]))"
      using fr [OF Cons.prems(9)] dk kv by (simp add: list_all2_appendI)
    show "list_all2 (lua_deep ?Q (l_tabs L3)) (dvs @ [v2]) (map kv_val (dkvs @ [kv]))"
      using fr [OF Cons.prems(10)] dv kv by (simp add: list_all2_appendI)
    show "\<forall>i < length ((dks @ [k]) @ ks'). \<forall>j < i. \<not> raw_eq (((dks @ [k]) @ ks') ! j) (((dks @ [k]) @ ks') ! i)"
      using Cons.prems(13) ks(1) by simp
  qed (use Cons.prems vs(1) v2 u1(3) u2(3) in \<open>auto simp: L3_def\<close>)
  then obtain L' new where r: "unpack_kvs kvs pos L3 = Some (Inr (), L')" "l_stack L' = l_stack L3" "l_next L3 \<le> l_next L'"
    "\<forall>x < l_next L3. x \<noteq> a \<longrightarrow> l_tabs L' x = l_tabs L3 x" "l_tabs L' a = zip (dks @ ks) new" "LNil \<notin> set new"
    "length new = length (dks @ ks)"
    "list_all2 (lua_deep (\<lambda>x. a < x \<and> x < l_next L') (l_tabs L')) (dks @ ks) (map kv_key (dkvs @ kv # kvs))"
    "list_all2 (lua_deep (\<lambda>x. a < x \<and> x < l_next L') (l_tabs L')) new (map kv_val (dkvs @ kv # kvs))" using ks(1) by auto
  moreover have "unpack_kvs (kv # kvs) pos L = Some (Inr (), L')" using u1(1) u2(1) set r(1) kv by simp
  moreover have "\<forall>y < l_next L. y \<noteq> a \<longrightarrow> l_tabs L' y = l_tabs L y" using r(4) u1(3,4) u2(3,4) by (simp add: L3_def)
  ultimately show ?case using u1(3) u2(3) by (intro exI [of _ L'] exI [of _ new]) (simp add: L3_def)
qed

lemma lua_newtable_at:
  "table_at (length (l_stack (lua_newtable L))) (lua_newtable L) = Some (l_next L)"
  "l_stack (lua_newtable L) = l_stack L @ [LTab (l_next L)]" "l_next (lua_newtable L) = Suc (l_next L)"
  "l_tabs (lua_newtable L) (l_next L) = []" "x < l_next L \<Longrightarrow> l_tabs (lua_newtable L) x = l_tabs L x"
  by (simp_all add: lua_newtable_def push_def table_at_iff)

lemma lua_deep_copied: "lua_deep P T v ob \<Longrightarrow> copied ob v"
proof (induction rule: lua_deep.induct)
  case (deep_array a vs os)
  have len: "length os < 2 ^ 31" "length vs = length os" using deep_array(5,6) list_all2_lengthD by fastforce+
  have kids: "list_all2 copied os vs" using deep_array(6) by (auto simp: list_all2_conv_all_nth)
  show ?case unfolding copied_def
  proof
    fix L
    let ?N = "lua_newtable L"
    have "\<exists>L' new. unpack_items os (length (l_stack ?N)) (length ([] :: lval list)) ?N = Some (Inr (), L') \<and>
        l_stack L' = l_stack ?N \<and> l_next ?N \<le> l_next L' \<and>
        (\<forall>x < l_next ?N. x \<noteq> l_next L \<longrightarrow> l_tabs L' x = l_tabs ?N x) \<and> l_tabs L' (l_next L) = array_table new \<and>
        LNil \<notin> set new \<and>
        list_all2 (lua_deep (\<lambda>x. l_next L < x \<and> x < l_next L') (l_tabs L')) new ([] @ os)"
      by (rule unpack_items_copied [OF kids deep_array(4) lua_newtable_at(1)])
        (use len in \<open>simp_all add: lua_newtable_at array_table_def\<close>)
    then obtain L' new where r: "unpack_items os (length (l_stack ?N)) 0 ?N = Some (Inr (), L')"
      "l_stack L' = l_stack L @ [LTab (l_next L)]" "Suc (l_next L) \<le> l_next L'"
      "\<forall>x < l_next L. l_tabs L' x = l_tabs L x" "l_tabs L' (l_next L) = array_table new" "LNil \<notin> set new"
      "list_all2 (lua_deep (\<lambda>x. l_next L < x \<and> x < l_next L') (l_tabs L')) new os"
      by (auto simp: lua_newtable_at)
    let ?P = "\<lambda>x. l_next L \<le> x \<and> x < l_next L'"
    have "list_all2 (lua_deep ?P (l_tabs L')) new os" by (rule list_all2_frame [OF r(7)]) auto
    moreover have "length new = length os" using r(7) list_all2_lengthD by blast
    ultimately have "lua_deep ?P (l_tabs L') (LTab (l_next L)) (MArray os)"
      using r(3,5,6) len deep_array(3) by (intro lua_deep.deep_array [where vs = new]) auto
    then show "\<exists>v' L'. unpack_object (MArray os) False L = Some (Inr 1, L') \<and> l_stack L' = l_stack L @ [v'] \<and>
        l_next L \<le> l_next L' \<and> (\<forall>x < l_next L. l_tabs L' x = l_tabs L x) \<and>
        lua_deep (\<lambda>x. l_next L \<le> x \<and> x < l_next L') (l_tabs L') v' (MArray os) \<and> (v' = LNil \<longleftrightarrow> LTab a = LNil) \<and>
        (key_ok (LTab a) \<longrightarrow> v' = LTab a)"
      using r by (intro exI [of _ "LTab (l_next L)"] exI [of _ L']) (simp add: key_ok_def Let_def)
  qed
next
  case (deep_map a ks vs kvs)
  have len: "length ks = length kvs" "length vs = length kvs" "length kvs < 2 ^ 31"
    using deep_map(3,5,9) list_all2_lengthD [OF deep_map(9)] by auto
  have kids: "list_all2 copied (map kv_key kvs) ks" "list_all2 copied (map kv_val kvs) vs"
    using deep_map(8,9) by (auto simp: list_all2_conv_all_nth)
  show ?case unfolding copied_def
  proof
    fix L
    let ?N = "lua_newtable L"
    have "\<exists>L' new. unpack_kvs kvs (length (l_stack ?N)) ?N = Some (Inr (), L') \<and> l_stack L' = l_stack ?N \<and>
        l_next ?N \<le> l_next L' \<and> (\<forall>x < l_next ?N. x \<noteq> l_next L \<longrightarrow> l_tabs L' x = l_tabs ?N x) \<and>
        l_tabs L' (l_next L) = zip ([] @ ks) new \<and> LNil \<notin> set new \<and> length new = length ([] @ ks) \<and>
        list_all2 (lua_deep (\<lambda>x. l_next L < x \<and> x < l_next L') (l_tabs L')) ([] @ ks) (map kv_key ([] @ kvs)) \<and>
        list_all2 (lua_deep (\<lambda>x. l_next L < x \<and> x < l_next L') (l_tabs L')) new (map kv_val ([] @ kvs))"
      by (rule unpack_kvs_copied [where dvs = "[]", OF kids deep_map(4) deep_map(6) lua_newtable_at(1)])
        (use deep_map(7) in \<open>simp_all add: lua_newtable_at\<close>)
    then obtain L' new where r: "unpack_kvs kvs (length (l_stack ?N)) ?N = Some (Inr (), L')"
      "l_stack L' = l_stack L @ [LTab (l_next L)]" "Suc (l_next L) \<le> l_next L'"
      "\<forall>x < l_next L. l_tabs L' x = l_tabs L x" "l_tabs L' (l_next L) = zip ks new" "LNil \<notin> set new" "length new = length ks"
      "list_all2 (lua_deep (\<lambda>x. l_next L < x \<and> x < l_next L') (l_tabs L')) ks (map kv_key kvs)"
      "list_all2 (lua_deep (\<lambda>x. l_next L < x \<and> x < l_next L') (l_tabs L')) new (map kv_val kvs)"
      by (auto simp: lua_newtable_at)
    let ?P = "\<lambda>x. l_next L \<le> x \<and> x < l_next L'"
    have "list_all2 (lua_deep ?P (l_tabs L')) ks (map kv_key kvs)" by (rule list_all2_frame [OF r(8)]) auto
    moreover have "list_all2 (lua_deep ?P (l_tabs L')) new (map kv_val kvs)" by (rule list_all2_frame [OF r(9)]) auto
    ultimately have "lua_deep ?P (l_tabs L') (LTab (l_next L)) (MMap kvs)"
      using r(3,5,6,7) len deep_map(6,7) by (intro lua_deep.deep_map [where ks = ks and vs = new]) auto
    then show "\<exists>v' L'. unpack_object (MMap kvs) False L = Some (Inr 1, L') \<and> l_stack L' = l_stack L @ [v'] \<and>
        l_next L \<le> l_next L' \<and> (\<forall>x < l_next L. l_tabs L' x = l_tabs L x) \<and>
        lua_deep (\<lambda>x. l_next L \<le> x \<and> x < l_next L') (l_tabs L') v' (MMap kvs) \<and> (v' = LNil \<longleftrightarrow> LTab a = LNil) \<and>
        (key_ok (LTab a) \<longrightarrow> v' = LTab a)"
      using r by (intro exI [of _ "LTab (l_next L)"] exI [of _ L']) (simp add: key_ok_def Let_def)
  qed
qed (auto simp: copied_def push_def intro: lua_deep.intros)

text \<open>The values of an argument list are pushed one after the other.\<close>

lemma unpack_args_copied:
  "list_all2 copied obs vs \<Longrightarrow>
   \<exists>L' new. unpack_args obs L = Some (Inr (), L') \<and> l_stack L' = l_stack L @ new \<and> l_next L \<le> l_next L' \<and>
     (\<forall>x < l_next L. l_tabs L' x = l_tabs L x) \<and>
     list_all2 (lua_deep (\<lambda>x. l_next L \<le> x \<and> x < l_next L') (l_tabs L')) new obs"
proof (induction obs arbitrary: vs L)
  case Nil
  then show ?case by auto
next
  case (Cons ob obs)
  obtain v vs' where vs: "vs = v # vs'" "copied ob v" "list_all2 copied obs vs'" using Cons.prems by (cases vs) auto
  obtain v1 L1 where u: "unpack_object ob False L = Some (Inr 1, L1)" "l_stack L1 = l_stack L @ [v1]" "l_next L \<le> l_next L1"
    "\<forall>y < l_next L. l_tabs L1 y = l_tabs L y" "lua_deep (\<lambda>y. l_next L \<le> y \<and> y < l_next L1) (l_tabs L1) v1 ob"
    using vs(2) unfolding copied_def by blast
  obtain L' new where r: "unpack_args obs L1 = Some (Inr (), L')" "l_stack L' = l_stack L1 @ new" "l_next L1 \<le> l_next L'"
    "\<forall>x < l_next L1. l_tabs L' x = l_tabs L1 x"
    "list_all2 (lua_deep (\<lambda>x. l_next L1 \<le> x \<and> x < l_next L') (l_tabs L')) new obs"
    using Cons.IH [OF vs(3)] by blast
  let ?P = "\<lambda>x. l_next L \<le> x \<and> x < l_next L'"
  have "lua_deep ?P (l_tabs L') v1 ob" by (rule lua_deep_frame [OF u(5)]) (use r(3,4) in auto)
  moreover have "list_all2 (lua_deep ?P (l_tabs L')) new obs" by (rule list_all2_frame [OF r(5)]) (use u(3) in auto)
  ultimately show ?case using u(1-4) r(1-4) by (intro exI [of _ L'] exI [of _ "v1 # new"]) simp
qed

subsection \<open>Unpacking leaves the finalizers of the zone alone\<close>

definition user_fins :: "unpack_user \<Rightarrow> finalizer_array option" where
  "user_fins u = map_option z_fins (u_z u)"

lemma zone_malloc_fins: "msgpack_zone_malloc z need h = Some (p, z', h') \<Longrightarrow> z_fins z' = z_fins z"
  by (auto simp: msgpack_zone_malloc_def msgpack_zone_malloc_no_align_def msgpack_zone_malloc_expand_def
      malloc_c_def set_next_def Let_def bind_Some_iff split: if_splits option.splits)

lemma callback_fins:
  "template_callback_array u n h = Some (r, u', h') \<Longrightarrow> user_fins u' = user_fins u"
  "template_callback_map u n h = Some (r, u', h') \<Longrightarrow> user_fins u' = user_fins u"
  by (auto simp: template_callback_array_def template_callback_map_def user_malloc_def user_fins_def bind_Some_iff
      dest: zone_malloc_fins)

lemma start_container_fins:
  "start_container template_callback_array cnt ct m = Some (l, m') \<Longrightarrow> user_fins (m_user m') = user_fins (m_user m)"
  "start_container template_callback_map cnt ct m = Some (l, m') \<Longrightarrow> user_fins (m_user m') = user_fins (m_user m)"
  by (auto simp: start_container_def Let_def bind_Some_iff split: if_splits dest: callback_fins)

lemma push_fins:
  "push_value r m = Some (l, m') \<Longrightarrow> user_fins (m_user m') = user_fins (m_user m)"
  "push_variable_value data m = Some (l, m') \<Longrightarrow> user_fins (m_user m') = user_fins (m_user m)"
  "again_fixed_trail cs t m = Some (l, m') \<Longrightarrow> user_fins (m_user m') = user_fins (m_user m)"
  "again_fixed_trail_if_zero cs t l0 m = Some (l, m') \<Longrightarrow> user_fins (m_user m') = user_fins (m_user m)"
  by (auto simp: push_value_def push_variable_value_def template_callback_raw_def again_fixed_trail_def
      again_fixed_trail_if_zero_def user_fins_def Let_def bind_Some_iff split: if_splits)

lemma template_header_fins:
  "template_header data m = Some (l, m') \<Longrightarrow> user_fins (m_user m') = user_fins (m_user m)"
  by (simp add: template_header_def Let_def split: if_splits; elim push_fins start_container_fins; simp)

lemma template_trail_fins:
  assumes "template_trail data m = Some (l, m')"
  shows "user_fins (m_user m') = user_fins (m_user m)"
  using assms unfolding template_trail_def Let_def
  by (auto simp: bind_Some_iff split: if_splits dest: push_fins start_container_fins)

lemma template_push_fins:
  "template_push obj m = Some (l, m') \<Longrightarrow> m_user m' = m_user m"
  by (auto simp: template_push_def Let_def bind_Some_iff split: if_splits container_type.splits)

lemma template_step_fins:
  "template_step data l m = Some (l', m') \<Longrightarrow> user_fins (m_user m') = user_fins (m_user m)"
  by (auto simp: template_step_def Let_def split: label.splits if_splits
      dest: template_header_fins template_trail_fins push_fins template_push_fins)

lemma template_run_fins:
  assumes "template_run data l m = Some (l', m')"
  shows "user_fins (m_user m') = user_fins (m_user m)"
proof -
  have "\<forall>l' m'. r = (l', m') \<longrightarrow> user_fins (m_user m') = user_fins (m_user m)" if "template_run data l m = Some r" for r
    by (rule template_run.raw_induct [where P = "\<lambda>data l m r. \<forall>l' m'. r = (l', m') \<longrightarrow> user_fins (m_user m') = user_fins (m_user m)",
          OF _ that])
      (auto simp: bind_Some_iff split: if_splits dest: template_step_fins)
  then show ?thesis using assms by blast
qed

lemma msgpack_unpack_fins:
  assumes "msgpack_unpack ctx0 data off (Some z) res h = Some (ret, off', ob, Some z', h')"
  shows "z_fins z' = z_fins z"
  using assms
  by (auto simp: msgpack_unpack_def template_execute_def template_end_def Let_def bind_Some_iff user_fins_def
      split: if_splits label.splits dest!: template_run_fins)

subsection \<open>Receiving\<close>

lemma bin_to_lua_encoded:
  assumes "length (c_stack ctx0) = 32" "wf_heap h" "no_oom h" "obj_ok x" "obj_depth x \<le> 32"
    and "unpack_object x True L = Some (Inr n, L')"
  shows "\<exists>h'. msgpack_bin_to_lua ctx0 garbage (mp_encode x) L h = Some (Inr n, L', h')"
proof -
  have "\<exists>z h1. msgpack_zone_init 512 h = Some (Some z, h1) \<and> no_oom h1"
    using assms(3) by (simp add: zone_eval no_oom_def)
  then obtain z h1 where z: "msgpack_zone_init 512 h = Some (Some z, h1)" "no_oom h1" by blast
  then obtain bs where inv: "zone_inv h1 z bs []" and fins: "fa_items (z_fins z) = []"
    using zone_init_inv [OF z(1) assms(2)] by auto
  from inv have ok: "zone_ok h1 z bs" by (simp add: zone_inv_def)
  let ?ctx = "(template_init ctx0)\<lparr>c_user := \<lparr>u_z = Some z, u_referenced = False\<rparr>\<rparr>"
  have f: "mp_format x (mp_encode x)" using assms(4) by (rule mp_format_encode)
  have cok: "ctx_ok ?ctx h1" by (rule init_ctx_ok [OF assms(1) z(2) ok])
  have fresh: "c_top ?ctx = 0" "c_cs ?ctx = CS_HEADER" by (simp_all add: template_init_def)
  obtain ctx' h2 where ex: "template_execute ?ctx (mp_encode x) 0 h1 = Some (1, ctx', length (mp_encode x), h2)"
    "template_data ctx' = x"
    using execute_format [OF cok fresh f assms(5), of "[]" "[]"] by auto
  have "user_ok (c_user ctx') h2" using template_execute_ok [OF cok, of 0 "mp_encode x"] ex(1) by auto
  then obtain z' bs' where z': "u_z (c_user ctx') = Some z'" "zone_ok h2 z' bs'" by (auto simp: user_ok_def)
  have u: "msgpack_unpack ctx0 (mp_encode x) None (Some z) garbage h1 = Some (2, None, x, Some z', h2)"
    using ex z'(1) mp_format_not_Nil [OF f] by (simp add: msgpack_unpack_def Let_def unpack_return_defs)
  have "fa_items (z_fins z') = []" using msgpack_unpack_fins [OF u] fins by simp
  then have "zone_inv h2 z' bs' []" using z'(2) by (simp add: zone_inv_def regions_ok_def)
  from zone_destroy_inv [OF this] have "\<exists>h3. msgpack_zone_destroy z' h2 = Some h3" by blast
  then show ?thesis using z(1) u assms(6) by (auto simp: msgpack_bin_to_lua_def)
qed

subsection \<open>Sending\<close>

text \<open>The simple buffer writes to no block but its own.\<close>

definition sb_beside :: "(nat \<Rightarrow> cblock option) \<Rightarrow> msgpack_sbuffer \<times> heap \<Rightarrow> bool" where
  "sb_beside K s \<longleftrightarrow> sb_ok s \<and>
     (\<forall>k blk. K k = Some blk \<longrightarrow> blocks (snd s) k = Some blk \<and> (\<forall>off. sb_data (fst s) \<noteq> Ptr k off))"

lemma sbuffer_reserve_beside:
  assumes "sbuffer_reserve len sb h = Some (r, sb', h')" "wf_heap h" "blocks h k = Some blk" "\<forall>off. sb_data sb \<noteq> Ptr k off"
  shows "blocks h' k = Some blk \<and> (\<forall>off. sb_data sb' \<noteq> Ptr k off)"
proof -
  have "k < brk h" using assms(2,3) unfolding wf_heap_def by (metis not_less option.distinct(1))
  then show ?thesis using assms
    by (auto simp: sbuffer_reserve_def realloc_c_def malloc_c_def Let_def bind_Some_iff
        split: if_splits ptr.splits option.splits)
qed

lemma sbuffer_write_beside:
  assumes "msgpack_sbuffer_write bs s = Some (r, s')" "sb_beside K s" "length bs < 2 ^ 32"
  shows "sb_beside K s'"
proof -
  have ok: "sb_ok s" "sb_ok s'" using assms sbuffer_write_ok [of s bs] by (auto simp: sb_beside_def)
  have "blocks (snd s') k = Some blk \<and> (\<forall>off. sb_data (fst s') \<noteq> Ptr k off)" if K: "K k = Some blk" for k blk
  proof -
    have k: "blocks (snd s) k = Some blk" "\<forall>off. sb_data (fst s) \<noteq> Ptr k off" "wf_heap (snd s)"
      using K assms(2) by (cases s; auto simp: sb_beside_def)+
    obtain r1 sb1 h1 where res: "sbuffer_reserve (of_nat (length bs)) (fst s) (snd s) = Some (r1, sb1, h1)"
      using assms(1) by (auto simp: msgpack_sbuffer_write_def Let_def bind_Some_iff)
    have "blocks h1 k = Some blk" "\<forall>off. sb_data sb1 \<noteq> Ptr k off" using sbuffer_reserve_beside [OF res k(3,1,2)] by simp_all
    then show ?thesis using assms(1) res
      by (auto simp: msgpack_sbuffer_write_def store_bytes_def ptr_add_def Let_def bind_Some_iff
          split: if_splits ptr.splits option.splits)
  qed
  then show ?thesis using ok(2) by (auto simp: sb_beside_def)
qed

text \<open>An allocator that refuses only half of the address space; the buffer then takes up to 2^60 bytes.\<close>

definition generous :: "heap \<Rightarrow> bool" where
  "generous h \<longleftrightarrow> (\<forall>k n. oom h k n \<longrightarrow> 2 ^ 63 \<le> n)"

lemma generous_small: "generous h \<Longrightarrow> n < 2 ^ 63 \<Longrightarrow> \<not> oom h k n"
  unfolding generous_def by (meson not_le)

definition sb_room :: "msgpack_sbuffer \<times> heap \<Rightarrow> nat \<Rightarrow> bool" where
  "sb_room s n \<longleftrightarrow> generous (snd s) \<and> unat (sb_size (fst s)) + n < 2 ^ 60"

lemma sbuffer_reserve_room:
  assumes "sb_ok (sb, h)" "sb_room (sb, h) (unat len)" "unat len < 2 ^ 32" "sbuffer_reserve len sb h = Some (r, sb', h')"
  shows "r = 0 \<and> generous h' \<and> sb_size sb' = sb_size sb"
proof (cases "sb_alloc sb - sb_size sb < len")
  case False
  then show ?thesis using assms by (simp add: sbuffer_reserve_def sb_room_def)
next
  case True
  have g: "generous h" and small: "unat (sb_size sb) + unat len < 2 ^ 60" using assms(2) by (simp_all add: sb_room_def)
  have le: "sb_size sb \<le> sb_alloc sb" using assms(1) by (auto split: ptr.splits option.splits)
  have need: "unat (sb_size sb + len) = unat (sb_size sb) + unat len" using small by (simp add: unat_word_ariths)
  have "unat (sb_alloc sb) < unat (sb_size sb + len)"
    using True le by (simp add: word_less_nat_alt unat_sub word_le_nat_alt need)
  then have alloc: "unat (sb_alloc sb) < 2 ^ 60" using small need by simp
  then have dbl: "unat (sb_alloc sb * 2) < 2 ^ 61" using unat_double [of "sb_alloc sb"] by simp
  let ?n0 = "if sb_alloc sb \<noteq> 0 then sb_alloc sb * 2 else 8192"
  have n0: "0 < ?n0" "unat ?n0 < 2 ^ 61"
  proof -
    have "sb_alloc sb \<noteq> 0 \<Longrightarrow> 0 < unat (sb_alloc sb * 2)"
      using unat_double [of "sb_alloc sb"] alloc unat_gt_0 by fastforce
    then show "0 < ?n0" by (auto simp: word_less_nat_alt)
    show "unat ?n0 < 2 ^ 61" using dbl by simp
  qed
  obtain n where n: "double_until ?n0 (sb_size sb + len) = Some n" "n = ?n0 \<or> unat n < 2 * unat (sb_size sb + len)"
    using double_until_returns [OF n0(1), of "sb_size sb + len"] small need by auto
  have "unat n < 2 ^ 63" using n(2) n0(2) small need by auto
  then have "\<not> oom h (brk h) (unat n)" by (rule generous_small [OF g])
  moreover have "sbuffer_reserve len sb h =
     do { (tmp, h) \<leftarrow> realloc_c (sb_data sb) n h;
          if tmp = Null then Some (-1, sb, h) else Some (0, sb\<lparr>sb_data := tmp, sb_alloc := n\<rparr>, h) }"
    using True n(1) by (cases "sb_alloc sb = 0") (simp_all add: sbuffer_reserve_def MSGPACK_SBUFFER_INIT_SIZE_def)
  ultimately show ?thesis using assms(4) g
    by (auto simp: realloc_c_def malloc_c_def generous_def split: ptr.splits option.splits if_splits)
qed

lemma sbuffer_write_room:
  assumes "sb_ok s" "length bs < 2 ^ 32" "sb_room s (length bs + k)" "msgpack_sbuffer_write bs s = Some (r, s')"
  shows "0 \<le> r \<and> sb_room s' k"
proof -
  obtain sb h where s: "s = (sb, h)" by force
  let ?len = "of_nat (length bs) :: u64"
  have ul: "unat ?len = length bs" using assms(2) by (simp add: unat_of_nat_less)
  obtain r1 sb1 h1 where res: "sbuffer_reserve ?len sb h = Some (r1, sb1, h1)"
    using assms(4) s by (auto simp: msgpack_sbuffer_write_def Let_def bind_Some_iff)
  have "r1 = 0 \<and> generous h1 \<and> sb_size sb1 = sb_size sb"
    by (rule sbuffer_reserve_room [OF _ _ _ res]) (use assms s ul in \<open>simp_all add: sb_room_def\<close>)
  moreover have "unat (sb_size sb + ?len) = unat (sb_size sb) + length bs"
    using assms(3) s ul by (simp add: sb_room_def unat_word_ariths)
  ultimately show ?thesis using assms(3,4) s res
    by (auto simp: msgpack_sbuffer_write_def Let_def bind_Some_iff sb_room_def generous_def store_bytes_def
        split: if_splits ptr.splits option.splits)
qed

interpretation sbuffer_beside: roomy_buffer msgpack_sbuffer_write sb_contents "sb_beside K" "\<lambda>r. r = 0 \<or> r = -1" sb_room
proof
  fix s s' :: "msgpack_sbuffer \<times> heap" and bs :: "byte list" and r :: int and k :: nat
  assume b: "sb_beside K s" and len: "length bs < 2 ^ 32"
  then have ok: "sb_ok s" by (simp add: sb_beside_def)
  note w = sbuffer_write_ok [OF ok len]
  show "\<exists>r s'. msgpack_sbuffer_write bs s = Some (r, s') \<and> (r = 0 \<or> r = -1)" using w by blast
  show "sb_room s (length bs + k) \<Longrightarrow> msgpack_sbuffer_write bs s = Some (r, s') \<Longrightarrow> 0 \<le> r \<and> sb_room s' k"
    by (rule sbuffer_write_room [OF ok len])
  assume run: "msgpack_sbuffer_write bs s = Some (r, s')"
  show "sb_beside K s'" by (rule sbuffer_write_beside [OF run b len])
  show "0 \<le> r \<Longrightarrow> sb_contents s' = sb_contents s @ bs" using w run by auto
  show "r < 0 \<Longrightarrow> sb_contents s' = sb_contents s" using w run by auto
qed simp

text \<open>The object that a list of arguments is packed as.\<close>

fun args_object :: "mobj list \<Rightarrow> mobj" where
  "args_object [] = MNil"
| "args_object [ob] = ob"
| "args_object obs = MArray obs"

context roomy_buffer
begin

lemma pack_args_packs:
  assumes "border_ok getn" "list_all2 (lua_deep P T) vs obs" "length vs < 2 ^ 31"
    and "\<And>ob. ob \<in> set obs \<Longrightarrow> length pre + length vs + 2 * obj_depth ob \<le> MAX_DEPTH"
  shows "packs (pack_args getn T wr (pre @ vs) (length pre)) (mp_encode (args_object obs))"
proof -
  have len: "length obs = length vs" using assms(2) by (simp add: list_all2_lengthD)
  have item: "packs (pack_lua getn T wr (length pre + length vs) (Suc i + length pre) (vs ! i)) (mp_encode (obs ! i))"
    if "i < length vs" for i
    using pack_lua_packs [OF _ assms(1), of P T "vs ! i" "obs ! i" "Suc i + length pre" "length pre + length vs"]
      assms(2) assms(4) [of "obs ! i"] that len by (simp add: list_all2_conv_all_nth)
  consider "vs = []" | v where "vs = [v]" | v1 v2 vs' where "vs = v1 # v2 # vs'" by (cases vs rule: remdups_adj.cases) auto
  then show ?thesis
  proof cases
    case 1
    then show ?thesis using len packs_ignoring [of "[0xc0]"] by (simp add: pack_args_def [abs_def] pack_const_bytes)
  next
    case (2 v)
    then obtain ob where "obs = [ob]" using len by (cases obs) auto
    then show ?thesis using item [of 0] 2 by (simp add: pack_args_def [abs_def])
  next
    case (3 v1 v2 vs')
    let ?n = "length vs"
    have obs: "args_object obs = MArray obs" using 3 len by (cases obs rule: args_object.cases) auto
    have ne: "int ?n \<noteq> 0" "int ?n \<noteq> 1" using 3 by simp_all
    have r: "int (length (pre @ vs)) - int (length pre) = int ?n" by simp
    have "pack_args getn T wr (pre @ vs) (length pre) =
        pack_array wr ?n (\<lambda>i. pack_lua getn T wr (length pre + ?n) (i + length pre) ((pre @ vs) ! (i + length pre - 1)))"
      unfolding pack_args_def Let_def r using ne by (intro ext) (simp add: pack_array_def del: upt_Suc)
    moreover have "packs (pack_array wr (length obs)
        (\<lambda>i. pack_lua getn T wr (length pre + ?n) (i + length pre) ((pre @ vs) ! (i + length pre - 1)))) (mp_encode (MArray obs))"
      using assms(3) len item by (intro packs_array) (simp_all add: nth_append)
    ultimately show ?thesis using obs len by simp
  qed
qed

end

lemma sb_free_other:
  assumes "sb_ok (sb, h)" "\<forall>off. sb_data sb \<noteq> Ptr k off"
  shows "sb_ok (sb, h\<lparr>blocks := (blocks h)(k := None)\<rparr>)"
    "sb_contents (sb, h\<lparr>blocks := (blocks h)(k := None)\<rparr>) = sb_contents (sb, h)"
  using assms by (auto simp: wf_heap_def big_fails_def load_bytes_def split: ptr.splits option.splits)

lemma lua_to_bin_packs:
  assumes "wf_heap h" "big_fails h" "\<not> oom h (brk h) 24" "\<not> oom h (Suc (brk h)) 16"
    and "border_ok getn" "list_all2 (lua_deep P T) vs obs" "length vs < 2 ^ 31"
    and "\<And>ob. ob \<in> set obs \<Longrightarrow> length pre + length vs + 2 * obj_depth ob \<le> MAX_DEPTH"
  defines "enc \<equiv> mp_encode (args_object obs)"
  shows "\<exists>p sb h'. msgpack_lua_to_bin getn T (pre @ vs) (length pre) h = Some (Inr (p, sb), h') \<and> sb_ok (sb, h') \<and>
    (sb_contents (sb, h') = enc \<or> length (sb_contents (sb, h')) < length enc) \<and>
    (generous h \<longrightarrow> length enc < 2 ^ 60 \<longrightarrow> sb_contents (sb, h') = enc)"
proof -
  let ?blk1 = "\<lparr>bsize = 24, bdata = (\<lambda>i. if i < 24 then Some 0 else None), bnext = Some Null\<rparr> :: cblock"
  let ?blk2 = "\<lparr>bsize = 16, bdata = (\<lambda>i. if i < 16 then Some 0 else None), bnext = Some Null\<rparr> :: cblock"
  define h1 where "h1 = h\<lparr>blocks := (blocks h)(brk h \<mapsto> ?blk1), brk := Suc (brk h)\<rparr>"
  define h2 where "h2 = h1\<lparr>blocks := (blocks h1)(brk h1 \<mapsto> ?blk2), brk := Suc (brk h1)\<rparr>"
  define k where "k = Suc (brk h)"
  have new: "msgpack_sbuffer_new h = (Some (Ptr (brk h) 0, msgpack_sbuffer_init), h1)"
    using assms(3) by (simp add: msgpack_sbuffer_new_def calloc_c_def sizeof_sbuffer_def h1_def)
  have pk: "msgpack_packer_new h1 = (Ptr k 0, h2)"
    using assms(4) by (simp add: msgpack_packer_new_def calloc_c_def h1_def h2_def k_def)
  let ?K = "[k \<mapsto> ?blk2]" and ?s = "(msgpack_sbuffer_init, h2)"
  have beside: "sb_beside ?K ?s"
    using assms(1,2) by (auto simp: sb_beside_def msgpack_sbuffer_init_def h1_def h2_def k_def wf_heap_def big_fails_def)
  have empty: "sb_contents ?s = []" by (simp add: msgpack_sbuffer_init_def load_bytes_def)
  have "packs_as sb_contents (sb_beside ?K) sb_room
      (pack_args getn T msgpack_sbuffer_write (pre @ vs) (length pre)) enc"
    unfolding enc_def by (rule sbuffer_beside.pack_args_packs [OF assms(5-8)])
  then obtain s' bs where run: "pack_args getn T msgpack_sbuffer_write (pre @ vs) (length pre) ?s = Some (Inr (), s')"
    "sb_beside ?K s'" "sb_contents s' = bs" "bs = enc \<or> length bs < length enc"
    "\<And>j. sb_room ?s (length enc + j) \<Longrightarrow> bs = enc"
    using beside empty unfolding packs_as_def by fastforce
  obtain sb h3 where s': "s' = (sb, h3)" by force
  have b3: "sb_ok (sb, h3)" "blocks h3 k = Some ?blk2" "\<forall>off. sb_data sb \<noteq> Ptr k off"
    using run(2) s' by (auto simp: sb_beside_def)
  let ?h4 = "h3\<lparr>blocks := (blocks h3)(k := None)\<rparr>"
  have "free_c (Ptr k 0) h3 = Some ?h4" using b3(2) by (simp add: free_c_def live_def)
  then have "msgpack_lua_to_bin getn T (pre @ vs) (length pre) h = Some (Inr (Ptr (brk h) 0, sb), ?h4)"
    using new pk run(1) s' by (simp add: msgpack_lua_to_bin_def Let_def)
  moreover have "generous h \<Longrightarrow> length enc < 2 ^ 60 \<Longrightarrow> bs = enc"
    using run(5) [of 0] by (simp add: sb_room_def generous_def h1_def h2_def msgpack_sbuffer_init_def)
  ultimately show ?thesis using sb_free_other [OF b3(1,3)] run(3,4) s'
    by (intro exI [of _ "Ptr (brk h) 0"] exI [of _ sb] exI [of _ ?h4]) (simp del: sb_ok.simps sb_contents.simps)
qed

text \<open>The objects that arrive as separate values: a single array is taken apart.\<close>

fun received :: "mobj list \<Rightarrow> mobj list" where
  "received [] = [MNil]"
| "received [MArray xs] = xs"
| "received obs = obs"

lemma unpack_received:
  assumes "list_all2 (lua_deep P T) vs obs"
  shows "\<exists>L' new. unpack_object (args_object obs) True L = Some (Inr (length new), L') \<and> l_stack L' = l_stack L @ new \<and>
    (\<forall>x < l_next L. l_tabs L' x = l_tabs L x) \<and>
    list_all2 (lua_deep (\<lambda>x. l_next L \<le> x \<and> x < l_next L') (l_tabs L')) new (received obs)"
proof -
  have copies: "list_all2 copied obs vs" using assms lua_deep_copied by (auto simp: list_all2_conv_all_nth)
  have arr: "\<exists>L' new. unpack_object (MArray xs) True L = Some (Inr (length new), L') \<and> l_stack L' = l_stack L @ new \<and>
    (\<forall>x < l_next L. l_tabs L' x = l_tabs L x) \<and> list_all2 (lua_deep (\<lambda>x. l_next L \<le> x \<and> x < l_next L') (l_tabs L')) new xs"
    if c: "list_all2 copied xs ws" for xs ws
  proof -
    obtain L' new where u: "unpack_args xs L = Some (Inr (), L')" "l_stack L' = l_stack L @ new"
      "\<forall>x < l_next L. l_tabs L' x = l_tabs L x"
      "list_all2 (lua_deep (\<lambda>x. l_next L \<le> x \<and> x < l_next L') (l_tabs L')) new xs"
      using unpack_args_copied [OF c] by blast
    moreover from u(4) have "length xs = length new" by (simp add: list_all2_lengthD)
    ultimately show ?thesis by (intro exI [of _ L'] exI [of _ new]) simp
  qed
  consider "obs = []" | xs where "obs = [MArray xs]" | ob where "obs = [ob]" "\<forall>xs. ob \<noteq> MArray xs"
    | x1 x2 xs where "obs = x1 # x2 # xs"
    by (metis list.exhaust)
  then show ?thesis
  proof cases
    case 1
    then show ?thesis by (intro exI [of _ "push LNil L"] exI [of _ "[LNil]"]) (simp add: push_def deep_nil)
  next
    case (2 xs)
    then obtain a where "lua_deep P T a (MArray xs)" using assms by (auto simp: list_all2_Cons2)
    then obtain ws where "list_all2 (lua_deep P T) ws xs" by (auto elim: lua_deep_ArrayE)
    then have "list_all2 copied xs ws" using lua_deep_copied by (auto simp: list_all2_conv_all_nth)
    from arr [OF this] 2 show ?thesis by simp
  next
    case (3 ob)
    then obtain v where "copied ob v" using copies by (auto simp: list_all2_Cons1)
    then obtain v' L' where u: "unpack_object ob False L = Some (Inr 1, L')" "l_stack L' = l_stack L @ [v']"
      "\<forall>x < l_next L. l_tabs L' x = l_tabs L x" "lua_deep (\<lambda>x. l_next L \<le> x \<and> x < l_next L') (l_tabs L') v' ob"
      unfolding copied_def by blast
    have "unpack_object ob True L = unpack_object ob False L" using 3(2) by (cases ob) simp_all
    moreover have "received obs = [ob]" "args_object obs = ob" using 3 by (cases ob; simp)+
    ultimately show ?thesis using u by (intro exI [of _ L'] exI [of _ "[v']"]) simp
  next
    case (4 x1 x2 xs)
    then have "args_object obs = MArray obs" "received obs = obs" by (simp, cases x1, simp_all)
    then show ?thesis using arr [OF copies] by simp
  qed
qed

subsection \<open>Properties\<close>


text \<open>A length for the witnesses: count from 1 to the first missing key.\<close>

definition lua_length :: "ltable \<Rightarrow> nat" where
  "lua_length t = length (takeWhile (\<lambda>i. raw_get t (lnum i) \<noteq> LNil) [1..<length t + 2])"

lemma raw_get_found: "raw_get t k \<noteq> LNil \<Longrightarrow> \<exists>i < length t. raw_eq (fst (t ! i)) k"
  by (auto simp: raw_get_def find_Some_iff split: option.splits)

lemma lua_length_border: "border_ok lua_length"
  unfolding border_ok_def
proof (intro allI impI)
  fix t :: ltable assume small: "length t < 2 ^ 31"
  let ?p = "\<lambda>i. raw_get t (lnum i) \<noteq> LNil" and ?is = "[1..<length t + 2]"
  let ?n = "lua_length t"
  have nth: "?is ! i = Suc i" if "i < length t + 1" for i using that by (simp del: upt_Suc)
  have pre: "?p (Suc i)" if "i < ?n" for i
  proof -
    have "i < length ?is" using that length_takeWhile_le [of ?p ?is] by (simp add: lua_length_def)
    moreover have "?is ! i \<in> set (takeWhile ?p ?is)"
      using that takeWhile_nth [of i ?p ?is] nth_mem [of i "takeWhile ?p ?is"] by (simp add: lua_length_def)
    then have "?p (?is ! i)" by (rule set_takeWhileD [THEN conjunct2])
    ultimately show ?thesis using nth [of i] by (simp del: upt_Suc)
  qed
  have le: "?n \<le> length t"
  proof (rule ccontr)
    assume "\<not> ?n \<le> length t"
    then have all: "\<exists>j < length t. raw_eq (fst (t ! j)) (lnum (Suc i))" if "i < Suc (length t)" for i
      using pre [of i] that raw_get_found by simp
    then obtain g where g: "\<And>i. i < Suc (length t) \<Longrightarrow> g i < length t \<and> raw_eq (fst (t ! g i)) (lnum (Suc i))" by metis
    have "inj_on g {..<Suc (length t)}"
    proof (rule inj_onI)
      fix x y assume xy: "x \<in> {..<Suc (length t)}" "y \<in> {..<Suc (length t)}" "g x = g y"
      then have "raw_eq (fst (t ! g x)) (lnum (Suc x))" "raw_eq (fst (t ! g x)) (lnum (Suc y))"
        using g [of x] g [of y] by simp_all
      then have "Suc x = Suc y" using xy small by (intro raw_eq_lnum_unique) auto
      then show "x = y" by simp
    qed
    moreover have "g ` {..<Suc (length t)} \<subseteq> {..<length t}" using g by auto
    ultimately have "card {..<Suc (length t)} \<le> card {..<length t}" by (intro card_inj_on_le) auto
    then show False by simp
  qed
  have last: "raw_get t (lnum (?n + 1)) = LNil"
  proof -
    have "?n < length ?is" using le by (simp del: upt_Suc)
    then have "\<not> ?p (?is ! ?n)" unfolding lua_length_def by (rule nth_length_takeWhile)
    moreover have "?is ! ?n = ?n + 1" using nth [of ?n] le by (simp del: upt_Suc)
    ultimately show ?thesis by (simp del: upt_Suc)
  qed
  have "0 < ?n \<Longrightarrow> ?p ?n" using pre [of "?n - 1"] by simp
  then show "?n < 2 ^ 31 \<and> (0 < ?n \<longrightarrow> raw_get t (lnum ?n) \<noteq> LNil) \<and> raw_get t (lnum (?n + 1)) = LNil"
    using le small last by simp
qed

text \<open>The message \<open>"hi", {x = {true, 1.5}}\<close>.\<close>

definition sample_tabs :: "nat \<Rightarrow> ltable" where
  "sample_tabs a = (if a = 1 then [(LStr [120], LTab 2)] else if a = 2 then array_table [LBool True, LNum 0x3ff8000000000000] else [])"

definition sample_objects :: "mobj list" where
  "sample_objects = [MRaw [104, 105], MMap [KV (MRaw [120]) (MArray [MBool True, MDouble 0x3ff8000000000000])]]"

lemma sample_deep: "list_all2 (lua_deep (\<lambda>_. True) sample_tabs) [LStr [104, 105], LTab 1] sample_objects"
proof -
  have 2: "lua_deep (\<lambda>_. True) sample_tabs (LTab 2) (MArray [MBool True, MDouble 0x3ff8000000000000])"
    by (rule deep_array [where vs = "[LBool True, LNum 0x3ff8000000000000]"]) (auto simp: sample_tabs_def intro: lua_deep.intros)
  have "lua_deep (\<lambda>_. True) sample_tabs (LTab 1) (MMap [KV (MRaw [120]) (MArray [MBool True, MDouble 0x3ff8000000000000])])"
    by (rule deep_map [where ks = "[LStr [120]]" and vs = "[LTab 2]"])
      (use 2 in \<open>auto simp: sample_tabs_def key_ok_def intro: deep_str\<close>)
  then show ?thesis by (auto simp: sample_objects_def intro: deep_str)
qed

lemma roomy_heap_generous: "generous roomy_heap"
  by (simp add: generous_def roomy_heap_def init_heap_def)


interpretation list_room: roomy_buffer list_write "\<lambda>s. s" "\<lambda>s. True" "\<lambda>r. r = 0" "\<lambda>s n. True"
  by unfold_locales (simp add: list_write_def)

text \<open>
  C28: the receiver cannot tell one array of two or more items from the items sent as separate
  values: both are packed to the same bytes.
\<close>

theorem array_packs_like_arguments:
  assumes "border_ok getn" "lua_deep P T (LTab a) (MArray obs)" "T a = array_table vs" "2 \<le> length obs"
    and "length pre + length obs + 2 * obj_depth (MArray obs) \<le> MAX_DEPTH"
  shows "pack_args getn T list_write (pre @ [LTab a]) (length pre) s = Some (Inr (), s @ mp_encode (MArray obs)) \<and>
    pack_args getn T list_write (pre @ vs) (length pre) s = Some (Inr (), s @ mp_encode (MArray obs))"
proof -
  obtain ws where w: "T a = array_table ws" "length ws < 2 ^ 31" "LNil \<notin> set ws" "list_all2 (lua_deep P T) ws obs"
    using assms(2) by (auto elim: lua_deep_ArrayE)
  have "length ws = length vs"
  proof -
    have "length (array_table ws) = length (array_table vs)" using w(1) assms(3) by simp
    then show ?thesis by (simp add: array_table_def del: upt_Suc)
  qed
  then have "map snd (array_table ws) = ws" "map snd (array_table vs) = vs" by (simp_all add: array_table_def del: upt_Suc)
  then have vs: "vs = ws" using w(1) assms(3) by simp
  have len: "length obs = length vs" using w(4) vs by (simp add: list_all2_lengthD)
  have one: "args_object [MArray obs] = MArray obs" "args_object obs = MArray obs"
    using assms(4) by (simp, cases obs rule: args_object.cases) auto
  have depth: "obj_depth ob < obj_depth (MArray obs)" if "ob \<in> set obs" for ob using array_child [OF that] by simp
  have "list_room.packs (pack_args getn T list_write (pre @ [LTab a]) (length pre)) (mp_encode (args_object [MArray obs]))"
    by (rule list_room.pack_args_packs [OF assms(1), where P = P]) (use assms(2,4,5) in simp_all)
  moreover have "list_room.packs (pack_args getn T list_write (pre @ vs) (length pre)) (mp_encode (args_object obs))"
    by (rule list_room.pack_args_packs [OF assms(1), where P = P])
      (use w(2,4) vs len assms(5) depth in \<open>fastforce+\<close>)
  ultimately show ?thesis unfolding one packs_as_def by blast
qed

lemma array_packs_like_arguments_witness:
  "pack_args lua_length sample_tabs list_write ([] @ [LTab 2]) (length ([] :: lval list)) [] =
     pack_args lua_length sample_tabs list_write ([] @ [LBool True, LNum 0x3ff8000000000000]) (length ([] :: lval list)) []"
proof -
  have "lua_deep (\<lambda>_. True) sample_tabs (LTab 2) (MArray [MBool True, MDouble 0x3ff8000000000000])"
    by (rule deep_array [where vs = "[LBool True, LNum 0x3ff8000000000000]"]) (auto simp: sample_tabs_def intro: lua_deep.intros)
  from array_packs_like_arguments [OF lua_length_border this, of "[LBool True, LNum 0x3ff8000000000000]" "[]" "[]"] show ?thesis
    by (simp add: sample_tabs_def MAX_DEPTH_def)
qed

text \<open>
  C40: running out of memory while a message is packed is not reported. Once the buffer and the
  packer exist, \<open>msgpack_lua_to_bin\<close> returns normally whatever the allocator does, with the
  encoding or with something shorter.
\<close>

theorem lua_to_bin_hides_out_of_memory:
  assumes "wf_heap h" "big_fails h" "\<not> oom h (brk h) 24" "\<not> oom h (Suc (brk h)) 16"
    and "border_ok getn" "list_all2 (lua_deep P T) vs obs" "length pre + length vs + 64 \<le> MAX_DEPTH"
    and "\<forall>ob \<in> set obs. obj_depth ob \<le> 32"
  shows "\<exists>p sb h'. msgpack_lua_to_bin getn T (pre @ vs) (length pre) h = Some (Inr (p, sb), h') \<and>
    (sb_contents (sb, h') = mp_encode (args_object obs) \<or>
     length (sb_contents (sb, h')) < length (mp_encode (args_object obs)))"
proof -
  have "length vs < 2 ^ 31" using assms(7) by (simp add: MAX_DEPTH_def)
  moreover have "length pre + length vs + 2 * obj_depth ob \<le> MAX_DEPTH" if "ob \<in> set obs" for ob
    using assms(7,8) that by fastforce
  ultimately show ?thesis using lua_to_bin_packs [OF assms(1-6)] by blast
qed

definition refusing_heap :: heap where
  "refusing_heap = init_heap (\<lambda>k n. 2 ^ 63 \<le> n \<or> 2 \<le> k)"

lemma lua_to_bin_hides_out_of_memory_witness:
  "\<exists>p sb h'. msgpack_lua_to_bin lua_length sample_tabs ([] @ [LBool True]) (length ([] :: lval list)) refusing_heap = Some (Inr (p, sb), h') \<and>
    sb_size sb = 0 \<and> sb_contents (sb, h') = []"
proof -
  have ok: "wf_heap refusing_heap" "big_fails refusing_heap" "\<not> oom refusing_heap (brk refusing_heap) 24"
    "\<not> oom refusing_heap (Suc (brk refusing_heap)) 16"
    by (simp_all add: refusing_heap_def init_heap_def wf_heap_def big_fails_def)
  have "list_all2 (lua_deep (\<lambda>_. True) sample_tabs) [LBool True] [MBool True]" by (auto intro: lua_deep.intros)
  from lua_to_bin_hides_out_of_memory [OF ok lua_length_border this, of "[]"]
  obtain p sb h' where r: "msgpack_lua_to_bin lua_length sample_tabs ([] @ [LBool True]) (length ([] :: lval list)) refusing_heap = Some (Inr (p, sb), h')"
    by (auto simp: MAX_DEPTH_def)
  have "\<exists>p h'. msgpack_lua_to_bin lua_length sample_tabs ([] @ [LBool True]) (length ([] :: lval list)) refusing_heap = Some (Inr (p, msgpack_sbuffer_init), h')"
    by (simp add: msgpack_lua_to_bin_def msgpack_sbuffer_new_def calloc_c_def refusing_heap_def init_heap_def sizeof_sbuffer_def
        msgpack_packer_new_def pack_args_def pack_lua.simps ignoring_def pack_const_bytes msgpack_sbuffer_write_def
        sbuffer_reserve_def msgpack_sbuffer_init_def MSGPACK_SBUFFER_INIT_SIZE_def double_until.simps realloc_c_def malloc_c_def
        free_c_def live_def)
  with r have "sb = msgpack_sbuffer_init" by auto
  with r show ?thesis by (simp add: msgpack_sbuffer_init_def load_bytes_def)
qed



end
