(* ===== verification/ZmqSocket.thy ===== *)
theory ZmqSocket
  imports LkMsgpack Complex_Main
begin

text \<open>
  \<open>modules/zmq/include/zmq/Socket.h\<close> and \<open>Context.h\<close>: the socket class over the ZeroMQ library, which
  is a parameter (\<open>'w zmq\<close>, functions over a state \<open>'w\<close> of the outside world). Messages go through
  \<open>msgpack_lua_to_bin\<close> and \<open>msgpack_bin_to_lua\<close>. Times are rational numbers of seconds, the unit in which
  \<open>TimeRef::elapsed\<close> counts.
\<close>

subsection \<open>The library\<close>

text \<open>
  A message holds a buffer that the library releases with \<open>free_msgpack_msg\<close> when it is done with
  it, or borrows bytes it never releases. \<open>z_send\<close> gets the message with the bytes it refers to; when
  it succeeds the library has taken the message over.
\<close>

datatype zmq_msg = OwnedBuffer ptr msgpack_sbuffer | Borrowed

datatype sockopt_value = OptU64 int | OptI64 int | OptInt int | OptBytes "byte list option"

record 'w zmq =
  z_errno :: "'w \<Rightarrow> int"
  z_init :: "int \<Rightarrow> 'w \<Rightarrow> nat option \<times> 'w"
  z_term :: "nat option \<Rightarrow> 'w \<Rightarrow> 'w"
  z_socket :: "nat option \<Rightarrow> int \<Rightarrow> 'w \<Rightarrow> nat option \<times> 'w"
  z_close :: "nat \<Rightarrow> 'w \<Rightarrow> 'w"
  z_getsockopt :: "nat \<Rightarrow> int \<Rightarrow> 'w \<Rightarrow> int option \<times> 'w"
  z_setsockopt :: "nat \<Rightarrow> int \<Rightarrow> sockopt_value \<Rightarrow> 'w \<Rightarrow> bool \<times> 'w"
  z_bind :: "nat \<Rightarrow> byte list \<Rightarrow> 'w \<Rightarrow> bool \<times> 'w"
  z_connect :: "nat \<Rightarrow> byte list \<Rightarrow> 'w \<Rightarrow> bool \<times> 'w"
  z_send :: "nat \<Rightarrow> zmq_msg \<Rightarrow> byte list \<Rightarrow> int \<Rightarrow> 'w \<Rightarrow> bool \<times> 'w"
  z_recv :: "nat \<Rightarrow> int \<Rightarrow> 'w \<Rightarrow> byte list option \<times> 'w"
  z_poll :: "nat \<Rightarrow> int \<Rightarrow> 'w \<Rightarrow> int option \<times> 'w"
  z_elapsed :: "'w \<Rightarrow> rat"
  z_random :: "'w \<Rightarrow> nat \<times> 'w"

text \<open>Releasing a message that the library has not taken over.\<close>

definition zmq_msg_close :: "zmq_msg \<Rightarrow> heap \<Rightarrow> heap option" where
  "zmq_msg_close m h =
     (case m of OwnedBuffer p sb \<Rightarrow> msgpack_sbuffer_free (Some (p, sb)) h | Borrowed \<Rightarrow> Some h)"

text \<open>Error numbers, socket types and options of the library on Linux.\<close>

definition zEAGAIN :: int where "zEAGAIN = 11"
definition zEFAULT :: int where "zEFAULT = 14"
definition zENODEV :: int where "zENODEV = 19"
definition zEINVAL :: int where "zEINVAL = 22"
definition zEPROTONOSUPPORT :: int where "zEPROTONOSUPPORT = 93"
definition zENOTSUP :: int where "zENOTSUP = 95"
definition zEADDRINUSE :: int where "zEADDRINUSE = 98"
definition zEADDRNOTAVAIL :: int where "zEADDRNOTAVAIL = 99"
definition zEFSM :: int where "zEFSM = 156384712 + 51"
definition zENOCOMPATPROTO :: int where "zENOCOMPATPROTO = 156384712 + 52"
definition zETERM :: int where "zETERM = 156384712 + 53"
definition zEMTHREAD :: int where "zEMTHREAD = 156384712 + 54"

lemmas zmq_errnos = zEAGAIN_def zEFAULT_def zENODEV_def zEINVAL_def zEPROTONOSUPPORT_def zENOTSUP_def
  zEADDRINUSE_def zEADDRNOTAVAIL_def zEFSM_def zENOCOMPATPROTO_def zETERM_def zEMTHREAD_def

definition ZMQ_NOBLOCK :: int where "ZMQ_NOBLOCK = 1"
definition ZMQ_FD :: int where "ZMQ_FD = 14"
definition ZMQ_EVENTS :: int where "ZMQ_EVENTS = 15"

subsection \<open>The class\<close>

text \<open>The context object is shared by the sockets made from it.\<close>

record zcontext =
  zmq_context :: "nat option"
  zmq_context_refcount :: nat

record zmq_socket =
  zs_socket :: nat
  zs_location :: "byte list"
  zs_type :: int
  send_flags :: int

text \<open>One exception per message the class throws, with the values its text shows.\<close>

datatype zmq_error =
    InvalidSocketType int | TooManySockets | InvalidContext
  | NoDescriptor int | NoEvents int | UnknownOption int | OptionFailed int
  | UnsupportedProtocol "byte list" | IncompatibleProtocol "byte list" string | AddressInUse "byte list"
  | AddressNotLocal "byte list" | NoSuchInterface "byte list" | BindTerminated "byte list" | BindInvalid "byte list"
  | NoFreePort int int int | NoConnection "byte list" | NoPort "byte list"
  | NothingToReceive | CannotReceive string | CannotReceiveNow string
  | CannotSendNow | CannotSend string | CannotSendInState string
  | PollTerminated | PollOtherThread | PollInvalid
  | ContextTerminated | NullContext
  | PackError pack_error | UnpackError unpack_error | LuaArgument

definition zsocket_type_name :: "int \<Rightarrow> string" where
  "zsocket_type_name ty =
     (if ty = 0 then ''zmq.PAIR'' else if ty = 1 then ''zmq.PUB'' else if ty = 2 then ''zmq.SUB''
      else if ty = 3 then ''zmq.REQ'' else if ty = 4 then ''zmq.REP'' else if ty = 5 then ''zmq.XREQ''
      else if ty = 6 then ''zmq.XREP'' else if ty = 7 then ''zmq.PULL'' else if ty = 8 then ''zmq.PUSH''
      else ''???'')"

definition throw_bind_error :: "int \<Rightarrow> byte list \<Rightarrow> zmq_socket \<Rightarrow> zmq_error" where
  "throw_bind_error err loc s =
     (if err = zEPROTONOSUPPORT then UnsupportedProtocol loc
      else if err = zENOCOMPATPROTO then IncompatibleProtocol loc (zsocket_type_name (zs_type s))
      else if err = zEADDRINUSE then AddressInUse loc
      else if err = zEADDRNOTAVAIL then AddressNotLocal loc
      else if err = zENODEV then NoSuchInterface loc
      else if err = zETERM then BindTerminated loc
      else BindInvalid loc)"

definition throw_recv_error :: "int \<Rightarrow> zmq_socket \<Rightarrow> zmq_error" where
  "throw_recv_error err s =
     (if err = zEAGAIN then NothingToReceive
      else if err = zENOTSUP then CannotReceive (zsocket_type_name (zs_type s))
      else if err = zEFSM then CannotReceiveNow (zsocket_type_name (zs_type s))
      else if err = zETERM then ContextTerminated
      else NullContext)"

definition throw_poll_error :: "int \<Rightarrow> zmq_error" where
  "throw_poll_error err =
     (if err = zETERM then PollTerminated else if err = zEFAULT then PollOtherThread else PollInvalid)"

definition throw_send_error :: "int \<Rightarrow> zmq_socket \<Rightarrow> zmq_error" where
  "throw_send_error err s =
     (if err = zEAGAIN then CannotSendNow
      else if err = zENOTSUP then CannotSend (zsocket_type_name (zs_type s))
      else if err = zEFSM then CannotSendInState (zsocket_type_name (zs_type s))
      else if err = zETERM then ContextTerminated
      else NullContext)"

text \<open>
  The constructor and the destructor: the last socket terminates the context. \<open>errno\<close> is read after
  \<open>zmq_term\<close>.
\<close>

definition release_context :: "'w zmq \<Rightarrow> zcontext \<Rightarrow> 'w \<Rightarrow> zcontext \<times> 'w" where
  "release_context z c w =
     (let c = c\<lparr>zmq_context_refcount := zmq_context_refcount c - 1\<rparr> in
      if zmq_context_refcount c = 0 then (c\<lparr>zmq_context := None\<rparr>, z_term z (zmq_context c) w) else (c, w))"

definition zsocket_new :: "'w zmq \<Rightarrow> int \<Rightarrow> zcontext \<Rightarrow> 'w \<Rightarrow> (zmq_error + zmq_socket) \<times> zcontext \<times> 'w" where
  "zsocket_new z ty c w =
     (let (k, w) = (case zmq_context c of None \<Rightarrow> z_init z 1 w | Some k \<Rightarrow> (Some k, w));
          c = c\<lparr>zmq_context := k, zmq_context_refcount := zmq_context_refcount c + 1\<rparr>;
          (s, w) = z_socket z (zmq_context c) ty w in
      case s of
        None \<Rightarrow>
          let (c, w) = release_context z c w; err = z_errno z w in
          (Inl (if err = zEINVAL then InvalidSocketType ty else if err = zEMTHREAD then TooManySockets else InvalidContext), c, w)
      | Some s \<Rightarrow> (Inr \<lparr>zs_socket = s, zs_location = [], zs_type = ty, send_flags = 0\<rparr>, c, w))"

definition zsocket_delete :: "'w zmq \<Rightarrow> zmq_socket \<Rightarrow> zcontext \<Rightarrow> 'w \<Rightarrow> zcontext \<times> 'w" where
  "zsocket_delete z s c w = release_context z c (z_close z (zs_socket s) w)"

definition context_new :: zcontext where
  "context_new = \<lparr>zmq_context = None, zmq_context_refcount = 0\<rparr>"

definition zsocket_fd :: "'w zmq \<Rightarrow> zmq_socket \<Rightarrow> 'w \<Rightarrow> (zmq_error + int) \<times> 'w" where
  "zsocket_fd z s w =
     (let (r, w) = z_getsockopt z (zs_socket s) ZMQ_FD w in
      case r of None \<Rightarrow> (Inl (NoDescriptor (z_errno z w)), w) | Some fd \<Rightarrow> (Inr fd, w))"

definition zsocket_setNonBlocking :: "bool \<Rightarrow> zmq_socket \<Rightarrow> zmq_socket" where
  "zsocket_setNonBlocking non_blocking s =
     s\<lparr>send_flags := if non_blocking then send_flags s OR ZMQ_NOBLOCK else send_flags s AND NOT ZMQ_NOBLOCK\<rparr>"

definition hasEvent :: "'w zmq \<Rightarrow> int \<Rightarrow> zmq_socket \<Rightarrow> 'w \<Rightarrow> (zmq_error + bool) \<times> 'w" where
  "hasEvent z event s w =
     (let (r, w) = z_getsockopt z (zs_socket s) ZMQ_EVENTS w in
      case r of None \<Rightarrow> (Inl (NoEvents (z_errno z w)), w) | Some events \<Rightarrow> (Inr (events AND event \<noteq> 0), w))"

text \<open>
  \<open>setsockopt\<close>: the option decides which C type the number is converted to, a conversion that is
  undefined when the number does not fit. \<open>checknumber\<close> and \<open>tolstring\<close> are the conversions of the Lua
  API. When the library refuses a numeric option the exception's text reads the uninitialised \<open>str\<close>.
\<close>

definition c_convert :: "int \<Rightarrow> int \<Rightarrow> u64 \<Rightarrow> int option" where
  "c_convert lo hi d = do { i \<leftarrow> dbl_trunc d; if lo \<le> i \<and> i \<le> hi then Some i else None }"

definition set_number :: "'w zmq \<Rightarrow> (lval \<Rightarrow> u64 option) \<Rightarrow> int \<times> int \<Rightarrow> (int \<Rightarrow> sockopt_value) \<Rightarrow> int \<Rightarrow> lval \<Rightarrow>
    zmq_socket \<Rightarrow> 'w \<Rightarrow> ((zmq_error + unit) \<times> 'w) option" where
  "set_number z checknumber bds as_value type v s w =
     (case checknumber v of None \<Rightarrow> Some (Inl LuaArgument, w)
      | Some d \<Rightarrow> do {
          i \<leftarrow> c_convert (fst bds) (snd bds) d;
          let (ok, w) = z_setsockopt z (zs_socket s) type (as_value i) w;
          if ok then Some (Inr (), w) else None })"

definition setsockopt :: "'w zmq \<Rightarrow> (lval \<Rightarrow> u64 option) \<Rightarrow> (lval \<Rightarrow> byte list option) \<Rightarrow> int \<Rightarrow> lval \<Rightarrow> zmq_socket \<Rightarrow> 'w \<Rightarrow>
    ((zmq_error + unit) \<times> 'w) option" where
  "setsockopt z checknumber tolstring type v s w =
     (if type \<in> {1, 11, 12} then set_number z checknumber (0, 2 ^ 64 - 1) OptU64 type v s w
      else if type \<in> {3, 8, 9, 20, 10} then set_number z checknumber (- (2 ^ 63), 2 ^ 63 - 1) OptI64 type v s w
      else if type \<in> {17, 18, 21} then set_number z checknumber (- (2 ^ 31), 2 ^ 31 - 1) OptInt type v s w
      else if type \<in> {6, 7} then
        let (ok, w) = z_setsockopt z (zs_socket s) type (OptBytes (tolstring v)) w in
        Some (if ok then (Inr (), w) else (Inl (OptionFailed type), w))
      else Some (Inl (UnknownOption type), w))"

subsection \<open>Binding and connecting\<close>

text \<open>
  The port is drawn with arithmetic on \<open>float\<close>: \<open>round24\<close> rounds to 24 significant bits, to nearest,
  ties to even. \<open>RAND_MAX\<close> becomes 2^31, and scaling by a power of two does not round.
\<close>

definition round24 :: "int \<Rightarrow> int" where
  "round24 n =
     (if n < 0 then - (let k = log2_int (- n) in if k \<le> 23 then - n else round_half_even (- n) (2 ^ (k - 23)) * 2 ^ (k - 23))
      else let k = log2_int n in if k \<le> 23 then n else round_half_even n (2 ^ (k - 23)) * 2 ^ (k - 23))"

definition random_port :: "int \<Rightarrow> int \<Rightarrow> nat \<Rightarrow> int" where
  "random_port min_port max_port rnd =
     (let q = round24 (int rnd);
          d = round24 (round24 (max_port - min_port) * q);
          p = round24 (round24 min_port * 2 ^ 31 + d)
      in if 0 \<le> p then p div 2 ^ 31 else - (- p div 2 ^ 31))"

definition printf_int :: "int \<Rightarrow> byte list" where
  "printf_int i = (if i < 0 then 45 # digits_of (- i) else digits_of i)"

definition port_location :: "int \<Rightarrow> byte list" where
  "port_location port = take 49 (ascii ''tcp://*:'' @ printf_int port)"

primrec bind_retries :: "'w zmq \<Rightarrow> int \<Rightarrow> int \<Rightarrow> int \<Rightarrow> nat \<Rightarrow> zmq_socket \<Rightarrow> 'w \<Rightarrow> (zmq_error + int) \<times> zmq_socket \<times> 'w" where
  "bind_retries z min_port max_port retries 0 s w = (Inl (NoFreePort min_port max_port retries), s, w)"
| "bind_retries z min_port max_port retries (Suc n) s w =
     (let (rnd, w) = z_random z w;
          port = random_port min_port max_port rnd;
          buffer = port_location port;
          (ok, w) = z_bind z (zs_socket s) buffer w in
      if ok then (Inr port, s\<lparr>zs_location := buffer\<rparr>, w)
      else if z_errno z w \<noteq> zEADDRINUSE then (Inl (throw_bind_error (z_errno z w) [42] s), s, w)
      else bind_retries z min_port max_port retries n s w)"

definition bind_random :: "'w zmq \<Rightarrow> int \<Rightarrow> int \<Rightarrow> int \<Rightarrow> zmq_socket \<Rightarrow> 'w \<Rightarrow> (zmq_error + int) \<times> zmq_socket \<times> 'w" where
  "bind_random z min_port max_port retries s w = bind_retries z min_port max_port retries (nat retries) s w"

definition zsocket_bind :: "'w zmq \<Rightarrow> byte list \<Rightarrow> zmq_socket \<Rightarrow> 'w \<Rightarrow> (zmq_error + unit) \<times> zmq_socket \<times> 'w" where
  "zsocket_bind z loc s w =
     (let (ok, w) = z_bind z (zs_socket s) loc w in
      if ok then (Inr (), s\<lparr>zs_location := loc\<rparr>, w) else (Inl (throw_bind_error (z_errno z w) loc s), s, w))"

definition zsocket_connect :: "'w zmq \<Rightarrow> byte list \<Rightarrow> zmq_socket \<Rightarrow> 'w \<Rightarrow> (zmq_error + unit) \<times> zmq_socket \<times> 'w" where
  "zsocket_connect z loc s w =
     (let (ok, w) = z_connect z (zs_socket s) loc w in
      if ok then (Inr (), s\<lparr>zs_location := loc\<rparr>, w) else (Inl (NoConnection loc), s, w))"

text \<open>\<open>atoi\<close>, undefined when the value does not fit an \<open>int\<close>.\<close>

fun atoi_digits :: "int \<Rightarrow> byte list \<Rightarrow> int" where
  "atoi_digits acc [] = acc"
| "atoi_digits acc (c # cs) = (if 48 \<le> c \<and> c \<le> 57 then atoi_digits (acc * 10 + uint c - 48) cs else acc)"

definition atoi :: "byte list \<Rightarrow> int option" where
  "atoi str =
     (let cs = dropWhile (\<lambda>c. c = 32 \<or> 9 \<le> c \<and> c \<le> 13) str;
          neg = (cs \<noteq> [] \<and> hd cs = 45);
          i = atoi_digits 0 (if cs \<noteq> [] \<and> (hd cs = 45 \<or> hd cs = 43) then tl cs else cs);
          r = (if neg then - i else i)
      in if - (2 ^ 31) \<le> r \<and> r < 2 ^ 31 then Some r else None)"

text \<open>The text after the last colon of the location.\<close>

definition zsocket_port :: "zmq_socket \<Rightarrow> (zmq_error + int) option" where
  "zsocket_port s =
     (if 58 \<in> set (zs_location s)
      then map_option Inr (atoi (rev (takeWhile (\<lambda>c. c \<noteq> 58) (rev (zs_location s)))))
      else Some (Inl (NoPort (zs_location s))))"

subsection \<open>Messages\<close>

definition zsocket_recv :: "'w zmq \<Rightarrow> template_context \<Rightarrow> mobj \<Rightarrow> zmq_socket \<Rightarrow> lstate \<Rightarrow> 'w \<times> heap \<Rightarrow>
    ((zmq_error + nat) \<times> lstate \<times> 'w \<times> heap) option" where
  "zsocket_recv z ctx0 garbage s L wh =
     (let (w, h) = wh; (msg, w) = z_recv z (zs_socket s) ZMQ_NOBLOCK w in
      case msg of None \<Rightarrow> Some (Inl (throw_recv_error (z_errno z w) s), L, w, h)
      | Some bytes \<Rightarrow> do {
          (r, L, h) \<leftarrow> msgpack_bin_to_lua ctx0 garbage bytes L h;
          Some (map_sum UnpackError id r, L, w, h) })"

text \<open>Sending a message that is in the hands of the caller: false when the library would block.\<close>

definition send_msg :: "'w zmq \<Rightarrow> zmq_msg \<Rightarrow> byte list \<Rightarrow> zmq_socket \<Rightarrow> 'w \<times> heap \<Rightarrow> ((zmq_error + bool) \<times> 'w \<times> heap) option" where
  "send_msg z msg bytes s wh =
     (let (w, h) = wh; (ok, w) = z_send z (zs_socket s) msg bytes (send_flags s) w in
      if ok then Some (Inr True, w, h)
      else do {
        h \<leftarrow> zmq_msg_close msg h;
        Some (if z_errno z w = zEAGAIN then Inr False else Inl (throw_send_error (z_errno z w) s), w, h) })"

definition zsocket_send :: "'w zmq \<Rightarrow> (ltable \<Rightarrow> nat) \<Rightarrow> zmq_socket \<Rightarrow> lstate \<Rightarrow> 'w \<times> heap \<Rightarrow>
    ((zmq_error + bool) \<times> 'w \<times> heap) option" where
  "zsocket_send z getn s L wh =
     do { let (w, h) = wh;
          (r, h) \<leftarrow> msgpack_lua_to_bin getn (l_tabs L) (l_stack L) 1 h;
          case r of Inl e \<Rightarrow> Some (Inl (PackError e), w, h)
          | Inr (p, sb) \<Rightarrow> send_msg z (OwnedBuffer p sb) (sb_contents (sb, h)) s (w, h) }"

text \<open>\<open>rawSend\<close> hands the library the bytes of the Lua string on top of the stack, without a copy.\<close>

definition rawSend :: "'w zmq \<Rightarrow> (lval \<Rightarrow> byte list option) \<Rightarrow> zmq_socket \<Rightarrow> lstate \<Rightarrow> 'w \<times> heap \<Rightarrow>
    ((zmq_error + bool) \<times> 'w \<times> heap) option" where
  "rawSend z tolstring s L wh =
     do { guard_c (l_stack L \<noteq> []);
          bytes \<leftarrow> tolstring (last (l_stack L));
          send_msg z Borrowed bytes s wh }"

text \<open>
  \<open>request\<close>: sends, then polls until something arrives or the time is over. \<open>total_timeout\<close> is in
  microseconds, as \<open>zmq_poll\<close> wants it; the times it is compared with are in seconds.
\<close>

definition TOTAL_TIMEOUT :: int where "TOTAL_TIMEOUT = 200000"

definition rat_trunc :: "rat \<Rightarrow> int" where
  "rat_trunc r = (if 0 \<le> r then \<lfloor>r\<rfloor> else \<lceil>r\<rceil>)"

partial_function (option) request_loop :: "'w zmq \<Rightarrow> zmq_socket \<Rightarrow> rat \<Rightarrow> int \<Rightarrow> 'w \<Rightarrow>
    ((zmq_error + byte list option) \<times> 'w) option" where
  "request_loop z s start timeout w =
     (let (revents, w) = z_poll z (zs_socket s) timeout w in
      case revents of None \<Rightarrow> Some (Inl (throw_poll_error (z_errno z w)), w)
      | Some revents \<Rightarrow>
          if revents = 0 then
            let now = z_elapsed z w in
            if start + of_int (TOTAL_TIMEOUT div 1000) \<le> now then Some (Inr None, w)
            else request_loop z s start (rat_trunc (of_int TOTAL_TIMEOUT - (now - start))) w
          else
            let (msg, w) = z_recv z (zs_socket s) 0 w in
            case msg of None \<Rightarrow> Some (Inl (throw_recv_error (z_errno z w) s), w)
            | Some bytes \<Rightarrow> Some (Inr (Some bytes), w))"

definition zsocket_request :: "'w zmq \<Rightarrow> (ltable \<Rightarrow> nat) \<Rightarrow> template_context \<Rightarrow> mobj \<Rightarrow> zmq_socket \<Rightarrow> lstate \<Rightarrow> 'w \<times> heap \<Rightarrow>
    ((zmq_error + nat) \<times> lstate \<times> 'w \<times> heap) option" where
  "zsocket_request z getn ctx0 garbage s L wh =
     do { let (w, h) = wh;
          (r, h) \<leftarrow> msgpack_lua_to_bin getn (l_tabs L) (l_stack L) 1 h;
          case r of Inl e \<Rightarrow> Some (Inl (PackError e), L, w, h)
          | Inr (p, sb) \<Rightarrow>
              let msg = OwnedBuffer p sb;
                  (ok, w) = z_send z (zs_socket s) msg (sb_contents (sb, h)) (send_flags s) w in
              if \<not> ok then do { h \<leftarrow> zmq_msg_close msg h; Some (Inl (throw_send_error (z_errno z w) s), L, w, h) }
              else do {
                (r, w) \<leftarrow> request_loop z s (z_elapsed z w) TOTAL_TIMEOUT w;
                case r of Inl e \<Rightarrow> Some (Inl e, L, w, h)
                | Inr None \<Rightarrow> Some (Inr 1, push LNil L, w, h)
                | Inr (Some bytes) \<Rightarrow> do {
                    (r, L, h) \<leftarrow> msgpack_bin_to_lua ctx0 garbage bytes L h;
                    Some (map_sum UnpackError id r, L, w, h) } } }"

subsection \<open>The random port\<close>

lemma int_le_div_iff: "0 < (d :: int) \<Longrightarrow> b \<le> n div d \<longleftrightarrow> b * d \<le> n"
proof -
  assume d: "0 < d"
  have n: "n div d * d + n mod d = n" "0 \<le> n mod d" "n mod d < d" using d by simp_all
  have "n < (n div d + 1) * d" using n unfolding distrib_right by linarith
  then have "b * d \<le> n \<Longrightarrow> b < n div d + 1" using d by (meson mult_less_cancel_right_pos order_le_less_trans)
  moreover have "n div d * d \<le> n" using n(1,2) by linarith
  then have "b \<le> n div d \<Longrightarrow> b * d \<le> n" using d mult_right_mono [of b "n div d" d] by linarith
  ultimately show ?thesis by auto
qed

lemma round_half_even_le:
  assumes "0 < d" "n \<le> b * d"
  shows "round_half_even n d \<le> b"
proof (cases "n = b * d")
  case True
  then show ?thesis using assms(1) by (simp add: round_half_even_def)
next
  case False
  then have "n < b * d" using assms(2) by simp
  then have "n div d < b" using int_le_div_iff [OF assms(1), of b n] by simp
  then show ?thesis by (simp add: round_half_even_def Let_def)
qed

lemma round_half_even_ge:
  assumes "0 < d" "b * d \<le> n"
  shows "b \<le> round_half_even n d"
proof -
  have "b \<le> n div d" using assms by (simp add: int_le_div_iff)
  then show ?thesis by (simp add: round_half_even_def Let_def)
qed

text \<open>Rounding stays on the side of a number that 24 significant bits can hold.\<close>

lemma round24_le:
  assumes "0 \<le> n" "n \<le> b" "b = m * 2 ^ j" "b < 2 ^ (j + 24)"
  shows "round24 n \<le> b"
proof (cases "log2_int n \<le> 23 \<or> n = 0")
  case True
  then show ?thesis using assms(1,2) by (auto simp: round24_def log2_int.simps [of 0])
next
  case False
  define e where "e = log2_int n - 23"
  have "log2_int n < j + 24" using False assms by (intro log2_int_less) auto
  then have e: "e \<le> j" by (simp add: e_def)
  then have b: "b = m * 2 ^ (j - e) * 2 ^ e" using assms(3) by (simp add: mult.assoc flip: power_add)
  then have "round_half_even n (2 ^ e) \<le> m * 2 ^ (j - e)" using assms(2) by (intro round_half_even_le) simp_all
  then have "round_half_even n (2 ^ e) * 2 ^ e \<le> b" using b by simp
  then show ?thesis using False assms(1) by (simp add: round24_def Let_def flip: e_def)
qed

lemma round24_ge:
  assumes "0 \<le> b" "b \<le> n" "b = m * 2 ^ j" "n < 2 ^ (j + 24)"
  shows "b \<le> round24 n"
proof (cases "log2_int n \<le> 23 \<or> n = 0")
  case True
  then show ?thesis using assms(1,2) by (auto simp: round24_def log2_int.simps [of 0])
next
  case False
  define e where "e = log2_int n - 23"
  have "log2_int n < j + 24" using False assms by (intro log2_int_less) auto
  then have e: "e \<le> j" by (simp add: e_def)
  then have b: "b = m * 2 ^ (j - e) * 2 ^ e" using assms(3) by (simp add: mult.assoc flip: power_add)
  then have "m * 2 ^ (j - e) \<le> round_half_even n (2 ^ e)" using assms(2) by (intro round_half_even_ge) simp_all
  then have "b \<le> round_half_even n (2 ^ e) * 2 ^ e" using b by simp
  then show ?thesis using False assms(1,2) by (simp add: round24_def Let_def flip: e_def)
qed

lemma round24_exact: "0 \<le> n \<Longrightarrow> n < 2 ^ 24 \<Longrightarrow> round24 n = n"
  using log2_int_less [of n 24] by (cases "n = 0") (auto simp: round24_def log2_int.simps [of 0])

lemma random_port_range:
  assumes "0 \<le> lo" "lo \<le> hi" "hi < 2 ^ 16" "rnd < 2 ^ 31"
  shows "lo \<le> random_port lo hi rnd \<and> random_port lo hi rnd \<le> hi"
proof -
  define q where "q = round24 (int rnd)"
  have "int rnd < 2 ^ 31" using assms(4) by (simp flip: of_nat_less_iff)
  then have q: "0 \<le> q" "q \<le> 2 ^ 31"
    unfolding q_def using round24_le [of "int rnd" "2 ^ 31" 1 31] round24_ge [of 0 "int rnd" 0 8] by simp_all
  define x where "x = (hi - lo) * q"
  have x: "0 \<le> x" "x \<le> (hi - lo) * 2 ^ 31"
    using q assms mult_left_mono [of q "2 ^ 31" "hi - lo"] by (simp_all add: x_def)
  define d where "d = round24 x"
  have d: "0 \<le> d" "d \<le> (hi - lo) * 2 ^ 31"
    unfolding d_def using x assms round24_le [of x "(hi - lo) * 2 ^ 31" "hi - lo" 31] round24_ge [of 0 x 0 31]
    by simp_all
  define y where "y = lo * 2 ^ 31 + d"
  have y: "lo * 2 ^ 31 \<le> y" "y \<le> hi * 2 ^ 31" using d by (simp_all add: y_def left_diff_distrib)
  have "lo * 2 ^ 31 \<le> round24 y \<and> round24 y \<le> hi * 2 ^ 31"
    using y assms round24_le [of y "hi * 2 ^ 31" hi 31] round24_ge [of "lo * 2 ^ 31" y lo 31] by simp
  moreover have "random_port lo hi rnd = (if 0 \<le> round24 y then round24 y div 2 ^ 31 else - (- round24 y div 2 ^ 31))"
    using assms by (simp add: random_port_def round24_exact q_def d_def x_def y_def)
  moreover have "\<not> hi + 1 \<le> round24 y div 2 ^ 31" if "round24 y \<le> hi * 2 ^ 31"
    using that int_le_div_iff [of "2 ^ 31" "hi + 1" "round24 y"] by simp
  ultimately show ?thesis using assms(1) by (auto simp: int_le_div_iff)
qed

text \<open>A port printed and read back.\<close>

lemma digit_byte: "0 \<le> n \<Longrightarrow> n < 10 \<Longrightarrow> uint (of_int (48 + n) :: byte) = 48 + n"
  by (simp add: unsigned_of_int take_bit_int_eq_self del: of_int_add of_int_numeral)

lemma digits_of_digits: "0 \<le> n \<Longrightarrow> c \<in> set (digits_of n) \<Longrightarrow> 48 \<le> c \<and> c \<le> 57"
proof (induction n rule: digits_of.induct)
  case (1 n)
  have d: "48 \<le> (of_int (48 + k) :: byte) \<and> (of_int (48 + k) :: byte) \<le> 57" if "0 \<le> k" "k < 10" for k
    using digit_byte [OF that] that by (simp add: word_le_def)
  show ?case
  proof (cases "n < 10")
    case True
    then show ?thesis using 1(2,3) d [of n] by (simp add: digits_of.simps [of n])
  next
    case False
    then show ?thesis using 1 d [of "n mod 10"] by (auto simp: digits_of.simps [of n])
  qed
qed

lemma atoi_digits_append:
  "(\<And>c. c \<in> set cs \<Longrightarrow> 48 \<le> c \<and> c \<le> 57) \<Longrightarrow> atoi_digits acc (cs @ ds) = atoi_digits (atoi_digits acc cs) ds"
  by (induction acc cs rule: atoi_digits.induct) auto

lemma atoi_digits_of: "0 \<le> n \<Longrightarrow> atoi_digits 0 (digits_of n) = n"
proof (induction n rule: digits_of.induct)
  case (1 n)
  have d: "atoi_digits acc [of_int (48 + k)] = acc * 10 + k" if "0 \<le> k" "k < 10" for acc k
    using digit_byte [OF that] that by (simp add: word_le_def)
  show ?case
  proof (cases "n < 10")
    case True
    then show ?thesis using 1(2) d [of n 0] by (simp add: digits_of.simps [of n])
  next
    case False
    have "0 \<le> n div 10" using 1(2) by simp
    then have "atoi_digits 0 (digits_of (n div 10) @ [of_int (48 + n mod 10)]) = n div 10 * 10 + n mod 10"
      using 1(1) [OF False] d [of "n mod 10"] digits_of_digits
      by (subst atoi_digits_append) auto
    then show ?thesis using False by (simp add: digits_of.simps [of n])
  qed
qed

lemma digits_of_not_Nil: "digits_of n \<noteq> []"
  by (simp add: digits_of.simps [of n])

lemma atoi_printf: "0 \<le> n \<Longrightarrow> n < 2 ^ 31 \<Longrightarrow> atoi (digits_of n) = Some n"
proof -
  assume n: "0 \<le> n" "n < 2 ^ 31"
  obtain c cs where ds: "digits_of n = c # cs" using digits_of_not_Nil [of n] by (cases "digits_of n") auto
  then have "48 \<le> c" using digits_of_digits [OF n(1), of c] by simp
  then have c: "c \<noteq> 32" "\<not> c \<le> 13" "c \<noteq> 45" "c \<noteq> 43" by (auto simp: word_le_def)
  then have "dropWhile (\<lambda>c. c = 32 \<or> 9 \<le> c \<and> c \<le> 13) (digits_of n) = digits_of n" by (simp add: ds)
  then show ?thesis using c ds atoi_digits_of [OF n(1)] n by (simp add: atoi_def Let_def)
qed

lemma length_digits_of: "0 \<le> n \<Longrightarrow> n < 10 ^ k \<Longrightarrow> 0 < k \<Longrightarrow> length (digits_of n) \<le> k"
proof (induction n arbitrary: k rule: digits_of.induct)
  case (1 n)
  show ?case
  proof (cases "n < 10")
    case True
    then show ?thesis using 1(4) by (simp add: digits_of.simps [of n])
  next
    case False
    then obtain j where j: "k = Suc j" "0 < j" using 1(3,4) by (cases k; cases "k - 1") auto
    then have "length (digits_of (n div 10)) \<le> j" using 1(1) [OF False, of j] 1(2,3) by simp
    then show ?thesis using False j by (simp add: digits_of.simps [of n])
  qed
qed

text \<open>
  C26: when binding to a random port succeeds, the port is in the range asked for, however \<open>random\<close> and the rounding of \<open>float\<close> fall, the library has bound the
  location of that port on all interfaces, and \<open>port\<close> reads the number back from the location.
\<close>

theorem bind_random_port:
  assumes "0 \<le> lo" "lo \<le> hi" "hi < 2 ^ 16" "\<And>w rnd w'. z_random z w = (rnd, w') \<Longrightarrow> rnd < 2 ^ 31"
    and "bind_random z lo hi retries s w = (Inr port, s', w')"
  shows "lo \<le> port \<and> port \<le> hi \<and> zsocket_port s' = Some (Inr port) \<and>
    zs_location s' = ascii ''tcp://*:'' @ digits_of port \<and>
    (\<exists>w0 w1. z_bind z (zs_socket s) (zs_location s') w0 = (True, w1) \<and> w' = w1)"
proof -
  have "\<exists>rnd w0. rnd < 2 ^ 31 \<and> port = random_port lo hi rnd \<and> s' = s\<lparr>zs_location := port_location port\<rparr> \<and>
      z_bind z (zs_socket s) (port_location port) w0 = (True, w')"
    if "bind_retries z lo hi retries n s w = (Inr port, s', w')" for n w
    using that
  proof (induction n arbitrary: w)
    case (Suc n)
    obtain rnd w1 where r: "z_random z w = (rnd, w1)" by force
    obtain ok w2 where b: "z_bind z (zs_socket s) (port_location (random_port lo hi rnd)) w1 = (ok, w2)" by force
    show ?case
    proof (cases ok)
      case True
      then show ?thesis using Suc.prems r b assms(4) [OF r]
        by (intro exI [of _ rnd] exI [of _ w1]) (auto simp: Let_def)
    next
      case False
      then show ?thesis using Suc.prems Suc.IH [of w2] r b by (auto simp: Let_def split: if_splits)
    qed
  qed simp
  then obtain rnd w0 where r: "rnd < 2 ^ 31" "port = random_port lo hi rnd" "s' = s\<lparr>zs_location := port_location port\<rparr>"
    "z_bind z (zs_socket s) (port_location port) w0 = (True, w')"
    using assms(5) unfolding bind_random_def by blast
  have range: "lo \<le> port" "port \<le> hi" using random_port_range [OF assms(1-3) r(1)] r(2) by simp_all
  let ?ds = "digits_of port"
  have ds: "length ?ds \<le> 5" using range assms(1,3) by (intro length_digits_of) auto
  have loc: "port_location port = ascii ''tcp://*:'' @ ?ds"
    using range assms(1) ds by (simp add: port_location_def printf_int_def ascii_def)
  have "58 \<notin> set ?ds" using digits_of_digits [of port 58] range assms(1) by (auto simp: word_le_def)
  then have "takeWhile (\<lambda>c. c \<noteq> 58) (rev (port_location port)) = rev ?ds"
    using takeWhile_append2 [of "rev ?ds" "\<lambda>c. c \<noteq> 58" "rev (ascii ''tcp://*:'')"] by (auto simp: loc ascii_def)
  moreover have "58 \<in> set (port_location port)" by (simp add: loc ascii_def)
  ultimately have "zsocket_port s' = Some (Inr port)"
    using r(3) atoi_printf [of port] range assms(1,3) by (simp add: zsocket_port_def)
  then show ?thesis using range r(3,4) loc by auto
qed

text \<open>
  A world for the witnesses: the clock in seconds and the messages on their way. Polling an empty
  socket waits for the time it is given.
\<close>

record sim_world =
  sim_clock :: rat
  sim_queue :: "byte list list"
  sim_contexts :: "nat list"
  sim_sockets :: "nat list"

definition fresh_nat :: "nat list \<Rightarrow> nat" where
  "fresh_nat xs = Suc (fold max xs 0)"

definition sim_zmq :: "sim_world zmq" where
  "sim_zmq = \<lparr>z_errno = (\<lambda>w. zEAGAIN),
     z_init = (\<lambda>n w. (Some (fresh_nat (sim_contexts w)), w\<lparr>sim_contexts := fresh_nat (sim_contexts w) # sim_contexts w\<rparr>)),
     z_term = (\<lambda>k w. case k of None \<Rightarrow> w | Some k \<Rightarrow> w\<lparr>sim_contexts := removeAll k (sim_contexts w)\<rparr>),
     z_socket = (\<lambda>k ty w. if k = None \<or> ty \<notin> {0..8} then (None, w)
        else (Some (fresh_nat (sim_sockets w)), w\<lparr>sim_sockets := fresh_nat (sim_sockets w) # sim_sockets w\<rparr>)),
     z_close = (\<lambda>s w. w\<lparr>sim_sockets := removeAll s (sim_sockets w)\<rparr>),
     z_getsockopt = (\<lambda>s opt w. (Some 0, w)), z_setsockopt = (\<lambda>s opt v w. (True, w)),
     z_bind = (\<lambda>s loc w. (True, w)), z_connect = (\<lambda>s loc w. (True, w)),
     z_send = (\<lambda>s m bs fl w. (True, w)),
     z_recv = (\<lambda>s fl w. case sim_queue w of [] \<Rightarrow> (None, w) | m # q \<Rightarrow> (Some m, w\<lparr>sim_queue := q\<rparr>)),
     z_poll = (\<lambda>s t w. if sim_queue w = [] then (Some 0, w\<lparr>sim_clock := sim_clock w + of_int t / 10 ^ 6\<rparr>) else (Some 1, w)),
     z_elapsed = sim_clock, z_random = (\<lambda>w. (2 ^ 31 - 1, w))\<rparr>"

lemma sim_calls:
  "z_bind sim_zmq s loc w = (True, w)" "z_random sim_zmq w = (2 ^ 31 - 1, w)" "z_send sim_zmq s m bs fl w = (True, w)"
  "z_elapsed sim_zmq w = sim_clock w" "z_errno sim_zmq w = zEAGAIN"
  "sim_queue w = [] \<Longrightarrow> z_poll sim_zmq s t w = (Some 0, w\<lparr>sim_clock := sim_clock w + of_int t / 10 ^ 6\<rparr>)"
  by (simp_all add: sim_zmq_def)

definition sim_start :: sim_world where
  "sim_start = \<lparr>sim_clock = 0, sim_queue = [], sim_contexts = [], sim_sockets = []\<rparr>"

definition sim_socket :: zmq_socket where
  "sim_socket = \<lparr>zs_socket = 1, zs_location = [], zs_type = 3, send_flags = 0\<rparr>"

lemma bind_random_port_witness:
  "\<exists>port s' w'. bind_random sim_zmq 2000 20000 100 sim_socket sim_start = (Inr port, s', w') \<and>
     2000 \<le> port \<and> port \<le> 20000 \<and> zsocket_port s' = Some (Inr port)"
proof -
  have n: "nat 100 = Suc 99" by simp
  have "\<exists>port s' w'. bind_random sim_zmq 2000 20000 100 sim_socket sim_start = (Inr port, s', w')"
    unfolding bind_random_def n bind_retries.simps by (simp add: sim_calls Let_def)
  then obtain port s' w' where r: "bind_random sim_zmq 2000 20000 100 sim_socket sim_start = (Inr port, s', w')" by blast
  have rnd: "rnd < 2 ^ 31" if "z_random sim_zmq w = (rnd, w')" for w rnd w' using that by (simp add: sim_zmq_def)
  from bind_random_port [OF _ _ _ rnd r] r show ?thesis by auto
qed

subsection \<open>Life of the context\<close>

text \<open>
  What the library promises about contexts and sockets: \<open>alive\<close> are the contexts between \<open>zmq_init\<close>
  and \<open>zmq_term\<close>, \<open>opened\<close> the sockets between \<open>zmq_socket\<close> and \<open>zmq_close\<close>.
\<close>

locale zmq_library =
  fixes z :: "'w zmq" and alive opened :: "'w \<Rightarrow> nat set"
  assumes init_some: "z_init z n w = (Some k, w') \<Longrightarrow> k \<notin> alive w \<and> alive w' = insert k (alive w) \<and> opened w' = opened w"
    and init_none: "z_init z n w = (None, w') \<Longrightarrow> alive w' = alive w \<and> opened w' = opened w"
    and socket_some: "z_socket z ctx ty w = (Some s, w') \<Longrightarrow>
      ctx \<noteq> None \<and> s \<notin> opened w \<and> alive w' = alive w \<and> opened w' = insert s (opened w)"
    and socket_none: "z_socket z ctx ty w = (None, w') \<Longrightarrow> alive w' = alive w \<and> opened w' = opened w"
    and close_keeps: "alive (z_close z s w) = alive w \<and> opened (z_close z s w) = opened w - {s}"
    and term_some: "alive (z_term z (Some k) w) = alive w - {k} \<and> opened (z_term z (Some k) w) = opened w"
    and term_none: "alive (z_term z None w) = alive w \<and> opened (z_term z None w) = opened w"

text \<open>A client makes sockets and deletes the ones it has.\<close>

datatype client_op = NewSocket int | DeleteSocket nat

type_synonym 'w client = "zmq_socket list \<times> zcontext \<times> 'w"

fun socket_op :: "'w zmq \<Rightarrow> client_op \<Rightarrow> 'w client \<Rightarrow> 'w client" where
  "socket_op z (NewSocket ty) (ss, c, w) =
     (let (r, c, w) = zsocket_new z ty c w in (case r of Inl e \<Rightarrow> ss | Inr s \<Rightarrow> s # ss, c, w))"
| "socket_op z (DeleteSocket i) (ss, c, w) =
     (if i < length ss
      then let (c, w) = zsocket_delete z (ss ! i) c w in (take i ss @ drop (Suc i) ss, c, w)
      else (ss, c, w))"

context zmq_library
begin

definition client_ok :: "nat set \<Rightarrow> nat set \<Rightarrow> 'w client \<Rightarrow> bool" where
  "client_ok A S cl \<longleftrightarrow>
     (let (ss, c, w) = cl; ks = map zs_socket ss in
      zmq_context_refcount c = length ss \<and> distinct ks \<and> set ks \<inter> S = {} \<and> opened w = S \<union> set ks \<and>
      (case zmq_context c of None \<Rightarrow> ss = [] \<and> alive w = A
       | Some k \<Rightarrow> ss \<noteq> [] \<and> k \<notin> A \<and> alive w = insert k A))"

lemma zsocket_new_ok:
  assumes "client_ok A S (ss, c, w)"
  shows "client_ok A S (socket_op z (NewSocket ty) (ss, c, w))"
proof -
  obtain k w1 where k: "(case zmq_context c of None \<Rightarrow> z_init z 1 w | Some k \<Rightarrow> (Some k, w)) = (k, w1)" by force
  have 1: "opened w1 = opened w \<and> alive w1 = (case k of None \<Rightarrow> A | Some k \<Rightarrow> insert k A) \<and>
    (case k of None \<Rightarrow> ss = [] | Some j \<Rightarrow> j \<notin> A)"
  proof (cases "zmq_context c")
    case None
    then have i: "z_init z 1 w = (k, w1)" "ss = []" "alive w = A" using k assms by (simp_all add: client_ok_def)
    then show ?thesis using init_none [of 1 w w1] init_some [of 1 w "the k" w1] by (cases k) simp_all
  next
    case (Some j)
    then have "k = Some j" "w1 = w" using k by simp_all
    then show ?thesis using Some assms by (simp add: client_ok_def)
  qed
  obtain s w2 where s: "z_socket z k ty w1 = (s, w2)" by force
  show ?thesis
  proof (cases s)
    case None
    then show ?thesis using assms k s 1 socket_none [of k ty w1 w2] term_none [of w2] term_some [of _ w2]
      by (auto simp: client_ok_def zsocket_new_def release_context_def Let_def split: option.splits)
  next
    case (Some sk)
    then show ?thesis using assms k s 1 socket_some [of k ty w1 sk w2]
      by (auto simp: client_ok_def zsocket_new_def Let_def split: option.splits)
  qed
qed

lemma socket_delete_ok:
  assumes "client_ok A S (ss, c, w)"
  shows "client_ok A S (socket_op z (DeleteSocket i) (ss, c, w))"
proof (cases "i < length ss")
  case True
  then obtain xs y ys where ss: "ss = xs @ y # ys" "length xs = i" by (metis id_take_nth_drop length_take min.absorb4)
  then have cut: "ss ! i = y" "take i ss = xs" "drop (Suc i) ss = ys" by auto
  obtain k where k: "zmq_context c = Some k" using assms ss by (auto simp: client_ok_def split: option.splits)
  show ?thesis using assms k cut True ss close_keeps [of "zs_socket y" w] term_some [of k "z_close z (zs_socket y) w"]
    by (auto simp: client_ok_def zsocket_delete_def release_context_def Let_def)
next
  case False
  then show ?thesis using assms by simp
qed

lemma client_ops_ok: "client_ok A S cl \<Longrightarrow> client_ok A S (fold (socket_op z) ops cl)"
proof (induction ops arbitrary: cl)
  case (Cons op ops)
  then show ?case using zsocket_new_ok socket_delete_ok by (cases op; cases cl) simp_all
qed simp

end

lemma fold_max_ge_nat: "(a :: nat) \<le> fold max w a \<and> (\<forall>x \<in> set w. x \<le> fold max w a)"
  by (induction w arbitrary: a) (auto, (meson max.bounded_iff order_trans)+)

lemma fresh_nat_fresh: "fresh_nat xs \<notin> set xs"
  using fold_max_ge_nat [of 0 xs] by (auto simp: fresh_nat_def)

interpretation sim_library: zmq_library sim_zmq "\<lambda>w. set (sim_contexts w)" "\<lambda>w. set (sim_sockets w)"
  by unfold_locales (auto simp: sim_zmq_def fresh_nat_fresh split: if_splits)



subsection \<open>Waiting for a reply\<close>

lemma request_loop_times_out:
  fixes z :: "'w zmq" and quiet :: "'w \<Rightarrow> bool" and \<delta> :: rat
  assumes "0 < \<delta>"
    and poll: "\<And>w t. quiet w \<Longrightarrow> 0 < t \<Longrightarrow> \<exists>w'. z_poll z (zs_socket s) t w = (Some 0, w') \<and> quiet w' \<and>
      z_elapsed z w + \<delta> \<le> z_elapsed z w' \<and> z_elapsed z w' \<le> z_elapsed z w + of_int t / 10 ^ 6"
    and "quiet w" "start \<le> z_elapsed z w" "z_elapsed z w < start + 200" "0 < timeout" "timeout \<le> 200000"
    and "start + 200 - z_elapsed z w \<le> of_nat n * \<delta>"
  shows "\<exists>w'. request_loop z s start timeout w = Some (Inr None, w') \<and>
    start + 200 \<le> z_elapsed z w' \<and> z_elapsed z w' \<le> start + 200 + 1 / 5"
  using assms(3-8)
proof (induction n arbitrary: w timeout)
  case 0
  then show ?case by simp
next
  case (Suc n)
  let ?el = "z_elapsed z"
  obtain w1 where p: "z_poll z (zs_socket s) timeout w = (Some 0, w1)" "quiet w1"
    "?el w + \<delta> \<le> ?el w1" "?el w1 \<le> ?el w + of_int timeout / 10 ^ 6"
    using poll [OF Suc.prems(1,4)] by blast
  have "of_int timeout \<le> (200000 :: rat)" using Suc.prems(5) of_int_le_iff [where 'a = rat, of timeout 200000] by simp
  then have short: "of_int timeout / 10 ^ 6 \<le> (1 / 5 :: rat)" by simp
  show ?case
  proof (cases "start + 200 \<le> ?el w1")
    case True
    then have "request_loop z s start timeout w = Some (Inr None, w1)"
      using p(1) by (subst request_loop.simps) (simp add: TOTAL_TIMEOUT_def Let_def)
    then show ?thesis using True p(4) Suc.prems(3) short by auto
  next
    case False
    define waited where "waited = ?el w1 - start"
    define t where "t = rat_trunc (of_int TOTAL_TIMEOUT - waited)"
    have "0 \<le> waited" "waited < 200" using False p(3) Suc.prems(2) assms(1) by (simp_all add: waited_def)
    then have "0 < t" "t \<le> 200000" by (simp_all add: t_def rat_trunc_def TOTAL_TIMEOUT_def less_floor_iff floor_le_iff)
    moreover have "start + 200 - ?el w1 \<le> of_nat n * \<delta>" using Suc.prems(6) p(3) by (simp add: algebra_simps)
    moreover have "request_loop z s start timeout w = request_loop z s start t w1"
      using p(1) False by (subst request_loop.simps) (simp add: TOTAL_TIMEOUT_def Let_def t_def waited_def)
    ultimately show ?thesis using Suc.IH [OF p(2), of t] False p(3) Suc.prems(2) assms(1) by simp
  qed
qed

text \<open>
  C21: a request that gets no reply ends, with \<open>nil\<close>, after 200 seconds and at most a fifth of a
  second more. \<open>poll\<close> describes a silent peer: every poll returns without an event, some time
  after it was called and not later than its timeout.
\<close>

theorem request_times_out_after_200_seconds:
  fixes z :: "'w zmq" and quiet :: "'w \<Rightarrow> bool" and \<delta> :: rat
  assumes "0 < \<delta>"
    and "\<forall>w t. quiet w \<longrightarrow> 0 < t \<longrightarrow> (\<exists>w'. z_poll z (zs_socket s) t w = (Some 0, w') \<and> quiet w' \<and>
      z_elapsed z w + \<delta> \<le> z_elapsed z w' \<and> z_elapsed z w' \<le> z_elapsed z w + of_int t / 10 ^ 6)"
    and "msgpack_lua_to_bin getn (l_tabs L) (l_stack L) 1 h = Some (Inr (p, sb), h')"
    and "z_send z (zs_socket s) (OwnedBuffer p sb) (sb_contents (sb, h')) (send_flags s) w = (True, w1)" "quiet w1"
  shows "\<exists>w2. zsocket_request z getn ctx0 garbage s L (w, h) = Some (Inr 1, push LNil L, w2, h') \<and>
    z_elapsed z w1 + 200 \<le> z_elapsed z w2 \<and> z_elapsed z w2 \<le> z_elapsed z w1 + 200 + 1 / 5"
proof -
  obtain n where "200 / \<delta> < of_nat n" using reals_Archimedean2 by blast
  then have "200 \<le> of_nat n * \<delta>" using assms(1) by (simp add: field_simps)
  then obtain w2 where "request_loop z s (z_elapsed z w1) TOTAL_TIMEOUT w1 = Some (Inr None, w2)"
    "z_elapsed z w1 + 200 \<le> z_elapsed z w2" "z_elapsed z w2 \<le> z_elapsed z w1 + 200 + 1 / 5"
    using request_loop_times_out [of \<delta> quiet z s w1 "z_elapsed z w1" TOTAL_TIMEOUT n] assms(1,2,5)
    by (auto simp: TOTAL_TIMEOUT_def)
  then show ?thesis using assms(3,4) by (simp add: zsocket_request_def Let_def)
qed

lemma request_times_out_after_200_seconds_witness:
  "\<exists>w2 h'. zsocket_request sim_zmq lua_length blank_context MNil sim_socket
      \<lparr>l_stack = [LNil, LBool True], l_tabs = (\<lambda>_. []), l_next = 0\<rparr> (sim_start, roomy_heap) =
      Some (Inr 1, \<lparr>l_stack = [LNil, LBool True, LNil], l_tabs = (\<lambda>_. []), l_next = 0\<rparr>, w2, h') \<and> 200 \<le> sim_clock w2"
proof -
  let ?L = "\<lparr>l_stack = [LNil, LBool True], l_tabs = (\<lambda>_. []), l_next = 0\<rparr> :: lstate"
  have mem: "\<not> oom roomy_heap (brk roomy_heap) 24" "\<not> oom roomy_heap (Suc (brk roomy_heap)) 16"
    by (simp_all add: roomy_heap_def)
  have "list_all2 (lua_deep (\<lambda>_. True) (\<lambda>_. [])) [LBool True] [MBool True]" by (auto intro: lua_deep.intros)
  from lua_to_bin_packs [OF roomy_heap_ok mem lua_length_border this, of "[LNil]"]
  obtain p sb h' where "msgpack_lua_to_bin lua_length (\<lambda>_. []) ([LNil] @ [LBool True]) (length [LNil]) roomy_heap = Some (Inr (p, sb), h')"
    by (auto simp: MAX_DEPTH_def)
  then have sent: "msgpack_lua_to_bin lua_length (l_tabs ?L) (l_stack ?L) 1 roomy_heap = Some (Inr (p, sb), h')" by simp
  have poll: "\<exists>w'. z_poll sim_zmq (zs_socket sim_socket) t w = (Some 0, w') \<and> sim_queue w' = [] \<and>
      z_elapsed sim_zmq w + 1 / 10 ^ 6 \<le> z_elapsed sim_zmq w' \<and> z_elapsed sim_zmq w' \<le> z_elapsed sim_zmq w + of_int t / 10 ^ 6"
    if "sim_queue w = []" "0 < t" for w t
  proof -
    have "(1 :: rat) \<le> of_int t" using that(2) by simp
    then show ?thesis using that(1) by (simp add: sim_calls divide_right_mono)
  qed
  have snd: "z_send sim_zmq (zs_socket sim_socket) m bs fl sim_start = (True, sim_start)" for m bs fl by (rule sim_calls(3))
  from request_times_out_after_200_seconds [of "1 / 10 ^ 6" "\<lambda>w. sim_queue w = []", OF _ _ sent snd, of blank_context MNil] poll show ?thesis
    by (auto simp: sim_calls sim_start_def push_def)
qed

subsection \<open>Ownership of the message\<close>

text \<open>A property of the state that the write callback keeps is kept by the packing of any Lua value.\<close>

locale keeping_writer =
  fixes wr :: "'s writer" and I :: "'s \<Rightarrow> bool"
  assumes wr_keeps: "wr bs s = Some (r, s') \<Longrightarrow> I s \<Longrightarrow> I s'"
begin

lemma leaf_keeps:
  "msgpack_pack_double wr d s = Some (r, s') \<Longrightarrow> I s \<Longrightarrow> I s'" "msgpack_pack_nil wr s = Some (r, s') \<Longrightarrow> I s \<Longrightarrow> I s'"
  "msgpack_pack_true wr s = Some (r, s') \<Longrightarrow> I s \<Longrightarrow> I s'" "msgpack_pack_false wr s = Some (r, s') \<Longrightarrow> I s \<Longrightarrow> I s'"
  "msgpack_pack_array wr n s = Some (r, s') \<Longrightarrow> I s \<Longrightarrow> I s'" "msgpack_pack_map wr n s = Some (r, s') \<Longrightarrow> I s \<Longrightarrow> I s'"
  "msgpack_pack_raw wr l s = Some (r, s') \<Longrightarrow> I s \<Longrightarrow> I s'" "msgpack_pack_raw_body wr b l s = Some (r, s') \<Longrightarrow> I s \<Longrightarrow> I s'"
  by (auto simp: pack_leaf_defs msgpack_pack_array_def msgpack_pack_map_def msgpack_pack_raw_def msgpack_pack_raw_body_def
      split: if_splits dest: wr_keeps)

lemma pack_string_keeps: "pack_string wr str s = Some (r, s') \<Longrightarrow> I s \<Longrightarrow> I s'"
  by (auto simp: pack_string_def ignoring_def bind_Some_iff dest: leaf_keeps)

lemma then_keeps:
  assumes "do { (r, s) \<leftarrow> a; case r of Inl e \<Rightarrow> Some (Inl e, s) | Inr _ \<Rightarrow> b s } = Some (r', s')"
    and "\<And>r s. a = Some (r, s) \<Longrightarrow> I s" "\<And>s r s'. b s = Some (r, s') \<Longrightarrow> I s \<Longrightarrow> I s'"
  shows "I s'"
proof -
  obtain r1 s1 where "a = Some (r1, s1)" using assms(1) by (auto simp: bind_Some_iff)
  then show ?thesis using assms by (cases r1) auto
qed

lemma pack_each_keeps:
  "(\<And>x s r s'. f x s = Some (r, s') \<Longrightarrow> I s \<Longrightarrow> I s') \<Longrightarrow> pack_each f xs s = Some (r, s') \<Longrightarrow> I s \<Longrightarrow> I s'"
proof (induction xs arbitrary: s)
  case (Cons x xs)
  obtain r1 s1 where f: "f x s = Some (r1, s1)" using Cons.prems(2) by (auto simp: bind_Some_iff)
  have "I s1" by (rule Cons.prems(1) [OF f Cons.prems(3)])
  then have "pack_each f xs s1 = Some (r, s') \<Longrightarrow> I s'" using Cons.IH [where s = s1] Cons.prems(1) by blast
  then show ?case using Cons.prems(2) f \<open>I s1\<close> by (auto split: sum.splits)
qed simp

lemma pack_lua_keeps:
  "pack_lua getn H wr ht index v s = Some (r, s') \<Longrightarrow> I s \<Longrightarrow> I s'"
proof (induction "Suc MAX_DEPTH - index" arbitrary: ht index v s r s' rule: less_induct)
  case less
  have inner: "I s2" if "\<not> ht < index" "\<not> MAX_DEPTH < index" "ht < j" "pack_lua getn H wr k j u s1 = Some (r1, s2)" "I s1"
    for k j u s1 r1 s2
    by (rule less.hyps [OF _ that(4,5)]) (use that(1-3) in linarith)
  show ?case
  proof (cases "ht < index")
    case True
    then show ?thesis using less.prems by (simp add: pack_lua.simps [of _ _ _ ht])
  next
    case idx: False
    show ?thesis
    proof (cases v)
      case (LTab a)
      show ?thesis
      proof (cases "MAX_DEPTH < index")
        case True
        then show ?thesis using less.prems LTab idx by (simp add: pack_lua.simps [of _ _ _ ht])
      next
        case False
        note in_table = inner [OF idx False]
        have arr: "I s'" if run: "pack_array wr n (\<lambda>i s. pack_lua getn H wr (ht + 1) (ht + 1) (raw_get (H a) (lnum i)) s) s = Some (r, s')" for n
        proof -
          obtain r1 s1 where 1: "msgpack_pack_array wr (of_nat n) s = Some (r1, s1)"
            "pack_each (\<lambda>i s. pack_lua getn H wr (ht + 1) (ht + 1) (raw_get (H a) (lnum i)) s) [1..<Suc n] s1 = Some (r, s')"
            using run by (auto simp: pack_array_def bind_Some_iff simp del: upt_Suc One_nat_def)
          show ?thesis by (rule pack_each_keeps [OF _ 1(2) leaf_keeps(5) [OF 1(1) less.prems(2)]]) (rule in_table, simp_all)
        qed
        have hash: "I s'" if run: "pack_hash wr t (\<lambda>k s. pack_lua getn H wr (ht + 2) (ht + 1) k s)
            (\<lambda>w s. pack_lua getn H wr (ht + 2) (ht + 2) w s) s = Some (r, s')" for t
        proof -
          define f where "f = (\<lambda>e s. do { (r, s) \<leftarrow> pack_lua getn H wr (ht + 2) (ht + 1) (fst e) s;
              case r of Inl e \<Rightarrow> Some (Inl e, s) | Inr _ \<Rightarrow> pack_lua getn H wr (ht + 2) (ht + 2) (snd e) s })"
          have "do { (ret, s) \<leftarrow> msgpack_pack_map wr (of_nat (length t)) s; pack_each f t s } = Some (r, s')"
            using run by (simp only: pack_hash_def f_def)
          then obtain r1 s1 where 1: "msgpack_pack_map wr (of_nat (length t)) s = Some (r1, s1)" "pack_each f t s1 = Some (r, s')"
            by (auto simp: bind_Some_iff)
          have "I s3" if "f e s2 = Some (r2, s3)" "I s2" for e s2 r2 s3
            by (rule then_keeps [OF that(1) [unfolded f_def]]; rule in_table; (assumption | rule that(2) | simp))
          then show ?thesis by (rule pack_each_keeps [OF _ 1(2) leaf_keeps(6) [OF 1(1) less.prems(2)]])
        qed
        show ?thesis using less.prems(1) LTab idx False arr hash
          by (simp add: pack_lua.simps [of _ _ _ ht] Let_def split: if_splits)
      qed
    qed (use less.prems idx in \<open>auto simp: pack_lua.simps [of _ _ _ ht] ignoring_def bind_Some_iff
        split: if_splits dest: leaf_keeps pack_string_keeps\<close>)
  qed
qed

lemma pack_args_keeps:
  assumes "pack_args getn H wr stack skip s = Some (r, s')" "I s"
  shows "I s'"
proof -
  have each: "I s'" if "msgpack_pack_array wr n s = Some (r1, s1)"
    "pack_each (\<lambda>i s. pack_lua getn H wr k (i + skip) (stack ! (i + skip - 1)) s) is s1 = Some (r, s')" for n r1 s1 k "is"
    by (rule pack_each_keeps [OF _ that(2) leaf_keeps(5) [OF that(1) assms(2)]]) (rule pack_lua_keeps)
  show ?thesis using assms each
    by (auto simp: pack_args_def Let_def ignoring_def bind_Some_iff simp del: upt_Suc split: if_splits
        dest: leaf_keeps pack_lua_keeps)
qed

end

text \<open>The blocks of a simple buffer: those of \<open>D\<close> and, once it has been written to, one for its bytes.\<close>

definition blocks_of :: "ptr \<Rightarrow> nat set" where
  "blocks_of p = (case p of Null \<Rightarrow> {} | Ptr k off \<Rightarrow> {k})"

definition sb_blocks :: "msgpack_sbuffer \<Rightarrow> nat set" where
  "sb_blocks sb = blocks_of (sb_data sb)"

definition sb_frame :: "nat set \<Rightarrow> msgpack_sbuffer \<times> heap \<Rightarrow> bool" where
  "sb_frame D s \<longleftrightarrow> wf_heap (snd s) \<and> {k. live (snd s) k} = D \<union> sb_blocks (fst s) \<and> D \<inter> sb_blocks (fst s) = {}"

lemma realloc_blocks:
  assumes "realloc_c p n h = Some (q, h')"
  shows "q = Null \<and> {k. live h' k} = {k. live h k} \<or>
    q = Ptr (brk h) 0 \<and> {k. live h' k} = insert (brk h) ({k. live h k} - blocks_of p)"
proof (cases p)
  case Null
  then show ?thesis using assms by (auto simp: realloc_c_def malloc_c_def live_def blocks_of_def split: if_splits)
next
  case (Ptr b off)
  then show ?thesis using assms by (auto simp: realloc_c_def live_def blocks_of_def split: if_splits option.splits)
qed

lemma sbuffer_reserve_frame:
  assumes "sbuffer_reserve len sb h = Some (r, sb', h')" "sb_frame D (sb, h)"
  shows "sb_frame D (sb', h')"
proof (cases "sb_alloc sb - sb_size sb < len")
  case False
  then show ?thesis using assms by (simp add: sbuffer_reserve_def)
next
  case True
  then obtain n q h1 where re: "realloc_c (sb_data sb) n h = Some (q, h1)"
    "(sb', h') = (if q = Null then (sb, h1) else (sb\<lparr>sb_data := q, sb_alloc := n\<rparr>, h1))"
    using assms(1) by (auto simp: sbuffer_reserve_def Let_def bind_Some_iff split: if_splits)
  have f: "wf_heap h" "{k. live h k} = D \<union> blocks_of (sb_data sb)" "D \<inter> blocks_of (sb_data sb) = {}"
    using assms(2) by (simp_all add: sb_frame_def sb_blocks_def blocks_of_def)
  have "\<not> live h (brk h)" using f(1) by (simp add: wf_heap_def live_def)
  then have "brk h \<notin> D" using f(2) by blast
  moreover have "wf_heap h1" by (rule realloc_wf [OF re(1) f(1)])
  ultimately show ?thesis using realloc_blocks [OF re(1)] re(2) f(2,3)
    by (auto simp: sb_frame_def sb_blocks_def blocks_of_def)
qed

lemma sbuffer_write_frame:
  assumes "msgpack_sbuffer_write bs s = Some (r, s')" "sb_frame D s"
  shows "sb_frame D s'"
proof -
  obtain r1 sb1 h1 where res: "sbuffer_reserve (of_nat (length bs)) (fst s) (snd s) = Some (r1, sb1, h1)"
    using assms(1) by (auto simp: msgpack_sbuffer_write_def Let_def bind_Some_iff)
  have f: "sb_frame D (sb1, h1)" by (rule sbuffer_reserve_frame [OF res]) (use assms(2) in simp)
  show ?thesis
  proof (cases "r1 < 0")
    case True
    then show ?thesis using assms(1) res f by (simp add: msgpack_sbuffer_write_def Let_def)
  next
    case False
    then obtain h2 where st: "store_bytes (ptr_add (sb_data sb1) (unat (sb_size sb1))) bs h1 = Some h2"
      "s' = (sb1\<lparr>sb_size := sb_size sb1 + of_nat (length bs)\<rparr>, h2)"
      using assms(1) res by (auto simp: msgpack_sbuffer_write_def Let_def bind_Some_iff)
    have "wf_heap h2" using store_wf [OF st(1)] f by (simp add: sb_frame_def)
    moreover have "live h2 k \<longleftrightarrow> live h1 k" for k
      using st(1) by (auto simp: store_bytes_def live_def split: if_splits ptr.splits option.splits)
    ultimately show ?thesis using f st(2) by (simp add: sb_frame_def sb_blocks_def blocks_of_def)
  qed
qed

interpretation sbuffer_keeping: keeping_writer msgpack_sbuffer_write "sb_frame D"
  by unfold_locales (rule sbuffer_write_frame)

lemma free_blocks:
  "free_c p h = Some h' \<Longrightarrow> {k. live h' k} = {k. live h k} - blocks_of p"
  by (auto simp: free_c_def live_def blocks_of_def split: ptr.splits if_splits)

lemma sbuffer_free_blocks:
  "msgpack_sbuffer_free (Some (Ptr k 0, sb)) h = Some h' \<Longrightarrow> {j. live h' j} = {j. live h j} - sb_blocks sb - {k}"
  by (auto simp: msgpack_sbuffer_free_def msgpack_sbuffer_destroy_def sb_blocks_def blocks_of_def bind_Some_iff dest!: free_blocks)

lemma lua_to_bin_blocks:
  assumes "msgpack_lua_to_bin getn H stack skip h = Some (r, h')" "wf_heap h"
  shows "(case r of Inl e \<Rightarrow> {k. live h' k} = {k. live h k}
    | Inr (p, sb) \<Rightarrow> \<exists>k. p = Ptr k 0 \<and> k \<notin> sb_blocks sb \<and> {j. live h' j} = insert k ({j. live h j} \<union> sb_blocks sb) \<and>
        \<not> live h k \<and> (\<forall>j \<in> sb_blocks sb. \<not> live h j))"
proof -
  obtain p h1 where n: "msgpack_sbuffer_new h = (Some (p, msgpack_sbuffer_init), h1)"
    using assms(1) by (auto simp: msgpack_lua_to_bin_def msgpack_sbuffer_new_def Let_def split: prod.splits if_splits)
  obtain pk h2 where pk: "msgpack_packer_new h1 = (pk, h2)" by force
  have "pk \<noteq> Null" using assms(1) n pk by (auto simp: msgpack_lua_to_bin_def Let_def)
  define b c where "b = brk h" and "c = Suc (brk h)"
  have p: "p = Ptr b 0" "pk = Ptr c 0" "wf_heap h2" "{k. live h2 k} = insert b (insert c {k. live h k})"
    "\<not> live h b" "\<not> live h c" "b \<noteq> c"
    using n pk \<open>pk \<noteq> Null\<close> assms(2)
    by (auto simp: msgpack_sbuffer_new_def msgpack_packer_new_def calloc_c_def wf_heap_def live_def b_def c_def Let_def
        split: if_splits)
  have f0: "sb_frame (insert b (insert c {k. live h k})) (msgpack_sbuffer_init, h2)"
    using p(3,4) by (simp add: sb_frame_def sb_blocks_def blocks_of_def msgpack_sbuffer_init_def)
  obtain r1 sb h3 h4 where run: "pack_args getn H msgpack_sbuffer_write stack skip (msgpack_sbuffer_init, h2) = Some (r1, sb, h3)"
    "free_c (Ptr c 0) h3 = Some h4"
    "(case r1 of Inl e \<Rightarrow> do { h \<leftarrow> msgpack_sbuffer_free (Some (p, sb)) h4; Some (Inl e, h) } | Inr _ \<Rightarrow> Some (Inr (p, sb), h4)) = Some (r, h')"
    using assms(1) n pk p(2) by (auto simp: msgpack_lua_to_bin_def Let_def bind_Some_iff)
  have f3: "{k. live h3 k} = insert b (insert c {k. live h k}) \<union> sb_blocks sb"
    "insert b (insert c {k. live h k}) \<inter> sb_blocks sb = {}"
    using sbuffer_keeping.pack_args_keeps [OF run(1) f0] by (simp_all add: sb_frame_def)
  have new: "b \<notin> {k. live h k}" "c \<notin> {k. live h k}" using p(5,6) by simp_all
  have "{k. live h4 k} = {k. live h3 k} - {c}" using free_blocks [OF run(2)] by (simp add: blocks_of_def)
  then have f4: "{k. live h4 k} = insert b ({k. live h k} \<union> sb_blocks sb)"
    unfolding f3(1) using f3(2) new p(7) by blast
  show ?thesis
  proof (cases r1)
    case (Inl e)
    then obtain h5 where "msgpack_sbuffer_free (Some (Ptr b 0, sb)) h4 = Some h5" "r = Inl e" "h' = h5"
      using run(3) p(1) by (auto simp: bind_Some_iff)
    moreover from this(1) have "{k. live h5 k} = {k. live h k}"
      using sbuffer_free_blocks [of b sb h4 h5] f4 f3(2) new(1) by blast
    ultimately show ?thesis by simp
  next
    case (Inr u)
    then have "r = Inr (Ptr b 0, sb)" "h' = h4" using run(3) p(1) by simp_all
    moreover have "b \<notin> sb_blocks sb" "\<forall>j \<in> sb_blocks sb. \<not> live h j" using f3(2) by blast+
    ultimately show ?thesis using f4 p(5) by simp
  qed
qed

text \<open>
  C22: whatever is sent, and whether the message is taken, refused for now, refused for good or
  cannot be packed, the sender keeps no memory: the blocks allocated while it was packed are either
  with the library, when \<open>send\<close> returns true, or have been freed.
\<close>

theorem send_keeps_no_memory:
  assumes "zsocket_send z getn s L (w, h) = Some (r, w', h')" "wf_heap h"
  shows "if r = Inr True
    then \<exists>p sb bytes w1 w2. z_send z (zs_socket s) (OwnedBuffer (Ptr p 0) sb) bytes (send_flags s) w1 = (True, w2) \<and> w' = w2 \<and>
      {k. live h' k} = {k. live h k} \<union> {p} \<union> sb_blocks sb
    else {k. live h' k} = {k. live h k}"
proof -
  obtain r1 h1 where b: "msgpack_lua_to_bin getn (l_tabs L) (l_stack L) 1 h = Some (r1, h1)"
    using assms(1) by (auto simp: zsocket_send_def Let_def bind_Some_iff)
  show ?thesis
  proof (cases r1)
    case (Inl e)
    then show ?thesis using assms(1) b lua_to_bin_blocks [OF b assms(2)] by (auto simp: zsocket_send_def Let_def)
  next
    case (Inr psb)
    then obtain k sb where k: "psb = (Ptr k 0, sb)" "{j. live h1 j} = insert k ({j. live h j} \<union> sb_blocks sb)"
      "k \<notin> sb_blocks sb" "\<not> live h k" "\<forall>j \<in> sb_blocks sb. \<not> live h j"
      using lua_to_bin_blocks [OF b assms(2)] by (cases psb) auto
    let ?msg = "OwnedBuffer (Ptr k 0) sb"
    obtain ok w1 where sent: "z_send z (zs_socket s) ?msg (sb_contents (sb, h1)) (send_flags s) w = (ok, w1)" by force
    have run: "send_msg z ?msg (sb_contents (sb, h1)) s (w, h1) = Some (r, w', h')"
      using assms(1) b Inr k(1) by (simp add: zsocket_send_def Let_def)
    show ?thesis
    proof (cases ok)
      case True
      then have "r = Inr True" "w' = w1" "h' = h1" using run sent by (simp_all add: send_msg_def)
      then show ?thesis using sent True k(2) by auto
    next
      case False
      then have "msgpack_sbuffer_free (Some (Ptr k 0, sb)) h1 = Some h'" "r \<noteq> Inr True"
        using run sent by (auto simp: send_msg_def zmq_msg_close_def bind_Some_iff split: if_splits)
      then show ?thesis using sbuffer_free_blocks [of k sb h1 h'] k(2-5) by auto
    qed
  qed
qed

lemma send_keeps_no_memory_witness:
  "\<exists>w' h'. zsocket_send sim_zmq lua_length sim_socket \<lparr>l_stack = [LNil, LOther ''function''], l_tabs = (\<lambda>_. []), l_next = 0\<rparr>
      (sim_start, roomy_heap) = Some (Inl (PackError (CannotPack ''function'')), w', h') \<and> {k. live h' k} = {}"
proof -
  let ?L = "\<lparr>l_stack = [LNil, LOther ''function''], l_tabs = (\<lambda>_. []), l_next = 0\<rparr> :: lstate"
  have "\<exists>w' h'. zsocket_send sim_zmq lua_length sim_socket ?L (sim_start, roomy_heap) =
      Some (Inl (PackError (CannotPack ''function'')), w', h')"
    by (simp add: zsocket_send_def msgpack_lua_to_bin_def msgpack_sbuffer_new_def msgpack_packer_new_def calloc_c_def roomy_heap_def
        sizeof_sbuffer_def pack_args_def pack_lua.simps msgpack_sbuffer_free_def msgpack_sbuffer_destroy_def
        msgpack_sbuffer_init_def free_c_def live_def)
  then obtain w' h' where r: "zsocket_send sim_zmq lua_length sim_socket ?L (sim_start, roomy_heap) =
      Some (Inl (PackError (CannotPack ''function'')), w', h')" by blast
  have "{k. live roomy_heap k} = {}" by (simp add: live_def roomy_heap_def)
  with send_keeps_no_memory [OF r] r show ?thesis by simp
qed

end
