(* ===== verification/LjErr.thy ===== *)
theory LjErr
  imports Prelude
begin

text \<open>
  Control flow of LuaJIT code that may throw. An action takes the state; it has no result when the
  code is undefined or does not end, and otherwise either throws an error (\<open>lj_err_throw\<close>, a
  \<open>longjmp\<close> to the protecting call) or returns a value, with the state at that point in both cases.
\<close>

datatype tab_error = TableOverflow | OutOfMemory | NilIndex | NanIndex

datatype lj_error = TableError tab_error | NoMemory | StringOverflow | StackOverflow | BadDump | BadFormat

type_synonym ('s, 'a) act = "'s \<Rightarrow> ((lj_error + 'a) \<times> 's) option"

definition ret :: "'a \<Rightarrow> ('s, 'a) act" where "ret x s = Some (Inr x, s)"

definition throw :: "lj_error \<Rightarrow> ('s, 'a) act" where "throw e s = Some (Inl e, s)"

definition andthen :: "('s, 'a) act \<Rightarrow> ('a \<Rightarrow> ('s, 'b) act) \<Rightarrow> ('s, 'b) act" where
  "andthen m f s = (case m s of None \<Rightarrow> None | Some (Inl e, s) \<Rightarrow> Some (Inl e, s) | Some (Inr x, s) \<Rightarrow> f x s)"

definition asks :: "('s \<Rightarrow> 'a) \<Rightarrow> ('s, 'a) act" where "asks f s = Some (Inr (f s), s)"

definition modify :: "('s \<Rightarrow> 's) \<Rightarrow> ('s, unit) act" where "modify f s = Some (Inr (), f s)"

definition assert_c :: "bool \<Rightarrow> ('s, unit) act" where "assert_c b s = (if b then Some (Inr (), s) else None)"

text \<open>A bounded loop that collects what its body returns, and one over the elements of an array.\<close>

primrec repeat_act :: "nat \<Rightarrow> ('s, 'a) act \<Rightarrow> ('s, 'a list) act" where
  "repeat_act 0 m = ret []"
| "repeat_act (Suc n) m = andthen m (\<lambda>x. andthen (repeat_act n m) (\<lambda>xs. ret (x # xs)))"

primrec foreach :: "('a \<Rightarrow> ('s, unit) act) \<Rightarrow> 'a list \<Rightarrow> ('s, unit) act" where
  "foreach f [] = ret ()"
| "foreach f (x # xs) = andthen (f x) (\<lambda>_. foreach f xs)"

named_theorems act_simps \<open>evaluation of actions\<close>

declare ret_def [act_simps] throw_def [act_simps] asks_def [act_simps] modify_def [act_simps]

lemma andthen_simps [act_simps]:
  "m s = None \<Longrightarrow> andthen m f s = None"
  "m s = Some (Inl e, t) \<Longrightarrow> andthen m f s = Some (Inl e, t)"
  "m s = Some (Inr x, t) \<Longrightarrow> andthen m f s = f x t"
  by (simp_all add: andthen_def)

lemma assert_c_simps [act_simps]:
  "b \<Longrightarrow> assert_c b s = Some (Inr (), s)" "\<not> b \<Longrightarrow> assert_c b s = None"
  by (simp_all add: assert_c_def)

lemma andthen_basic [simp]:
  "andthen (ret x) f s = f x s" "andthen (throw e) f s = Some (Inl e, s)" "andthen (asks g) f s = f (g s) s"
  "andthen (modify h) k s = k () (h s)" "andthen (assert_c b) k s = (if b then k () s else None)"
  by (simp_all add: andthen_def ret_def throw_def asks_def modify_def assert_c_def)

lemma andthen_assoc: "andthen (andthen m f) g s = andthen m (\<lambda>x. andthen (f x) g) s"
  by (auto simp: andthen_def split: option.split sum.split)

end
