(* ===== verification/LjTab.thy ===== *)
theory LjTab imports CDouble LjErr begin

text \<open>
  The tables of LuaJIT (\<open>lj_tab.c\<close>, \<open>lj_tab.h\<close>): an array part for small integer keys and a hash part
  of chained nodes. This theory holds the definitions and the facts about doubles as keys.
\<close>

subsection \<open>Values, nodes and tables\<close>

text \<open>
  A value is 64 bits; what is not a number has a type tag in its high word and, unless it is a
  primitive, a reference in its low word. Strings are interned: the reference determines the string,
  and with it the hash that was computed when it was interned (the parameter \<open>SH\<close>).
\<close>

datatype tvalue = TNil | TBool bool | TNum u64 | TStr u32 | TRef u32 u32

record node =
  n_val :: tvalue
  n_key :: tvalue
  n_next :: "nat option"

text \<open>
  The array part has the slots 0 to \<open>asize - 1\<close>. The hash part is an array of \<open>hmask + 1\<close> nodes, a
  power of two; a table without one shares a node that is never written. \<open>n_next\<close> is the index of a
  node, \<open>t_freetop\<close> the one of the node that \<open>freetop\<close> points to.
\<close>

record gctab =
  t_array :: "tvalue list"
  t_node :: "node list"
  t_freetop :: nat
  t_nomm :: u8
  t_colo :: int

abbreviation asize :: "gctab \<Rightarrow> nat" where "asize t \<equiv> length (t_array t)"

definition hmask :: "gctab \<Rightarrow> nat" where "hmask t = length (t_node t) - 1"

definition nilnode :: node where "nilnode = \<lparr>n_val = TNil, n_key = TNil, n_next = None\<rparr>"

definition LJ_MAX_HBITS :: nat where "LJ_MAX_HBITS = 26"
definition LJ_MAX_ABITS :: nat where "LJ_MAX_ABITS = 28"
definition LJ_MAX_ASIZE :: nat where "LJ_MAX_ASIZE = 2 ^ (LJ_MAX_ABITS - 1) + 1"
definition LJ_MAX_COLOSIZE :: nat where "LJ_MAX_COLOSIZE = 16"
definition sizeof_TValue :: nat where "sizeof_TValue = 8"
definition sizeof_Node :: nat where "sizeof_Node = 24"
definition sizeof_GCtab :: nat where "sizeof_GCtab = 32"

definition sizetabcolo :: "nat \<Rightarrow> nat" where "sizetabcolo n = n * sizeof_TValue + sizeof_GCtab"

text \<open>Errors raised while a table is changed; the table is left as it is at that point.\<close>

type_synonym 'r tab_res = "((tab_error + 'r) \<times> gctab) option"

text \<open>A setter returns the place of the value.\<close>

datatype slot = ArraySlot nat | NodeSlot nat

fun slot_val :: "gctab \<Rightarrow> slot \<Rightarrow> tvalue" where
  "slot_val t (ArraySlot i) = t_array t ! i"
| "slot_val t (NodeSlot i) = n_val (t_node t ! i)"

fun put_slot :: "slot \<Rightarrow> tvalue \<Rightarrow> gctab \<Rightarrow> gctab" where
  "put_slot (ArraySlot i) v t = t\<lparr>t_array := (t_array t)[i := v]\<rparr>"
| "put_slot (NodeSlot i) v t = t\<lparr>t_node := (t_node t)[i := (t_node t ! i)\<lparr>n_val := v\<rparr>]\<rparr>"

subsection \<open>Numbers as keys\<close>

text \<open>The conversion of a double to \<open>int32_t\<close>: out of range x64 gives the least integer.\<close>

definition num2int :: "u64 \<Rightarrow> int" where
  "num2int d = (case dbl_trunc d of None \<Rightarrow> - (2 ^ 31)
     | Some i \<Rightarrow> if - (2 ^ 31) \<le> i \<and> i < 2 ^ 31 then i else - (2 ^ 31))"

definition dbl_of_int :: "int \<Rightarrow> u64" where
  "dbl_of_int k = (if k < 0 then 2 ^ 63 OR dbl_of_int_abs (- k) else dbl_of_int_abs k)"

definition tvismzero :: "tvalue \<Rightarrow> bool" where
  "tvismzero k \<longleftrightarrow> k = TNum (2 ^ 63)"

fun lj_obj_equal :: "tvalue \<Rightarrow> tvalue \<Rightarrow> bool" where
  "lj_obj_equal (TNum x) (TNum y) = dbl_eq x y"
| "lj_obj_equal a b = (a = b)"

subsection \<open>Hashing\<close>

definition HASH_BIAS :: u32 where "HASH_BIAS = - 0x04c11db7"

definition lj_rol :: "u32 \<Rightarrow> nat \<Rightarrow> u32" where
  "lj_rol x n = push_bit n x OR drop_bit (32 - n) x"

text \<open>The variant for x86 and x64.\<close>

definition hashrot :: "u32 \<Rightarrow> u32 \<Rightarrow> u32" where
  "hashrot lo hi =
     (let lo = lo XOR hi; hi = lj_rol hi 14;
          lo = lo - hi; hi = lj_rol hi 5;
          hi = hi XOR lo; hi = hi - lj_rol lo 13
      in hi)"

definition hashmask :: "gctab \<Rightarrow> u32 \<Rightarrow> nat" where
  "hashmask t h = unat (h AND of_nat (hmask t))"

text \<open>A \<open>nil\<close> key is never hashed.\<close>

definition hashnum :: "gctab \<Rightarrow> u64 \<Rightarrow> nat" where
  "hashnum t d = hashmask t (hashrot (ucast d) (push_bit 1 (ucast (drop_bit 32 d))))"

definition hashgcref :: "gctab \<Rightarrow> u32 \<Rightarrow> nat" where
  "hashgcref t r = hashmask t (hashrot r (r + HASH_BIAS))"

fun hashkey :: "(u32 \<Rightarrow> u32) \<Rightarrow> gctab \<Rightarrow> tvalue \<Rightarrow> nat" where
  "hashkey SH t (TStr s) = hashmask t (SH s)"
| "hashkey SH t (TNum d) = hashnum t d"
| "hashkey SH t (TBool b) = hashmask t (if b then 1 else 0)"
| "hashkey SH t (TRef it r) = hashgcref t r"
| "hashkey SH t TNil = hashgcref t 0"

subsection \<open>Creation\<close>

definition newhpart :: "(nat \<Rightarrow> bool) \<Rightarrow> nat \<Rightarrow> gctab \<Rightarrow> (tab_error + unit) \<times> gctab" where
  "newhpart oom hbits t =
     (if hbits > LJ_MAX_HBITS then (Inl TableOverflow, t)
      else if oom (2 ^ hbits * sizeof_Node) then (Inl OutOfMemory, t)
      else (Inr (), t\<lparr>t_node := replicate (2 ^ hbits) nilnode, t_freetop := 2 ^ hbits\<rparr>))"

text \<open>
  \<open>lj_tab_new\<close>: the slots that \<open>newtab\<close> allocates are cleared at once. No table is returned when an
  error is raised.
\<close>

definition lj_tab_new :: "(nat \<Rightarrow> bool) \<Rightarrow> nat \<Rightarrow> nat \<Rightarrow> tab_error + gctab" where
  "lj_tab_new oom asz hbits =
     (let colo = 0 < asz \<and> asz \<le> LJ_MAX_COLOSIZE;
          t = \<lparr>t_array = replicate asz TNil, t_node = [nilnode], t_freetop = 0, t_nomm = - 1,
               t_colo = (if colo then int asz else 0)\<rparr> in
      if oom (if colo then sizetabcolo asz else sizeof_GCtab) then Inl OutOfMemory
      else if \<not> colo \<and> 0 < asz \<and> asz > LJ_MAX_ASIZE then Inl TableOverflow
      else if \<not> colo \<and> 0 < asz \<and> oom (asz * sizeof_TValue) then Inl OutOfMemory
      else if hbits = 0 then Inr t
      else case newhpart oom hbits t of (Inl e, _) \<Rightarrow> Inl e | (Inr _, t) \<Rightarrow> Inr t)"

definition lj_tab_new1 :: "(nat \<Rightarrow> bool) \<Rightarrow> u32 \<Rightarrow> tab_error + gctab" where
  "lj_tab_new1 oom ahsize = lj_tab_new oom (unat (ahsize AND 0xffffff)) (unat (drop_bit 24 ahsize))"

definition lj_fls :: "nat \<Rightarrow> nat" where "lj_fls n = log2_int (int n)"

definition hsize2hbits :: "nat \<Rightarrow> nat" where
  "hsize2hbits s = (if s = 0 then 0 else if s = 1 then 1 else 1 + lj_fls (s - 1))"

definition lj_tab_dup :: "(nat \<Rightarrow> bool) \<Rightarrow> gctab \<Rightarrow> tab_error + gctab" where
  "lj_tab_dup oom kt =
     map_sum id (\<lambda>t. t\<lparr>t_nomm := 0, t_array := t_array kt,
                      t_node := (if hmask kt > 0 then t_node kt else t_node t),
                      t_freetop := (if hmask kt > 0 then t_freetop kt else t_freetop t)\<rparr>)
       (lj_tab_new oom (asize kt) (if hmask kt > 0 then lj_fls (hmask kt) + 1 else 0))"

text \<open>The memory that \<open>lj_tab_free\<close> gives back: the nodes, a separate array, the table itself.\<close>

definition lj_tab_free :: "gctab \<Rightarrow> nat list" where
  "lj_tab_free t =
     (if hmask t > 0 then [(hmask t + 1) * sizeof_Node] else []) @
     (if asize t > 0 \<and> t_colo t \<le> 0 then [asize t * sizeof_TValue] else []) @
     (if t_colo t \<noteq> 0 then [sizetabcolo (nat (t_colo t AND 0x7f))] else [sizeof_GCtab])"

subsection \<open>Getters\<close>

text \<open>A walk along a chain: the first node whose key passes a test, if any; no result if it loops.\<close>

partial_function (option) chain_find :: "(tvalue \<Rightarrow> bool) \<Rightarrow> node list \<Rightarrow> nat \<Rightarrow> nat option option" where
  "chain_find P ns i =
     (if P (n_key (ns ! i)) then Some (Some i)
      else case n_next (ns ! i) of None \<Rightarrow> Some None | Some j \<Rightarrow> chain_find P ns j)"

definition num_is :: "u64 \<Rightarrow> tvalue \<Rightarrow> bool" where
  "num_is d k = (case k of TNum e \<Rightarrow> dbl_eq e d | _ \<Rightarrow> False)"

definition inarray :: "gctab \<Rightarrow> int \<Rightarrow> bool" where
  "inarray t k \<longleftrightarrow> uint (word_of_int k :: u32) < int (asize t)"

definition lj_tab_getinth :: "gctab \<Rightarrow> int \<Rightarrow> slot option option" where
  "lj_tab_getinth t k =
     (let d = dbl_of_int k in map_option (map_option NodeSlot) (chain_find (num_is d) (t_node t) (hashnum t d)))"

definition lj_tab_getint :: "gctab \<Rightarrow> int \<Rightarrow> slot option option" where
  "lj_tab_getint t k = (if inarray t k then Some (Some (ArraySlot (nat k))) else lj_tab_getinth t k)"

definition lj_tab_getstr :: "(u32 \<Rightarrow> u32) \<Rightarrow> gctab \<Rightarrow> u32 \<Rightarrow> slot option option" where
  "lj_tab_getstr SH t s =
     map_option (map_option NodeSlot) (chain_find (\<lambda>k. k = TStr s) (t_node t) (hashmask t (SH s)))"

definition genlookup :: "(u32 \<Rightarrow> u32) \<Rightarrow> gctab \<Rightarrow> tvalue \<Rightarrow> slot option option" where
  "genlookup SH t key =
     map_option (map_option NodeSlot) (chain_find (\<lambda>k. lj_obj_equal k key) (t_node t) (hashkey SH t key))"

definition lj_tab_get :: "(u32 \<Rightarrow> u32) \<Rightarrow> gctab \<Rightarrow> tvalue \<Rightarrow> tvalue option" where
  "lj_tab_get SH t key =
     do { sl \<leftarrow> (case key of
            TStr s \<Rightarrow> lj_tab_getstr SH t s
          | TNum d \<Rightarrow> let k = num2int d in if dbl_eq d (dbl_of_int k) then lj_tab_getint t k else genlookup SH t key
          | TNil \<Rightarrow> Some None
          | _ \<Rightarrow> genlookup SH t key);
          Some (case sl of None \<Rightarrow> TNil | Some sl \<Rightarrow> slot_val t sl) }"

subsection \<open>Setters\<close>

text \<open>The search for a free node, downwards from \<open>freetop\<close>, and for the predecessor of a node.\<close>

primrec find_free_node :: "node list \<Rightarrow> nat \<Rightarrow> nat option" where
  "find_free_node ns 0 = None"
| "find_free_node ns (Suc f) = (if n_key (ns ! f) = TNil then Some f else find_free_node ns f)"

partial_function (option) chain_pred :: "node list \<Rightarrow> nat \<Rightarrow> nat \<Rightarrow> nat option" where
  "chain_pred ns n c =
     (case n_next (ns ! c) of None \<Rightarrow> None | Some j \<Rightarrow> if j = n then Some c else chain_pred ns n j)"

text \<open>Chaining again the string keys after node \<open>fr\<close> whose main node is \<open>n\<close>.\<close>

partial_function (option) rechain :: "(u32 \<Rightarrow> u32) \<Rightarrow> gctab \<Rightarrow> nat \<Rightarrow> node list \<Rightarrow> nat \<Rightarrow> node list option" where
  "rechain SH t n ns fr =
     (case n_next (ns ! fr) of None \<Rightarrow> Some ns
      | Some nn \<Rightarrow>
          (case n_key (ns ! nn) of
             TStr s \<Rightarrow>
               if n_val (ns ! nn) \<noteq> TNil \<and> hashmask t (SH s) = n then
                 let ns = ns[fr := (ns ! fr)\<lparr>n_next := n_next (ns ! nn)\<rparr>];
                     ns = ns[nn := (ns ! nn)\<lparr>n_next := n_next (ns ! n)\<rparr>];
                     ns = ns[n := (ns ! n)\<lparr>n_next := Some nn\<rparr>]
                 in rechain SH t n ns fr
               else rechain SH t n ns nn
           | _ \<Rightarrow> rechain SH t n ns nn))"

declare chain_find.simps [code] chain_pred.simps [code] rechain.simps [code]

definition move_colliding :: "(u32 \<Rightarrow> u32) \<Rightarrow> gctab \<Rightarrow> nat \<Rightarrow> nat \<Rightarrow> nat \<Rightarrow> node list \<Rightarrow> node list option" where
  "move_colliding SH t n f collide ns =
     do { p \<leftarrow> chain_pred ns n collide;
          let ns = ns[p := (ns ! p)\<lparr>n_next := Some f\<rparr>];
          let ns = ns[f := \<lparr>n_val = n_val (ns ! n), n_key = n_key (ns ! n), n_next = n_next (ns ! n)\<rparr>];
          let ns = ns[n := (ns ! n)\<lparr>n_next := None, n_val := TNil\<rparr>];
          rechain SH t n ns f }"

text \<open>Storing the key in its node, with minus zero as zero.\<close>

definition set_key :: "nat \<Rightarrow> tvalue \<Rightarrow> gctab \<Rightarrow> slot tab_res" where
  "set_key n key t =
     (let key = (if tvismzero key then TNum 0 else key) in
      Some (Inr (NodeSlot n), t\<lparr>t_node := (t_node t)[n := (t_node t ! n)\<lparr>n_key := key\<rparr>]\<rparr>))"

text \<open>
  The setters call \<open>lj_tab_newkey\<close>, which calls them again after it has resized the table: they are
  written over it, as \<open>nk\<close>, and \<open>lj_tab_newkey\<close> counts how often it may be entered.
\<close>

definition lj_tab_setinth :: "(gctab \<Rightarrow> tvalue \<Rightarrow> slot tab_res) \<Rightarrow> gctab \<Rightarrow> int \<Rightarrow> slot tab_res" where
  "lj_tab_setinth nk t k =
     (let d = dbl_of_int k in
      do { r \<leftarrow> chain_find (num_is d) (t_node t) (hashnum t d);
           case r of Some j \<Rightarrow> Some (Inr (NodeSlot j), t) | None \<Rightarrow> nk t (TNum d) })"

definition lj_tab_setint :: "(gctab \<Rightarrow> tvalue \<Rightarrow> slot tab_res) \<Rightarrow> gctab \<Rightarrow> int \<Rightarrow> slot tab_res" where
  "lj_tab_setint nk t k = (if inarray t k then Some (Inr (ArraySlot (nat k)), t) else lj_tab_setinth nk t k)"

definition lj_tab_setstr :: "(u32 \<Rightarrow> u32) \<Rightarrow> (gctab \<Rightarrow> tvalue \<Rightarrow> slot tab_res) \<Rightarrow> gctab \<Rightarrow> u32 \<Rightarrow> slot tab_res" where
  "lj_tab_setstr SH nk t s =
     do { r \<leftarrow> chain_find (\<lambda>k. k = TStr s) (t_node t) (hashmask t (SH s));
          case r of Some j \<Rightarrow> Some (Inr (NodeSlot j), t) | None \<Rightarrow> nk t (TStr s) }"

definition set_generic :: "(u32 \<Rightarrow> u32) \<Rightarrow> (gctab \<Rightarrow> tvalue \<Rightarrow> slot tab_res) \<Rightarrow> gctab \<Rightarrow> tvalue \<Rightarrow> slot tab_res" where
  "set_generic SH nk t key =
     do { r \<leftarrow> chain_find (\<lambda>k. lj_obj_equal k key) (t_node t) (hashkey SH t key);
          case r of Some j \<Rightarrow> Some (Inr (NodeSlot j), t) | None \<Rightarrow> nk t key }"

definition lj_tab_set :: "(u32 \<Rightarrow> u32) \<Rightarrow> (gctab \<Rightarrow> tvalue \<Rightarrow> slot tab_res) \<Rightarrow> gctab \<Rightarrow> tvalue \<Rightarrow> slot tab_res" where
  "lj_tab_set SH nk t key =
     (let t = t\<lparr>t_nomm := 0\<rparr> in
      case key of
        TStr s \<Rightarrow> lj_tab_setstr SH nk t s
      | TNum d \<Rightarrow>
          let k = num2int d in
          if dbl_eq d (dbl_of_int k) then lj_tab_setint nk t k
          else if dbl_isnan d then Some (Inl NanIndex, t)
          else set_generic SH nk t key
      | TNil \<Rightarrow> Some (Inl NilIndex, t)
      | _ \<Rightarrow> set_generic SH nk t key)"

subsection \<open>Resizing\<close>

text \<open>Storing a list of entries, the loops of \<open>resizetab\<close>.\<close>

primrec store_each :: "('k \<Rightarrow> gctab \<Rightarrow> slot tab_res) \<Rightarrow> ('k \<times> tvalue) list \<Rightarrow> gctab \<Rightarrow> unit tab_res" where
  "store_each st [] t = Some (Inr (), t)"
| "store_each st (e # es) t =
     do { (r, t) \<leftarrow> st (fst e) t;
          case r of Inl err \<Rightarrow> Some (Inl err, t) | Inr sl \<Rightarrow> store_each st es (put_slot sl (snd e) t) }"

definition grow_array :: "(nat \<Rightarrow> bool) \<Rightarrow> nat \<Rightarrow> gctab \<Rightarrow> (tab_error + unit) \<times> gctab" where
  "grow_array oom asz t =
     (if asz > asize t then
        if asz > LJ_MAX_ASIZE then (Inl TableOverflow, t)
        else if oom (asz * sizeof_TValue) then (Inl OutOfMemory, t)
        else (Inr (), t\<lparr>t_colo := (if t_colo t > 0 then t_colo t - 128 else t_colo t),
                        t_array := t_array t @ replicate (asz - asize t) TNil\<rparr>)
      else (Inr (), t))"

definition resizetab :: "(u32 \<Rightarrow> u32) \<Rightarrow> (nat \<Rightarrow> bool) \<Rightarrow> (gctab \<Rightarrow> tvalue \<Rightarrow> slot tab_res) \<Rightarrow> gctab \<Rightarrow> nat \<Rightarrow> nat \<Rightarrow> unit tab_res" where
  "resizetab SH oom nk t asz hbits =
     (let oldnode = t_node t; oldasize = asize t; oldhmask = hmask t in
      case grow_array oom asz t of (Inl e, t) \<Rightarrow> Some (Inl e, t)
      | (Inr _, t) \<Rightarrow>
        (case (if hbits > 0 then newhpart oom hbits t else (Inr (), t\<lparr>t_node := [nilnode], t_freetop := 0\<rparr>)) of
           (Inl e, t) \<Rightarrow> Some (Inl e, t)
         | (Inr _, t) \<Rightarrow> do {
             (r, t) \<leftarrow>
               (if asz < oldasize then
                  let array = t_array t; t = t\<lparr>t_array := take asz array\<rparr> in
                  do { (r, t) \<leftarrow> store_each (\<lambda>i t. lj_tab_setinth nk t (int i))
                         (filter (\<lambda>e. snd e \<noteq> TNil) (map (\<lambda>i. (i, array ! i)) [asz..<oldasize])) t;
                       Some (case r of Inl e \<Rightarrow> (Inl e, t)
                         | Inr _ \<Rightarrow> if t_colo t \<le> 0 \<and> asz > 0 \<and> oom (asz * sizeof_TValue) then (Inl OutOfMemory, t) else (Inr (), t)) }
                else Some (Inr (), t));
             case r of Inl e \<Rightarrow> Some (Inl e, t)
             | Inr _ \<Rightarrow>
                 if oldhmask > 0 then
                   store_each (\<lambda>k t. lj_tab_set SH nk t k)
                     (map (\<lambda>nd. (n_key nd, n_val nd)) (filter (\<lambda>nd. n_val nd \<noteq> TNil) oldnode)) t
                 else Some (Inr (), t) }))"

text \<open>The counts of integer keys: \<open>bins ! b\<close> is the number of those between 2^b + 1 and 2^(b + 1).\<close>

definition countint :: "tvalue \<Rightarrow> nat list \<Rightarrow> nat \<times> nat list" where
  "countint key bins =
     (case key of
        TNum nk \<Rightarrow>
          let k = num2int nk in
          if uint (word_of_int k :: u32) < int LJ_MAX_ASIZE \<and> dbl_eq nk (dbl_of_int k) then
            let b = (if k > 2 then lj_fls (nat k - 1) else 0) in (1, bins[b := bins ! b + 1])
          else (0, bins)
      | _ \<Rightarrow> (0, bins))"

function countarray_loop :: "tvalue list \<Rightarrow> nat \<Rightarrow> nat \<Rightarrow> nat \<Rightarrow> nat list \<Rightarrow> nat \<times> nat list" where
  "countarray_loop array b i na bins =
     (if b < LJ_MAX_ABITS then
        let top = 2 * 2 ^ b;
            top' = (if top \<ge> length array then length array - 1 else top) in
        if top \<ge> length array \<and> i > top' then (na, bins)
        else
          let n = length (filter (\<lambda>v. v \<noteq> TNil) (drop i (take (top' + 1) array))) in
          countarray_loop array (b + 1) (max i (top' + 1)) (na + n) (bins[b := bins ! b + n])
      else (na, bins))"
  by pat_completeness auto
termination
  by (relation "measure (\<lambda>(array, b, i, na, bins). LJ_MAX_ABITS - b)") auto

definition countarray :: "gctab \<Rightarrow> nat list \<Rightarrow> nat \<times> nat list" where
  "countarray t bins = (if asize t = 0 then (0, bins) else countarray_loop (t_array t) 0 0 0 bins)"

fun counthash :: "node list \<Rightarrow> nat list \<Rightarrow> nat \<times> nat \<times> nat list" where
  "counthash [] bins = (0, 0, bins)"
| "counthash (nd # nds) bins =
     (if n_val nd \<noteq> TNil then
        let (c, bins) = countint (n_key nd) bins; (total, na, bins) = counthash nds bins in (total + 1, na + c, bins)
      else counthash nds bins)"

function bestasize_loop :: "nat list \<Rightarrow> nat \<Rightarrow> nat \<Rightarrow> nat \<Rightarrow> nat \<Rightarrow> nat \<Rightarrow> nat \<times> nat" where
  "bestasize_loop bins nn b acc na sz =
     (if 2 * nn > 2 ^ b \<and> acc \<noteq> nn then
        if bins ! b > 0 then
          let acc = acc + bins ! b in
          if 2 * acc > 2 ^ b then bestasize_loop bins nn (b + 1) acc acc (2 * 2 ^ b + 1)
          else bestasize_loop bins nn (b + 1) acc na sz
        else bestasize_loop bins nn (b + 1) acc na sz
      else (na, sz))"
  by pat_completeness auto
termination
  by (relation "measure (\<lambda>(bins, nn, b, acc, na, sz). 2 * nn - 2 ^ b)") (auto simp: diff_less_mono2)

declare countarray_loop.simps [simp del] bestasize_loop.simps [simp del]

definition bestasize :: "nat list \<Rightarrow> nat \<Rightarrow> nat \<times> nat" where
  "bestasize bins nn = bestasize_loop bins nn 0 0 0 0"

definition rehashtab :: "(u32 \<Rightarrow> u32) \<Rightarrow> (nat \<Rightarrow> bool) \<Rightarrow> (gctab \<Rightarrow> tvalue \<Rightarrow> slot tab_res) \<Rightarrow> gctab \<Rightarrow> tvalue \<Rightarrow> unit tab_res" where
  "rehashtab SH oom nk t ek =
     (let bins = replicate LJ_MAX_ABITS 0;
          (asz, bins) = countarray t bins;
          total = 1 + asz;
          (n, na, bins) = counthash (t_node t) bins;
          total = total + n; asz = asz + na;
          (c, bins) = countint ek bins;
          asz = asz + c;
          (na, asz) = bestasize bins asz;
          total = total - na
      in resizetab SH oom nk t asz (hsize2hbits total))"

text \<open>Inserting a key that is not in the table.\<close>

primrec lj_tab_newkey :: "(u32 \<Rightarrow> u32) \<Rightarrow> (nat \<Rightarrow> bool) \<Rightarrow> nat \<Rightarrow> gctab \<Rightarrow> tvalue \<Rightarrow> slot tab_res" where
  "lj_tab_newkey SH oom 0 t key = None"
| "lj_tab_newkey SH oom (Suc d) t key =
     (let n = hashkey SH t key in
      if n_val (t_node t ! n) \<noteq> TNil \<or> hmask t = 0 then
        case find_free_node (t_node t) (t_freetop t) of
          None \<Rightarrow> do {
            (r, t) \<leftarrow> rehashtab SH oom (lj_tab_newkey SH oom d) t key;
            case r of Inl e \<Rightarrow> Some (Inl e, t) | Inr _ \<Rightarrow> lj_tab_set SH (lj_tab_newkey SH oom d) t key }
        | Some f \<Rightarrow>
            let t = t\<lparr>t_freetop := f\<rparr>;
                ns = t_node t;
                collide = hashkey SH t (n_key (ns ! n)) in
            if collide \<noteq> n then do {
              ns \<leftarrow> move_colliding SH t n f collide ns;
              set_key n key (t\<lparr>t_node := ns\<rparr>) }
            else
              let ns = ns[f := (ns ! f)\<lparr>n_next := n_next (ns ! n)\<rparr>];
                  ns = ns[n := (ns ! n)\<lparr>n_next := Some f\<rparr>] in
              set_key f key (t\<lparr>t_node := ns\<rparr>)
      else set_key n key t)"

definition lj_tab_reasize :: "(u32 \<Rightarrow> u32) \<Rightarrow> (nat \<Rightarrow> bool) \<Rightarrow> gctab \<Rightarrow> nat \<Rightarrow> unit tab_res" where
  "lj_tab_reasize SH oom t nasize =
     resizetab SH oom (lj_tab_newkey SH oom 2) t (nasize + 1) (if hmask t > 0 then lj_fls (hmask t) + 1 else 0)"

text \<open>\<open>lua_rawset\<close>: the value is copied to the place that \<open>lj_tab_set\<close> returns.\<close>

definition tab_store :: "(u32 \<Rightarrow> u32) \<Rightarrow> (nat \<Rightarrow> bool) \<Rightarrow> gctab \<Rightarrow> tvalue \<Rightarrow> tvalue \<Rightarrow> unit tab_res" where
  "tab_store SH oom t key v =
     do { (r, t) \<leftarrow> lj_tab_set SH (lj_tab_newkey SH oom 2) t key;
          case r of Inl e \<Rightarrow> Some (Inl e, t) | Inr sl \<Rightarrow> Some (Inr (), put_slot sl v t) }"

subsection \<open>The bits of a double\<close>

lemma uint_take_bit: "uint (take_bit n d) = uint d mod 2 ^ n"
  using take_bit_eq_mod [of n "uint d"] by (simp add: unsigned_take_bit_eq)

lemma dbl_frac_uint: "dbl_frac d = uint d mod 2 ^ 52"
  using uint_take_bit [of 52 d] by (simp add: dbl_frac_def take_bit_eq_mask)

lemma u64_top: "uint (d :: u64) div 2 ^ 63 = (if 2 ^ 63 \<le> uint d then 1 else 0)"
proof -
  have "0 \<le> uint d" "uint d < 2 ^ 64" using uint_lt2p [of d] by simp_all
  then show ?thesis by (auto intro: div_pos_pos_trivial int_div_pos_eq [where r = "uint d - 2 ^ 63"])
qed

lemma dbl_sign_uint: "dbl_sign d \<longleftrightarrow> 2 ^ 63 \<le> uint d"
proof -
  have "dbl_sign d \<longleftrightarrow> bit (uint d) 63" by (simp add: dbl_sign_def bit_uint_iff)
  also have "\<dots> \<longleftrightarrow> odd (uint d div 2 ^ 63)" by (rule bit_iff_odd)
  finally show ?thesis using u64_top [of d] by simp
qed

lemma dbl_fields:
  assumes "uint d = s * 2 ^ 63 + e * 2 ^ 52 + f" "s = 0 \<or> s = 1" "0 \<le> e" "e < 2 ^ 11" "0 \<le> f" "f < 2 ^ 52"
  shows "dbl_sign d \<longleftrightarrow> s = 1" "dbl_exp d = e" "dbl_frac d = f"
proof -
  have u: "uint d = (s * 2 ^ 11 + e) * 2 ^ 52 + f" using assms(1) by simp
  then have "uint d div 2 ^ 52 = s * 2 ^ 11 + e" using assms(5,6) by (intro int_div_pos_eq [where r = f]) simp_all
  moreover have "(s * 2 ^ 11 + e) mod 2 ^ 11 = e" using assms(3,4) by simp
  ultimately show "dbl_exp d = e" by (simp add: dbl_exp_uint)
  have "((s * 2 ^ 11 + e) * 2 ^ 52 + f) mod 2 ^ 52 = f mod 2 ^ 52" by (rule mod_mult_self3)
  then show "dbl_frac d = f" using assms(5,6) unfolding dbl_frac_uint u by simp
  show "dbl_sign d \<longleftrightarrow> s = 1" using assms by (auto simp: dbl_sign_uint)
qed

lemma uint_or_sign: "uint d < 2 ^ 63 \<Longrightarrow> uint (2 ^ 63 OR d :: u64) = 2 ^ 63 + uint d"
proof -
  assume small: "uint d < 2 ^ 63"
  then have "\<not> bit (uint d) 63" using u64_top [of d] bit_iff_odd [of "uint d" 63] by simp
  then have "(2 ^ 63 :: int) AND uint d = 0" by (metis and.commute and_exp_eq_0_iff_not_bit)
  then have "2 ^ 63 + uint d = 2 ^ 63 OR uint d" by (rule disjunctive_add_eq_or)
  moreover have "uint (2 ^ 63 OR d) = 2 ^ 63 OR uint d" by (simp add: unsigned_or_eq)
  ultimately show ?thesis by simp
qed

text \<open>An integer of 32 bits survives the conversion to a double and back.\<close>

lemma dbl_of_int_uint:
  assumes "k \<noteq> 0" "\<bar>k\<bar> < 2 ^ 32"
  defines "l \<equiv> log2_int \<bar>k\<bar>"
  shows "uint (dbl_of_int k) = (if k < 0 then 1 else 0) * 2 ^ 63 + (int l + 1023) * 2 ^ 52 + (\<bar>k\<bar> * 2 ^ (52 - l) - 2 ^ 52)"
    "0 \<le> \<bar>k\<bar> * 2 ^ (52 - l) - 2 ^ 52" "\<bar>k\<bar> * 2 ^ (52 - l) - 2 ^ 52 < 2 ^ 52" "l < 32"
proof -
  have k: "0 < \<bar>k\<bar>" using assms(1) by simp
  note e = dbl_of_int_abs_exact [OF k assms(2)]
  show l: "l < 32" using log2_int_less [OF k assms(2)] by (simp add: l_def)
  have u: "uint (dbl_of_int_abs \<bar>k\<bar>) = (int l + 1022) * 2 ^ 52 + \<bar>k\<bar> * 2 ^ (52 - l)" using e(2) by (simp add: l_def)
  then show "0 \<le> \<bar>k\<bar> * 2 ^ (52 - l) - 2 ^ 52" "\<bar>k\<bar> * 2 ^ (52 - l) - 2 ^ 52 < 2 ^ 52" using e(3,4) by (simp_all add: l_def)
  have "uint (dbl_of_int_abs \<bar>k\<bar>) < 2 ^ 63" using e(4) l by (simp add: l_def)
  from uint_or_sign [OF this] show "uint (dbl_of_int k) = (if k < 0 then 1 else 0) * 2 ^ 63 + (int l + 1023) * 2 ^ 52 + (\<bar>k\<bar> * 2 ^ (52 - l) - 2 ^ 52)"
    using u by (auto simp: dbl_of_int_def)
qed

lemma dbl_of_int_fields:
  assumes "k \<noteq> 0" "\<bar>k\<bar> < 2 ^ 32"
  defines "l \<equiv> log2_int \<bar>k\<bar>"
  shows "dbl_sign (dbl_of_int k) \<longleftrightarrow> k < 0" "dbl_exp (dbl_of_int k) = int l + 1023" "dbl_frac (dbl_of_int k) = \<bar>k\<bar> * 2 ^ (52 - l) - 2 ^ 52"
  using dbl_fields [OF dbl_of_int_uint(1) [OF assms(1,2)]] dbl_of_int_uint(2-4) [OF assms(1,2)] by (simp_all add: l_def)

lemma num2int_dbl_of_int:
  assumes "- (2 ^ 31) \<le> k" "k < 2 ^ 31"
  shows "num2int (dbl_of_int k) = k"
proof (cases "k = 0")
  case True
  then show ?thesis by (simp add: num2int_def dbl_of_int_def dbl_of_int_abs_def dbl_trunc_def dbl_exp_def dbl_frac_def)
next
  case False
  define l a where "l = log2_int \<bar>k\<bar>" and "a = \<bar>k\<bar>"
  have k: "\<bar>k\<bar> < 2 ^ 32" using assms by simp
  note f = dbl_of_int_fields [OF False k, folded l_def, folded a_def] and l = dbl_of_int_uint(4) [OF False k, folded l_def]
  have e: "dbl_exp (dbl_of_int k) \<noteq> 0x7ff" "dbl_exp (dbl_of_int k) \<noteq> 0" "max 1 (dbl_exp (dbl_of_int k)) = dbl_exp (dbl_of_int k)"
    "\<not> 1075 \<le> dbl_exp (dbl_of_int k)" "nat (1075 - dbl_exp (dbl_of_int k)) = 52 - l"
    using l unfolding f by simp_all
  have m: "2 ^ 52 + dbl_frac (dbl_of_int k) = a * 2 ^ (52 - l)" unfolding f by simp
  have "a * 2 ^ (52 - l) div 2 ^ (52 - l) = a" by simp
  then have "dbl_trunc (dbl_of_int k) = Some (if k < 0 then - a else a)"
    using e m f(1) by (simp add: dbl_trunc_def)
  then have "dbl_trunc (dbl_of_int k) = Some k" by (simp add: a_def)
  then show ?thesis using assms by (simp add: num2int_def)
qed

lemma dbl_of_int_number:
  assumes "\<bar>k\<bar> < 2 ^ 32"
  shows "\<not> dbl_isnan (dbl_of_int k)" "dbl_of_int k \<noteq> 2 ^ 63"
proof -
  show "\<not> dbl_isnan (dbl_of_int k)"
    using dbl_of_int_fields [of k] dbl_of_int_uint(4) [of k] assms
    by (cases "k = 0") (auto simp: dbl_isnan_def dbl_of_int_def dbl_of_int_abs_def dbl_exp_def)
  show "dbl_of_int k \<noteq> 2 ^ 63"
  proof (cases "k = 0")
    case True
    then show ?thesis by (simp add: dbl_of_int_def dbl_of_int_abs_def)
  next
    case False
    have "dbl_exp (2 ^ 63) = 0" by (simp add: dbl_exp_uint)
    then show ?thesis using dbl_of_int_fields(2) [OF False assms] by auto
  qed
qed

text \<open>Equal doubles have the same bits once minus zero is taken for zero.\<close>

definition plus_zero :: "u64 \<Rightarrow> u64" where
  "plus_zero d = (if d = 2 ^ 63 then 0 else d)"

lemma dbl_iszero_iff: "dbl_iszero d \<longleftrightarrow> d = 0 \<or> d = 2 ^ 63"
proof -
  have "dbl_iszero d \<longleftrightarrow> take_bit 63 d = 0" by (simp add: dbl_iszero_def take_bit_eq_mask)
  also have "\<dots> \<longleftrightarrow> uint (take_bit 63 d) = 0" by (simp only: unsigned_eq_0_iff)
  also have "\<dots> \<longleftrightarrow> uint d mod 2 ^ 63 = 0" unfolding uint_take_bit ..
  also have "\<dots> \<longleftrightarrow> uint d = 0 \<or> uint d = 2 ^ 63"
  proof -
    have "uint d = uint d div 2 ^ 63 * 2 ^ 63 + uint d mod 2 ^ 63" by simp
    then show ?thesis unfolding u64_top by (auto split: if_splits)
  qed
  also have "\<dots> \<longleftrightarrow> d = 0 \<or> d = 2 ^ 63" by (auto simp: word_uint_eq_iff)
  finally show ?thesis .
qed

lemma dbl_eq_iff: "dbl_eq a b \<longleftrightarrow> \<not> dbl_isnan a \<and> \<not> dbl_isnan b \<and> plus_zero a = plus_zero b"
  by (auto simp: dbl_eq_def dbl_iszero_iff plus_zero_def)

end
