(* ===== verification/LjTabMap.thy ===== *)
theory LjTabMap
  imports LjTab
begin

text \<open>
  The hash part of a table as a map from keys to values: the invariant of its chains, the three ways in
  which \<open>lj_tab_newkey\<close> takes a node for a new key, and the lookups.
\<close>

subsection \<open>Chains\<close>

text \<open>
  The chains of a hash part are given by the edges between nodes. Every node has one successor at most
  and one predecessor at most, and some rank decreases along the edges, so a walk ends.
\<close>

definition succ :: "node list \<Rightarrow> nat \<Rightarrow> nat \<Rightarrow> bool" where
  "succ ns i j \<longleftrightarrow> i < length ns \<and> n_next (ns ! i) = Some j"

definition chains_ok :: "node list \<Rightarrow> bool" where
  "chains_ok ns \<longleftrightarrow>
     (\<forall>i j. succ ns i j \<longrightarrow> j < length ns \<and> n_key (ns ! i) \<noteq> TNil \<and> n_key (ns ! j) \<noteq> TNil) \<and>
     (\<forall>i i' j. succ ns i j \<longrightarrow> succ ns i' j \<longrightarrow> i = i') \<and>
     (\<exists>r :: nat \<Rightarrow> nat. \<forall>i j. succ ns i j \<longrightarrow> r j < r i)"

lemma chains_okD:
  assumes "chains_ok ns"
  shows "succ ns i j \<Longrightarrow> j < length ns" "succ ns i j \<Longrightarrow> n_key (ns ! i) \<noteq> TNil" "succ ns i j \<Longrightarrow> n_key (ns ! j) \<noteq> TNil"
    "succ ns i j \<Longrightarrow> succ ns i' j \<Longrightarrow> i = i'" "\<exists>r :: nat \<Rightarrow> nat. \<forall>i j. succ ns i j \<longrightarrow> r j < r i"
  using assms unfolding chains_ok_def by blast+

abbreviation reaches :: "node list \<Rightarrow> nat \<Rightarrow> nat \<Rightarrow> bool" where "reaches ns \<equiv> (succ ns)\<^sup>*\<^sup>*"

lemma chain_find_walks:
  assumes "chains_ok ns" "i < length ns"
  shows "(\<exists>j. chain_find P ns i = Some (Some j) \<and> j < length ns \<and> P (n_key (ns ! j)) \<and> reaches ns i j) \<or>
    chain_find P ns i = Some None \<and> (\<forall>j. reaches ns i j \<longrightarrow> \<not> P (n_key (ns ! j)))"
proof -
  obtain r :: "nat \<Rightarrow> nat" where r: "\<And>i j. succ ns i j \<Longrightarrow> r j < r i" using chains_okD(5) [OF assms(1)] by blast
  show ?thesis using assms(2)
  proof (induction "r i" arbitrary: i rule: less_induct)
    case less
    show ?case
    proof (cases "P (n_key (ns ! i))")
      case True
      then show ?thesis using less.prems by (intro disjI1 exI [of _ i]) (simp add: chain_find.simps [of P ns i])
    next
      case miss: False
      show ?thesis
      proof (cases "n_next (ns ! i)")
        case None
        then have "reaches ns i j \<Longrightarrow> j = i" for j by (auto simp: succ_def elim: converse_rtranclpE)
        then show ?thesis using None miss by (auto simp: chain_find.simps [of P ns i])
      next
        case (Some k)
        then have e: "succ ns i k" using less.prems by (simp add: succ_def)
        have step: "chain_find P ns i = chain_find P ns k" using miss Some by (simp add: chain_find.simps [of P ns i])
        have "reaches ns i j \<Longrightarrow> j = i \<or> reaches ns k j" for j
          using Some by (auto simp: succ_def elim: converse_rtranclpE)
        then show ?thesis unfolding step
          using less.hyps [OF r [OF e] chains_okD(1) [OF assms(1) e]] miss converse_rtranclp_into_rtranclp [of "succ ns" i k] e by blast
      qed
    qed
  qed
qed

text \<open>The walk to the predecessor of a node that is further down the chain.\<close>

lemma chain_pred_finds:
  assumes "chains_ok ns" "reaches ns c n" "c \<noteq> n"
  shows "\<exists>p. chain_pred ns n c = Some p \<and> succ ns p n \<and> reaches ns c p"
  using assms(2,3)
proof (induction rule: converse_rtranclp_induct)
  case (step c k)
  have n: "n_next (ns ! c) = Some k" using step.hyps(1) by (simp add: succ_def)
  show ?case
  proof (cases "k = n")
    case True
    then show ?thesis using n step.hyps(1) by (simp add: chain_pred.simps [of ns n c])
  next
    case False
    then obtain p where "chain_pred ns n k = Some p" "succ ns p n" "reaches ns k p" using step.IH by blast
    then show ?thesis using n False step.hyps(1)
      by (intro exI [of _ p]) (simp add: chain_pred.simps [of ns n c] converse_rtranclp_into_rtranclp)
  qed
qed simp

text \<open>Chaining strings again changes nothing when no string after the node has that main node.\<close>

lemma rechain_same:
  assumes "chains_ok ns" "fr < length ns" "\<And>j s. n_key (ns ! j) = TStr s \<Longrightarrow> reaches ns fr j \<Longrightarrow> j \<noteq> fr \<Longrightarrow> hashmask t (SH s) \<noteq> n"
  shows "rechain SH t n ns fr = Some ns"
proof -
  obtain r :: "nat \<Rightarrow> nat" where r: "\<And>i j. succ ns i j \<Longrightarrow> r j < r i" using chains_okD(5) [OF assms(1)] by blast
  show ?thesis using assms(2,3)
  proof (induction "r fr" arbitrary: fr rule: less_induct)
    case less
    show ?case
    proof (cases "n_next (ns ! fr)")
      case None
      then show ?thesis by (simp add: rechain.simps [of SH t n ns fr])
    next
      case (Some nn)
      then have e: "succ ns fr nn" using less.prems(1) by (simp add: succ_def)
      have "reaches ns nn j \<Longrightarrow> j \<noteq> fr" for j
      proof -
        have "reaches ns nn j \<Longrightarrow> r j \<le> r nn" by (induction rule: rtranclp_induct) (use r in force)+
        then show "reaches ns nn j \<Longrightarrow> j \<noteq> fr" using r [OF e] by force
      qed
      then have "rechain SH t n ns nn = Some ns"
        using less.hyps [OF r [OF e] chains_okD(1) [OF assms(1) e]] less.prems(2) e by (meson converse_rtranclp_into_rtranclp)
      moreover have "n_key (ns ! nn) = TStr s \<Longrightarrow> hashmask t (SH s) \<noteq> n" for s
        using less.prems(2) [of nn s] e r [OF e] by fastforce
      ultimately show ?thesis using Some by (simp add: rechain.simps [of SH t n ns fr] split: tvalue.split)
    qed
  qed
qed

subsection \<open>The hash part as a map\<close>

text \<open>Keys as they are stored: minus zero is stored as zero, \<open>nil\<close> and NaN are not.\<close>

fun norm_key :: "tvalue \<Rightarrow> tvalue" where
  "norm_key (TNum d) = TNum (plus_zero d)"
| "norm_key k = k"

fun good_key :: "tvalue \<Rightarrow> bool" where
  "good_key TNil = False"
| "good_key (TNum d) = (\<not> dbl_isnan d)"
| "good_key k = True"

definition stored_key :: "tvalue \<Rightarrow> bool" where
  "stored_key k \<longleftrightarrow> good_key k \<and> norm_key k = k"

text \<open>
  The invariant of the nodes, for a function \<open>mp\<close> from keys to their main nodes. A key is found on the
  chain of its main node; a key away from its main node occupies the main node of no other.
\<close>

definition hash_ok :: "(tvalue \<Rightarrow> nat) \<Rightarrow> node list \<Rightarrow> bool" where
  "hash_ok mp ns \<longleftrightarrow> chains_ok ns \<and>
     (\<forall>j < length ns. n_key (ns ! j) \<noteq> TNil \<longrightarrow> stored_key (n_key (ns ! j)) \<and> reaches ns (mp (n_key (ns ! j))) j) \<and>
     (\<forall>j < length ns. n_key (ns ! j) = TNil \<longrightarrow> n_val (ns ! j) = TNil) \<and>
     (\<forall>i j. i < length ns \<longrightarrow> j < length ns \<longrightarrow> n_key (ns ! i) \<noteq> TNil \<longrightarrow> n_key (ns ! i) = n_key (ns ! j) \<longrightarrow> i = j) \<and>
     (\<forall>i j. i < length ns \<longrightarrow> j < length ns \<longrightarrow> n_key (ns ! i) \<noteq> TNil \<longrightarrow> mp (n_key (ns ! i)) \<noteq> i \<longrightarrow>
        n_key (ns ! j) \<noteq> TNil \<longrightarrow> mp (n_key (ns ! j)) \<noteq> i)"

lemma hash_okD:
  assumes "hash_ok mp ns"
  shows "chains_ok ns" "j < length ns \<Longrightarrow> n_key (ns ! j) \<noteq> TNil \<Longrightarrow> stored_key (n_key (ns ! j))"
    "j < length ns \<Longrightarrow> n_key (ns ! j) \<noteq> TNil \<Longrightarrow> reaches ns (mp (n_key (ns ! j))) j"
    "j < length ns \<Longrightarrow> n_key (ns ! j) = TNil \<Longrightarrow> n_val (ns ! j) = TNil"
    "i < length ns \<Longrightarrow> j < length ns \<Longrightarrow> n_key (ns ! i) \<noteq> TNil \<Longrightarrow> n_key (ns ! i) = n_key (ns ! j) \<Longrightarrow> i = j"
    "i < length ns \<Longrightarrow> j < length ns \<Longrightarrow> n_key (ns ! i) \<noteq> TNil \<Longrightarrow> mp (n_key (ns ! i)) \<noteq> i \<Longrightarrow>
        n_key (ns ! j) \<noteq> TNil \<Longrightarrow> mp (n_key (ns ! j)) \<noteq> i"
  using assms unfolding hash_ok_def by blast+

definition has_key :: "node list \<Rightarrow> tvalue \<Rightarrow> bool" where
  "has_key ns k \<longleftrightarrow> (\<exists>j < length ns. n_key (ns ! j) = k)"

definition hmap :: "node list \<Rightarrow> tvalue \<Rightarrow> tvalue" where
  "hmap ns k = (if k = TNil then TNil else case find (\<lambda>nd. n_key nd = k) ns of None \<Rightarrow> TNil | Some nd \<Rightarrow> n_val nd)"

lemma hmap_key:
  assumes "hash_ok mp ns" "j < length ns" "n_key (ns ! j) \<noteq> TNil"
  shows "hmap ns (n_key (ns ! j)) = n_val (ns ! j)"
proof -
  let ?P = "\<lambda>nd. n_key nd = n_key (ns ! j)"
  have "find ?P ns \<noteq> None" using nth_mem [OF assms(2)] unfolding find_None_iff by blast
  then obtain nd where f: "find ?P ns = Some nd" by blast
  then obtain i where i: "i < length ns" "nd = ns ! i" "n_key (ns ! i) = n_key (ns ! j)" unfolding find_Some_iff by blast
  then have "j = i" using hash_okD(5) [OF assms(1,2) i(1) assms(3)] by simp
  with f i(2) show ?thesis using assms(3) by (simp add: hmap_def)
qed

lemma hmap_no_key: "\<not> has_key ns k \<Longrightarrow> hmap ns k = TNil"
  by (auto simp: hmap_def has_key_def find_Some_iff split: option.split)

text \<open>Two hash parts with the same live entries are the same map.\<close>

lemma hmap_eqI:
  assumes "hash_ok mp ns" "hash_ok mp' ns'"
    and "\<And>j. j < length ns \<Longrightarrow> n_val (ns ! j) \<noteq> TNil \<Longrightarrow> \<exists>i < length ns'. n_key (ns' ! i) = n_key (ns ! j) \<and> n_val (ns' ! i) = n_val (ns ! j)"
    and "\<And>j. j < length ns' \<Longrightarrow> n_val (ns' ! j) \<noteq> TNil \<Longrightarrow> \<exists>i < length ns. n_key (ns ! i) = n_key (ns' ! j) \<and> n_val (ns ! i) = n_val (ns' ! j)"
  shows "hmap ns k = hmap ns' k"
proof -
  have half: "hmap ns1 k \<noteq> TNil \<Longrightarrow> hmap ns2 k = hmap ns1 k"
    if ok: "hash_ok m1 ns1" "hash_ok m2 ns2"
      and sub: "\<And>j. j < length ns1 \<Longrightarrow> n_val (ns1 ! j) \<noteq> TNil \<Longrightarrow> \<exists>i < length ns2. n_key (ns2 ! i) = n_key (ns1 ! j) \<and> n_val (ns2 ! i) = n_val (ns1 ! j)"
    for ns1 ns2 m1 m2
  proof -
    assume v: "hmap ns1 k \<noteq> TNil"
    then obtain j where j: "j < length ns1" "n_key (ns1 ! j) = k" "k \<noteq> TNil"
      using hmap_no_key [of ns1 k] by (auto simp: has_key_def hmap_def split: if_splits)
    have "hmap ns1 k = n_val (ns1 ! j)" using hmap_key [OF ok(1) j(1)] j by simp
    moreover from this v obtain i where "i < length ns2" "n_key (ns2 ! i) = k" "n_val (ns2 ! i) = n_val (ns1 ! j)"
      using sub [OF j(1)] j(2) by auto
    moreover from this have "hmap ns2 k = n_val (ns2 ! i)" using hmap_key [OF ok(2), of i] j(3) by simp
    ultimately show ?thesis by simp
  qed
  show ?thesis
  proof (cases "hmap ns k = TNil")
    case True
    then show ?thesis using half [OF assms(2,1) assms(4)] by metis
  next
    case False
    then show ?thesis using half [OF assms(1,2) assms(3)] by simp
  qed
qed

text \<open>Looking a key up.\<close>

lemma chain_find_key:
  assumes "hash_ok mp ns" "mp k < length ns" "k \<noteq> TNil"
    and P: "\<not> P TNil" "\<And>x. stored_key x \<Longrightarrow> P x \<longleftrightarrow> x = k"
  shows "(\<exists>j < length ns. chain_find P ns (mp k) = Some (Some j) \<and> n_key (ns ! j) = k) \<or>
    chain_find P ns (mp k) = Some None \<and> \<not> has_key ns k"
proof -
  note ok = hash_okD [OF assms(1)]
  have P_iff: "P (n_key (ns ! j)) \<longleftrightarrow> n_key (ns ! j) = k" if "j < length ns" for j
    using P ok(2) [OF that] assms(3) by (cases "n_key (ns ! j) = TNil") auto
  show ?thesis
  proof (cases "\<exists>j. chain_find P ns (mp k) = Some (Some j) \<and> j < length ns \<and> P (n_key (ns ! j)) \<and> reaches ns (mp k) j")
    case True
    then show ?thesis using P_iff by blast
  next
    case False
    then have none: "chain_find P ns (mp k) = Some None" "\<And>j. reaches ns (mp k) j \<Longrightarrow> \<not> P (n_key (ns ! j))"
      using chain_find_walks [OF ok(1) assms(2), of P] by blast+
    have "\<not> has_key ns k"
    proof
      assume "has_key ns k"
      then obtain j where j: "j < length ns" "n_key (ns ! j) = k" by (auto simp: has_key_def)
      then have "reaches ns (mp k) j" using ok(3) [of j] assms(3) by simp
      then show False using none(2) P_iff [OF j(1)] j(2) by blast
    qed
    then show ?thesis using none(1) by blast
  qed
qed

subsection \<open>A node for a new key\<close>

text \<open>Changing values, or the key of a node, leaves the chains as they are.\<close>

lemma succ_cong:
  "length ns' = length ns \<Longrightarrow> (\<And>i. i < length ns \<Longrightarrow> n_next (ns' ! i) = n_next (ns ! i)) \<Longrightarrow> succ ns' = succ ns"
  by (intro ext) (auto simp: succ_def)

lemma chains_okI:
  fixes r :: "nat \<Rightarrow> nat"
  assumes "\<And>i j. succ ns i j \<Longrightarrow> j < length ns \<and> n_key (ns ! i) \<noteq> TNil \<and> n_key (ns ! j) \<noteq> TNil \<and> r j < r i"
    and "\<And>i i' j. succ ns i j \<Longrightarrow> succ ns i' j \<Longrightarrow> i = i'"
  shows "chains_ok ns"
  using assms unfolding chains_ok_def by blast

lemma hash_okI:
  assumes "chains_ok ns"
    and "\<And>j. j < length ns \<Longrightarrow> n_key (ns ! j) \<noteq> TNil \<Longrightarrow> stored_key (n_key (ns ! j)) \<and> reaches ns (mp (n_key (ns ! j))) j"
    and "\<And>j. j < length ns \<Longrightarrow> n_key (ns ! j) = TNil \<Longrightarrow> n_val (ns ! j) = TNil"
    and "\<And>i j. i < length ns \<Longrightarrow> j < length ns \<Longrightarrow> n_key (ns ! i) \<noteq> TNil \<Longrightarrow> n_key (ns ! i) = n_key (ns ! j) \<Longrightarrow> i = j"
    and "\<And>i j. i < length ns \<Longrightarrow> j < length ns \<Longrightarrow> n_key (ns ! i) \<noteq> TNil \<Longrightarrow> mp (n_key (ns ! i)) \<noteq> i \<Longrightarrow>
        n_key (ns ! j) \<noteq> TNil \<Longrightarrow> mp (n_key (ns ! j)) \<noteq> i"
  shows "hash_ok mp ns"
  unfolding hash_ok_def using assms by blast

lemma hash_ok_values:
  assumes "hash_ok mp ns" "length ns' = length ns"
    and "\<And>i. i < length ns \<Longrightarrow> n_next (ns' ! i) = n_next (ns ! i) \<and> n_key (ns' ! i) = n_key (ns ! i)"
    and "\<And>i. i < length ns \<Longrightarrow> n_key (ns ! i) = TNil \<Longrightarrow> n_val (ns' ! i) = TNil"
  shows "hash_ok mp ns'"
proof -
  have s: "succ ns' = succ ns" using assms(2,3) by (intro succ_cong) simp_all
  have "chains_ok ns'" using hash_okD(1) [OF assms(1)] assms(2,3) unfolding chains_ok_def s by (auto simp: succ_def)
  then show ?thesis
    using hash_okD [OF assms(1)] assms(4) by (intro hash_okI) (simp_all add: s assms(2,3))
qed

lemma stored_not_nil: "stored_key k \<Longrightarrow> k \<noteq> TNil"
  by (auto simp: stored_key_def)

text \<open>A free node is on no chain.\<close>

lemma free_alone:
  assumes "hash_ok mp ns" "n_key (ns ! f) = TNil"
  shows "\<not> succ ns f j" "\<not> succ ns i f" "reaches ns f j \<Longrightarrow> j = f"
proof -
  show no: "\<not> succ ns f j" for j using chains_okD(2) [OF hash_okD(1) [OF assms(1)]] assms(2) by blast
  show "\<not> succ ns i f" using chains_okD(3) [OF hash_okD(1) [OF assms(1)]] assms(2) by blast
  show "reaches ns f j \<Longrightarrow> j = f" using no by (blast elim: converse_rtranclpE)
qed

lemma free_no_home:
  assumes "hash_ok mp ns" "n_key (ns ! f) = TNil" "j < length ns" "n_key (ns ! j) \<noteq> TNil"
  shows "mp (n_key (ns ! j)) \<noteq> f"
  using hash_okD(3) [OF assms(1,3,4)] free_alone(3) [OF assms(1,2), of j] assms(2,4) by auto

text \<open>The first way: the main node of the key holds no value.\<close>

lemma insert_main:
  assumes ok: "hash_ok mp ns" "stored_key k" "\<not> has_key ns k" and n: "mp k = n" "n < length ns" "n_val (ns ! n) = TNil"
    and ns': "ns' = ns[n := (ns ! n)\<lparr>n_key := k\<rparr>]"
  shows "hash_ok mp ns'" "hmap ns' = hmap ns"
proof -
  note o = hash_okD [OF ok(1)] and k = stored_not_nil [OF ok(2)]
  have len: "length ns' = length ns" by (simp add: ns')
  have at: "ns' ! i = (if i = n then (ns ! n)\<lparr>n_key := k\<rparr> else ns ! i)" if "i < length ns" for i
    using that by (auto simp: ns')
  have s: "succ ns' = succ ns" using at by (intro succ_cong len) simp
  have new: "n_key (ns ! i) \<noteq> k" if "i < length ns" for i using ok(3) that by (auto simp: has_key_def)
  show h: "hash_ok mp ns'"
  proof (rule hash_okI)
    show "chains_ok ns'" using o(1) unfolding chains_ok_def s len by (auto simp: succ_def at k)
    show "stored_key (n_key (ns' ! j)) \<and> reaches ns' (mp (n_key (ns' ! j))) j" if "j < length ns'" "n_key (ns' ! j) \<noteq> TNil" for j
      using that o(2,3) [of j] ok(2) n unfolding s len by (auto simp: at)
    show "n_val (ns' ! j) = TNil" if "j < length ns'" "n_key (ns' ! j) = TNil" for j
      using that o(4) [of j] k unfolding len by (auto simp: at split: if_splits)
    show "i = j" if "i < length ns'" "j < length ns'" "n_key (ns' ! i) \<noteq> TNil" "n_key (ns' ! i) = n_key (ns' ! j)" for i j
      using that o(5) [of i j] new [of i] new [of j] unfolding len by (auto simp: at split: if_splits)
    show "mp (n_key (ns' ! j)) \<noteq> i"
      if "i < length ns'" "j < length ns'" "n_key (ns' ! i) \<noteq> TNil" "mp (n_key (ns' ! i)) \<noteq> i" "n_key (ns' ! j) \<noteq> TNil" for i j
      using that o(6) [of i j] n(1) unfolding len by (auto simp: at split: if_splits)
  qed
  show "hmap ns' = hmap ns"
  proof (rule ext, rule hmap_eqI [OF h ok(1)])
    show "\<exists>i < length ns. n_key (ns ! i) = n_key (ns' ! j) \<and> n_val (ns ! i) = n_val (ns' ! j)" if "j < length ns'" "n_val (ns' ! j) \<noteq> TNil" for j
      using that n(3) unfolding len by (intro exI [of _ j]) (auto simp: at split: if_splits)
    show "\<exists>i < length ns'. n_key (ns' ! i) = n_key (ns ! j) \<and> n_val (ns' ! i) = n_val (ns ! j)" if "j < length ns" "n_val (ns ! j) \<noteq> TNil" for j
      using that n(3) unfolding len by (intro exI [of _ j]) (auto simp: at)
  qed
qed

text \<open>The second: the main node holds a key of its own, the new one goes into a free node after it.\<close>

lemma insert_after:
  assumes ok: "hash_ok mp ns" "stored_key k" "\<not> has_key ns k"
    and n: "mp k = n" "n < length ns" "n_key (ns ! n) \<noteq> TNil" "mp (n_key (ns ! n)) = n"
    and f: "f < length ns" "n_key (ns ! f) = TNil" and len: "length ns' = length ns"
    and at: "\<And>i. i < length ns \<Longrightarrow> ns' ! i =
        (if i = f then (ns ! f)\<lparr>n_key := k, n_next := n_next (ns ! n)\<rparr> else if i = n then (ns ! n)\<lparr>n_next := Some f\<rparr> else ns ! i)"
  shows "hash_ok mp ns'" "hmap ns' = hmap ns"
proof -
  note o = hash_okD [OF ok(1)] and k = stored_not_nil [OF ok(2)] and alone = free_alone [OF ok(1) f(2)]
  note c = chains_okD [OF o(1)]
  have nf: "n \<noteq> f" using n(3) f(2) by auto
  have new: "n_key (ns ! i) \<noteq> k" if "i < length ns" for i using ok(3) that by (auto simp: has_key_def)
  have s: "succ ns' i j \<longleftrightarrow> (if i = f then succ ns n j else if i = n then j = f else succ ns i j)" for i j
    using n(2) f(1) nf by (auto simp: succ_def len at)
  obtain r :: "nat \<Rightarrow> nat" where r: "\<And>i j. succ ns i j \<Longrightarrow> r j < r i" using c(5) by blast
  have step: "reaches ns' i j" if "succ ns i j" for i j
  proof (cases "i = n")
    case True
    then have "succ ns' n f" "succ ns' f j" using that nf by (simp_all add: s)
    then show ?thesis using True by (meson converse_rtranclp_into_rtranclp r_into_rtranclp)
  next
    case False
    then have "succ ns' i j" using that alone(1) by (auto simp: s)
    then show ?thesis by blast
  qed
  have keys: "n_key (ns' ! i) \<noteq> TNil" if "i < length ns" "n_key (ns ! i) \<noteq> TNil \<or> i = f" for i
    using that k by (auto simp: at)
  have edge: "j < length ns \<and> n_key (ns' ! i) \<noteq> TNil \<and> n_key (ns' ! j) \<noteq> TNil \<and>
      (if j = f then 2 * r n + 1 else 2 * r j + 2) < (if i = f then 2 * r n + 1 else 2 * r i + 2)" if e: "succ ns' i j" for i j
  proof -
    consider "i = f" "succ ns n j" | "i = n" "j = f" | "i \<noteq> f" "succ ns i j" using e by (auto simp: s split: if_splits)
    then show ?thesis
    proof cases
      case 1
      then have "j \<noteq> f" using alone(2) by blast
      then show ?thesis using 1 c(1,3) [OF 1(2)] r [OF 1(2)] f(1) keys by simp
    next
      case 2
      then show ?thesis using nf n(2,3) f(1) keys by simp
    next
      case 3
      then have "j \<noteq> f" "i < length ns" using alone(2) by (blast, simp add: succ_def)
      then show ?thesis using 3 c(1-3) [OF 3(2)] r [OF 3(2)] keys by simp
    qed
  qed
  have pred: "j = f \<and> i = n \<or> j \<noteq> f \<and> i \<noteq> n \<and> succ ns (if i = f then n else i) j" if "succ ns' i j" for i j
    using that alone(2) nf by (auto simp: s split: if_splits)
  have walk: "reaches ns' a b" if "reaches ns a b" for a b
    using that by (induction rule: rtranclp_induct) (use step in \<open>auto intro: rtranclp_trans\<close>)
  show h: "hash_ok mp ns'"
  proof (rule hash_okI)
    show "chains_ok ns'"
    proof (rule chains_okI)
      fix i j
      assume e: "succ ns' i j"
      then show "j < length ns' \<and> n_key (ns' ! i) \<noteq> TNil \<and> n_key (ns' ! j) \<noteq> TNil \<and>
          (\<lambda>i. if i = f then 2 * r n + 1 else 2 * r i + 2) j < (\<lambda>i. if i = f then 2 * r n + 1 else 2 * r i + 2) i"
        using edge [OF e] by (simp add: len)
    next
      fix i i' j
      assume e: "succ ns' i j" "succ ns' i' j"
      have "(if i = f then n else i) = (if i' = f then n else i')" if "j \<noteq> f"
        using c(4) that pred [OF e(1)] pred [OF e(2)] by blast
      then show "i = i'" using pred [OF e(1)] pred [OF e(2)] by (cases "j = f") (simp_all split: if_splits)
    qed
    show "stored_key (n_key (ns' ! j)) \<and> reaches ns' (mp (n_key (ns' ! j))) j" if "j < length ns'" "n_key (ns' ! j) \<noteq> TNil" for j
    proof (cases "j = f")
      case True
      have "succ ns' n f" using nf by (simp add: s)
      then show ?thesis using True ok(2) n(1) f(1) by (simp add: at r_into_rtranclp)
    next
      case False
      then show ?thesis using that o(2,3) [of j] walk unfolding len by (auto simp: at)
    qed
    show "n_val (ns' ! j) = TNil" if "j < length ns'" "n_key (ns' ! j) = TNil" for j
      using that o(4) [of j] k unfolding len by (auto simp: at split: if_splits)
    show "i = j" if "i < length ns'" "j < length ns'" "n_key (ns' ! i) \<noteq> TNil" "n_key (ns' ! i) = n_key (ns' ! j)" for i j
      using that o(5) [of i j] new [of i] new [of j] unfolding len by (auto simp: at split: if_splits)
    show "mp (n_key (ns' ! j)) \<noteq> i"
      if "i < length ns'" "j < length ns'" "n_key (ns' ! i) \<noteq> TNil" "mp (n_key (ns' ! i)) \<noteq> i" "n_key (ns' ! j) \<noteq> TNil" for i j
    proof -
      have key: "n_key (ns' ! i) = (if i = f then k else n_key (ns ! i))" if "i < length ns" for i using that by (simp add: at)
      show ?thesis
        using that o(6) [of i j] n(1,4) nf free_no_home [OF ok(1) f(2), of j] unfolding len by (cases "i = n") (simp_all add: key split: if_splits)
    qed
  qed
  show "hmap ns' = hmap ns"
  proof (rule ext, rule hmap_eqI [OF h ok(1)])
    show "\<exists>i < length ns. n_key (ns ! i) = n_key (ns' ! j) \<and> n_val (ns ! i) = n_val (ns' ! j)" if "j < length ns'" "n_val (ns' ! j) \<noteq> TNil" for j
      using that o(4) [OF f] unfolding len by (intro exI [of _ j]) (auto simp: at split: if_splits)
    show "\<exists>i < length ns'. n_key (ns' ! i) = n_key (ns ! j) \<and> n_val (ns' ! i) = n_val (ns ! j)" if "j < length ns" "n_val (ns ! j) \<noteq> TNil" for j
      using that o(4) [OF f] unfolding len by (intro exI [of _ j]) (auto simp: at)
  qed
qed

text \<open>
  The third: the main node is taken by a key whose own main node is another. That key moves to a free
  node, its predecessor points there, and the new key starts a chain at its main node.
\<close>

lemma insert_moving:
  assumes ok: "hash_ok mp ns" "stored_key k" "\<not> has_key ns k"
    and n: "mp k = n" "n < length ns" "n_key (ns ! n) \<noteq> TNil" "mp (n_key (ns ! n)) \<noteq> n"
    and f: "f < length ns" "n_key (ns ! f) = TNil" and p: "succ ns p n" and len: "length ns' = length ns"
    and at: "\<And>i. i < length ns \<Longrightarrow> ns' ! i =
        (if i = f then \<lparr>n_val = n_val (ns ! n), n_key = n_key (ns ! n), n_next = n_next (ns ! n)\<rparr>
         else if i = n then \<lparr>n_val = TNil, n_key = k', n_next = None\<rparr>
         else if i = p then (ns ! p)\<lparr>n_next := Some f\<rparr> else ns ! i)"
    and k': "k' \<noteq> TNil"
  shows "chains_ok ns'" "k' = k \<Longrightarrow> hash_ok mp ns'" "k' = k \<Longrightarrow> hmap ns' = hmap ns"
proof -
  note o = hash_okD [OF ok(1)] and k = stored_not_nil [OF ok(2)] and alone = free_alone [OF ok(1) f(2)]
  note c = chains_okD [OF o(1)]
  obtain r :: "nat \<Rightarrow> nat" where r: "\<And>i j. succ ns i j \<Longrightarrow> r j < r i" using c(5) by blast
  have d: "n \<noteq> f" "p \<noteq> f" "p \<noteq> n" "p < length ns"
    using n(3) f(2) alone(1) p r [OF p] by (auto simp: succ_def)
  have new: "n_key (ns ! i) \<noteq> k" if "i < length ns" for i using ok(3) that by (auto simp: has_key_def)
  have s: "succ ns' i j \<longleftrightarrow> (if i = f then succ ns n j else if i = n then False else if i = p then j = f else succ ns i j)" for i j
    using n(2) f(1) d by (auto simp: succ_def len at)
  have key: "n_key (ns' ! i) = (if i = f then n_key (ns ! n) else if i = n then k' else n_key (ns ! i))" if "i < length ns" for i
    using that by (simp add: at)
  have val: "n_val (ns' ! i) = (if i = f then n_val (ns ! n) else if i = n then TNil else n_val (ns ! i))" if "i < length ns" for i
    using that by (simp add: at)
  have edge: "j = f \<and> i = p \<or> j \<noteq> f \<and> j \<noteq> n \<and> i \<noteq> n \<and> i \<noteq> p \<and> succ ns (if i = f then n else i) j" if e: "succ ns' i j" for i j
  proof -
    consider "i = f" "succ ns n j" | "i = p" "j = f" | "i \<noteq> f" "i \<noteq> n" "i \<noteq> p" "succ ns i j" using e by (auto simp: s split: if_splits)
    then show ?thesis
    proof cases
      case 1
      then have "j \<noteq> n" using r [of n j] by auto
      then show ?thesis using 1 d alone(2) by auto
    next
      case 3
      then have "j \<noteq> n" using c(4) [OF p] by blast
      then show ?thesis using 3 alone(2) by auto
    qed simp
  qed
  show ch: "chains_ok ns'"
  proof (rule chains_okI)
    fix i j
    assume e: "succ ns' i j"
    show "j < length ns' \<and> n_key (ns' ! i) \<noteq> TNil \<and> n_key (ns' ! j) \<noteq> TNil \<and>
        (\<lambda>i. if i = f then r n else r i) j < (\<lambda>i. if i = f then r n else r i) i"
      using edge [OF e]
    proof (elim disjE conjE)
      assume "j = f" "i = p"
      then show ?thesis using d f n(2,3) c(2) [OF p] r [OF p] by (simp add: len key)
    next
      assume x: "j \<noteq> f" "j \<noteq> n" "i \<noteq> n" "succ ns (if i = f then n else i) j"
      have "i < length ns" using e by (simp add: succ_def len)
      then show ?thesis using x(1-3) c(1-3) [OF x(4)] r [OF x(4)] k' by (simp add: len key split: if_splits)
    qed
  next
    fix i i' j
    assume e: "succ ns' i j" "succ ns' i' j"
    have "(if i = f then n else i) = (if i' = f then n else i')" if "j \<noteq> f"
      using c(4) that edge [OF e(1)] edge [OF e(2)] by blast
    then show "i = i'" using edge [OF e(1)] edge [OF e(2)] by (cases "j = f") (simp_all split: if_splits)
  qed
  define h where "h = (\<lambda>i. if i = n then f else i)"
  have step: "succ ns' (h i) (h j)" if e: "succ ns i j" for i j
  proof -
    have "i \<noteq> f" "j \<noteq> f" using e alone by blast+
    moreover have "j \<noteq> n" if "i \<noteq> p" using c(4) [OF p] e that by blast
    moreover have "j = n" if "i = p" using e p that by (simp add: succ_def)
    ultimately show ?thesis using e d by (cases "i = n") (simp_all add: h_def s)
  qed
  have walk: "reaches ns' (h a) (h b)" if "reaches ns a b" for a b
    using that
  proof (induction rule: rtranclp_induct)
    case (step y z)
    then show ?case using \<open>\<And>i j. succ ns i j \<Longrightarrow> succ ns' (h i) (h j)\<close> by (meson rtranclp.rtrancl_into_rtrancl)
  qed simp
  show ok': "hash_ok mp ns'" if kk: "k' = k"
  proof (rule hash_okI [OF ch])
    show "stored_key (n_key (ns' ! j)) \<and> reaches ns' (mp (n_key (ns' ! j))) j" if j: "j < length ns'" "n_key (ns' ! j) \<noteq> TNil" for j
    proof -
      consider "j = n" | "j = f" | "j \<noteq> n" "j \<noteq> f" by blast
      then show ?thesis
      proof cases
        case 1
        then show ?thesis using ok(2) n(1,2) d kk by (simp add: key)
      next
        case 2
        then show ?thesis using o(2,3) [OF n(2,3)] walk [of "mp (n_key (ns ! n))" n] n(4) f(1) by (simp add: key h_def)
      next
        case 3
        then have "mp (n_key (ns ! j)) \<noteq> n" using o(6) [of n j] n j by (simp add: key len)
        then show ?thesis using 3 o(2,3) [of j] walk [of "mp (n_key (ns ! j))" j] j by (simp add: key len h_def)
      qed
    qed
    show "n_val (ns' ! j) = TNil" if "j < length ns'" "n_key (ns' ! j) = TNil" for j
      using that o(4) [of j] k' n(3) unfolding len by (simp add: key val split: if_splits)
    show "i = j" if "i < length ns'" "j < length ns'" "n_key (ns' ! i) \<noteq> TNil" "n_key (ns' ! i) = n_key (ns' ! j)" for i j
    proof -
      have "i = j" if "i < length ns" "j < length ns" "n_key (ns ! i) \<noteq> TNil" "n_key (ns ! i) = n_key (ns ! j)" for i j
        using that o(5) by blast
      then show ?thesis
        using that new [of i] new [of j] new [OF n(2)] n(2,3) kk unfolding len by (simp add: key split: if_splits)
    qed
    show "mp (n_key (ns' ! j)) \<noteq> i"
      if x: "i < length ns'" "j < length ns'" "n_key (ns' ! i) \<noteq> TNil" "mp (n_key (ns' ! i)) \<noteq> i" "n_key (ns' ! j) \<noteq> TNil" for i j
    proof -
      have in_f: "mp (n_key (ns ! j)) \<noteq> f" if "j < length ns" "n_key (ns ! j) \<noteq> TNil" for j
        using that free_no_home [OF ok(1) f(2)] by blast
      consider "i = n" | "i = f" | "i \<noteq> n" "i \<noteq> f" by blast
      then show ?thesis
      proof cases
        case 1
        then show ?thesis using x n(1,2) d kk by (simp add: key)
      next
        case 2
        then show ?thesis using x in_f n d kk by (simp add: key len split: if_splits)
      next
        case 3
        have i: "i < length ns" "n_key (ns ! i) \<noteq> TNil" "mp (n_key (ns ! i)) \<noteq> i" using x 3 by (simp_all add: key len)
        consider "j = f" | "j = n" | "j \<noteq> f" "j \<noteq> n" by blast
        then show ?thesis
        proof cases
          case 1
          then show ?thesis using o(6) [OF i(1) n(2) i(2,3) n(3)] f(1) by (simp add: key)
        next
          case 2
          then show ?thesis using n(1,2) d 3 kk by (simp add: key)
        next
          case 3
          then show ?thesis using o(6) [OF i(1) _ i(2,3), of j] x by (simp add: key len)
        qed
      qed
    qed
  qed
  show "hmap ns' = hmap ns" if kk: "k' = k"
  proof (rule ext, rule hmap_eqI [OF ok' [OF kk] ok(1)])
    fix j
    assume j: "j < length ns'" "n_val (ns' ! j) \<noteq> TNil"
    show "\<exists>i < length ns. n_key (ns ! i) = n_key (ns' ! j) \<and> n_val (ns ! i) = n_val (ns' ! j)"
    proof (cases "j = f")
      case True
      then show ?thesis using n(2) f(1) by (intro exI [of _ n]) (simp add: key val)
    next
      case False
      then have "j \<noteq> n" using j len by (auto simp: val)
      then show ?thesis using False j len by (intro exI [of _ j]) (simp add: key val)
    qed
  next
    fix j
    assume j: "j < length ns" "n_val (ns ! j) \<noteq> TNil"
    then have jf: "j \<noteq> f" using o(4) [OF f] by blast
    show "\<exists>i < length ns'. n_key (ns' ! i) = n_key (ns ! j) \<and> n_val (ns' ! i) = n_val (ns ! j)"
    proof (cases "j = n")
      case True
      then show ?thesis using f(1) len by (intro exI [of _ f]) (simp add: key val)
    next
      case False
      then show ?thesis using jf j len by (intro exI [of _ j]) (simp add: key val)
    qed
  qed
qed

subsection \<open>The hash part of a table\<close>

text \<open>
  A table with nodes of its own has \<open>2 ^ hb\<close> of them, and those from \<open>freetop\<close> on have been used; one
  without shares the empty node.
\<close>

definition hpart_ok :: "(u32 \<Rightarrow> u32) \<Rightarrow> gctab \<Rightarrow> bool" where
  "hpart_ok SH t \<longleftrightarrow>
     (\<exists>hb \<le> LJ_MAX_HBITS. length (t_node t) = 2 ^ hb) \<and>
     hash_ok (hashkey SH t) (t_node t) \<and>
     t_freetop t \<le> length (t_node t) \<and>
     (\<forall>i < length (t_node t). 0 < hmask t \<longrightarrow> t_freetop t \<le> i \<longrightarrow> n_key (t_node t ! i) \<noteq> TNil) \<and>
     (hmask t = 0 \<longrightarrow> t_node t = [nilnode] \<and> t_freetop t = 0)"

lemma hpart_okD:
  assumes "hpart_ok SH t"
  shows "\<exists>hb \<le> LJ_MAX_HBITS. length (t_node t) = 2 ^ hb" "hash_ok (hashkey SH t) (t_node t)"
    "t_freetop t \<le> length (t_node t)"
    "i < length (t_node t) \<Longrightarrow> 0 < hmask t \<Longrightarrow> t_freetop t \<le> i \<Longrightarrow> n_key (t_node t ! i) \<noteq> TNil"
    "hmask t = 0 \<Longrightarrow> t_node t = [nilnode]" "hmask t = 0 \<Longrightarrow> t_freetop t = 0"
  using assms unfolding hpart_ok_def by blast+

text \<open>The mask keeps a hash within the nodes.\<close>

lemma hashmask_eq:
  assumes "length (t_node t) = 2 ^ hb" "hb \<le> LJ_MAX_HBITS"
  shows "hashmask t h = unat h mod 2 ^ hb"
proof -
  have b: "hb < 32" using assms(2) by (simp add: LJ_MAX_HBITS_def)
  have "(of_nat (2 ^ hb - 1) :: u32) = mask hb" by (simp add: mask_eq_exp_minus_1 of_nat_diff)
  then have "h AND of_nat (hmask t) = take_bit hb h" using assms(1) by (simp add: hmask_def take_bit_eq_mask)
  then show ?thesis by (simp only: hashmask_def unsigned_take_bit_eq take_bit_eq_mod [of hb "unat h"])
qed

lemma hashkey_hashmask: "\<exists>h. \<forall>t. hashkey SH t k = hashmask t h"
  by (cases k) (auto simp: hashnum_def hashgcref_def)

lemma hashkey_cong:
  assumes "length (t_node t') = length (t_node t)"
  shows "hashkey SH t' = hashkey SH t"
proof
  fix k
  obtain h where "\<And>t. hashkey SH t k = hashmask t h" using hashkey_hashmask by metis
  then show "hashkey SH t' k = hashkey SH t k" using assms by (simp add: hashmask_def hmask_def)
qed

lemma hashkey_less:
  assumes "hpart_ok SH t"
  shows "hashkey SH t k < length (t_node t)"
proof -
  obtain h where h: "\<And>t. hashkey SH t k = hashmask t h" using hashkey_hashmask by metis
  obtain hb where "hb \<le> LJ_MAX_HBITS" "length (t_node t) = 2 ^ hb" using hpart_okD(1) [OF assms] by blast
  then show ?thesis by (simp add: h hashmask_eq)
qed

lemma find_free_node_Some: "find_free_node ns fr = Some f \<Longrightarrow> f < fr \<and> n_key (ns ! f) = TNil \<and> (\<forall>i. f < i \<longrightarrow> i < fr \<longrightarrow> n_key (ns ! i) \<noteq> TNil)"
  by (induction fr) (auto split: if_splits simp: less_Suc_eq)

lemma find_free_node_None: "find_free_node ns fr = None \<longleftrightarrow> (\<forall>i < fr. n_key (ns ! i) \<noteq> TNil)"
  by (induction fr) (auto simp: less_Suc_eq)

text \<open>Moving the colliding node: the predecessor is found, and no string is chained again.\<close>

lemma move_colliding_moves:
  assumes ok: "hpart_ok SH t" "stored_key k" "\<not> has_key (t_node t) k"
    and n: "n = hashkey SH t k" "n_key (t_node t ! n) \<noteq> TNil" "hashkey SH t (n_key (t_node t ! n)) = c" "c \<noteq> n"
    and f: "f < length (t_node t)" "n_key (t_node t ! f) = TNil" and u: "t_node u = t_node t"
  obtains ns p where "move_colliding SH u n f c (t_node t) = Some ns" "succ (t_node t) p n" "length ns = length (t_node t)"
    "\<And>i. i < length (t_node t) \<Longrightarrow> ns ! i =
        (if i = f then \<lparr>n_val = n_val (t_node t ! n), n_key = n_key (t_node t ! n), n_next = n_next (t_node t ! n)\<rparr>
         else if i = n then \<lparr>n_val = TNil, n_key = n_key (t_node t ! n), n_next = None\<rparr>
         else if i = p then (t_node t ! p)\<lparr>n_next := Some f\<rparr> else t_node t ! i)"
proof -
  note h = hpart_okD(2) [OF ok(1)]
  note o = hash_okD [OF h]
  have nl: "n < length (t_node t)" using hashkey_less [OF ok(1)] n(1) by simp
  obtain p where p: "chain_pred (t_node t) n c = Some p" "succ (t_node t) p n"
    using chain_pred_finds [OF o(1) _ n(4)] o(3) [OF nl n(2)] n(3) by blast
  have d: "p < length (t_node t)" "p \<noteq> f" "n \<noteq> f" using p(2) free_alone(1) [OF h f(2)] n(2) f(2) by (auto simp: succ_def)
  have pn: "p \<noteq> n" using p(2) chains_okD(5) [OF o(1)] by fastforce
  have eta: "\<lparr>n_val = n_val nd, n_key = n_key nd, n_next = n_next nd\<rparr> = nd" for nd :: node by simp
  let ?ns = "((t_node t)[p := (t_node t ! p)\<lparr>n_next := Some f\<rparr>, f := t_node t ! n, n := (t_node t ! n)\<lparr>n_next := None, n_val := TNil\<rparr>])"
  have len: "length ?ns = length (t_node t)" by simp
  have at: "?ns ! i =
      (if i = f then \<lparr>n_val = n_val (t_node t ! n), n_key = n_key (t_node t ! n), n_next = n_next (t_node t ! n)\<rparr>
       else if i = n then \<lparr>n_val = TNil, n_key = n_key (t_node t ! n), n_next = None\<rparr>
       else if i = p then (t_node t ! p)\<lparr>n_next := Some f\<rparr> else t_node t ! i)" if "i < length (t_node t)" for i
    using that d pn nl f(1) by simp
  have ch: "chains_ok ?ns"
    using insert_moving(1) [OF h ok(2,3) n(1) [symmetric] nl n(2) _ f p(2) len at n(2)] n(3,4) by blast
  have same: "rechain SH u n ?ns f = Some ?ns"
  proof (rule rechain_same [OF ch])
    show "f < length ?ns" using f(1) by simp
    fix j s
    assume j: "n_key (?ns ! j) = TStr s" "reaches ?ns f j" "j \<noteq> f"
    then have "j < length (t_node t)"
      using chains_okD(1) [OF ch] len by (auto elim: rtranclp.cases)
    then have "n_key (t_node t ! j) = TStr s" using j(1,3) by (simp only: at) (auto split: if_splits)
    then have "hashmask t (SH s) \<noteq> n"
      using o(6) [OF nl \<open>j < length (t_node t)\<close> n(2)] n(3,4) by simp
    then show "hashmask u (SH s) \<noteq> n" by (simp add: hashmask_def hmask_def u)
  qed
  have "move_colliding SH u n f c (t_node t) = rechain SH u n ?ns f"
    using p(1) pn d(3) nl by (simp add: move_colliding_def Let_def eta)
  with same that [OF _ p(2) len at] show ?thesis by simp
qed

lemma hmask_pos: "0 < hmask t \<longleftrightarrow> 1 < length (t_node t)"
  by (auto simp: hmask_def)

lemma hpart_ok_update:
  assumes "hpart_ok SH t" "0 < hmask t" "length ns = length (t_node t)" "hash_ok (hashkey SH t) ns"
    and "fr \<le> t_freetop t" "\<And>i. i < length ns \<Longrightarrow> fr \<le> i \<Longrightarrow> n_key (ns ! i) \<noteq> TNil"
  shows "hpart_ok SH (t\<lparr>t_node := ns, t_freetop := fr\<rparr>)"
proof -
  have "hashkey SH (t\<lparr>t_node := ns, t_freetop := fr\<rparr>) = hashkey SH t" by (rule hashkey_cong) (simp add: assms(3))
  then show ?thesis using hpart_okD(1,3) [OF assms(1)] assms(2-6) unfolding hpart_ok_def hmask_def by auto
qed

text \<open>The nodes that no key has taken yet.\<close>

definition free_nodes :: "node list \<Rightarrow> nat set" where
  "free_nodes ns = (if length ns \<le> 1 then {} else {i. i < length ns \<and> n_key (ns ! i) = TNil})"

definition room :: "gctab \<Rightarrow> nat" where "room t = card (free_nodes (t_node t))"

lemma finite_free_nodes [simp]: "finite (free_nodes ns)"
  by (simp add: free_nodes_def)

lemma room_le: "free_nodes (t_node t) \<subseteq> insert n (free_nodes (t_node t')) \<Longrightarrow> room t \<le> Suc (room t')"
  using card_mono [of "insert n (free_nodes (t_node t'))" "free_nodes (t_node t)"] by (auto simp: room_def card_insert_if split: if_splits)

lemma room_find_free:
  assumes "hpart_ok SH t" "0 < room t"
  shows "find_free_node (t_node t) (t_freetop t) \<noteq> None" "0 < hmask t"
proof -
  obtain i where i: "i < length (t_node t)" "n_key (t_node t ! i) = TNil" "1 < length (t_node t)"
    using assms(2) by (fastforce simp: room_def free_nodes_def card_gt_0_iff split: if_splits)
  then show h: "0 < hmask t" by (simp add: hmask_pos)
  then have "i < t_freetop t" using hpart_okD(4) [OF assms(1) i(1)] i(2) by (meson not_le)
  then show "find_free_node (t_node t) (t_freetop t) \<noteq> None" using i(2) by (auto simp: find_free_node_None)
qed

text \<open>What \<open>lj_tab_newkey\<close> does unless it has to resize the table.\<close>

definition placed :: "(u32 \<Rightarrow> u32) \<Rightarrow> gctab \<Rightarrow> tvalue \<Rightarrow> nat \<Rightarrow> gctab \<Rightarrow> bool" where
  "placed SH t k n t' \<longleftrightarrow> hpart_ok SH t' \<and> n < length (t_node t') \<and> n_key (t_node t' ! n) = k \<and>
     hmap (t_node t') = hmap (t_node t) \<and> (\<forall>x. has_key (t_node t') x \<longrightarrow> x = k \<or> has_key (t_node t) x) \<and>
     length (t_node t') = length (t_node t) \<and> room t \<le> Suc (room t') \<and>
     t_array t' = t_array t \<and> t_colo t' = t_colo t \<and> t_nomm t' = t_nomm t"

lemma newkey_places:
  assumes ok: "hpart_ok SH t" "stored_key k" "\<not> has_key (t_node t) k"
    and room: "find_free_node (t_node t) (t_freetop t) \<noteq> None \<or> n_val (t_node t ! hashkey SH t k) = TNil \<and> 0 < hmask t"
  shows "\<exists>n t'. lj_tab_newkey SH oom (Suc d) t k = Some (Inr (NodeSlot n), t') \<and> placed SH t k n t'"
proof -
  define n where "n = hashkey SH t k"
  note h = hpart_okD(2) [OF ok(1)]
  have nl: "n < length (t_node t)" using hashkey_less [OF ok(1)] by (simp add: n_def)
  have k: "\<not> tvismzero k" "k \<noteq> TNil" using ok(2) by (auto simp: stored_key_def tvismzero_def plus_zero_def)
  have hm: "0 < hmask t"
    using room hpart_okD(6) [OF ok(1)] by (cases "hmask t = 0") auto
  have pl: "placed SH t k m (t\<lparr>t_node := ns, t_freetop := fr\<rparr>)"
    if "length ns = length (t_node t)" "m < length ns" "n_key (ns ! m) = k" "hash_ok (hashkey SH t) ns" "hmap ns = hmap (t_node t)"
      "fr \<le> t_freetop t" "\<And>i. i < length ns \<Longrightarrow> fr \<le> i \<Longrightarrow> n_key (ns ! i) \<noteq> TNil"
      "free_nodes (t_node t) \<subseteq> insert x (free_nodes ns)" "\<And>x. has_key ns x \<Longrightarrow> x = k \<or> has_key (t_node t) x" for m ns fr x
    using that hpart_ok_update [OF ok(1) hm that(1,4,6,7)] room_le [of t x "t\<lparr>t_node := ns, t_freetop := fr\<rparr>"]
    unfolding placed_def by simp
  show ?thesis
  proof (cases "n_val (t_node t ! n) = TNil")
    case True
    let ?ns = "(t_node t)[n := (t_node t ! n)\<lparr>n_key := k\<rparr>]"
    have "placed SH t k n (t\<lparr>t_node := ?ns, t_freetop := t_freetop t\<rparr>)"
    proof (rule pl [where x = n])
      show "hash_ok (hashkey SH t) ?ns" "hmap ?ns = hmap (t_node t)"
        using insert_main [OF h ok(2,3) n_def [symmetric] nl True refl] by blast+
      show "n_key (?ns ! i) \<noteq> TNil" if "i < length ?ns" "t_freetop t \<le> i" for i
        using that hpart_okD(4) [OF ok(1) _ hm] k by (cases "i = n") simp_all
      show "free_nodes (t_node t) \<subseteq> insert n (free_nodes ?ns)" by (auto simp: free_nodes_def)
      show "x = k \<or> has_key (t_node t) x" if hk: "has_key ?ns x" for x
      proof -
        obtain j where "j < length (t_node t)" "n_key (?ns ! j) = x" using hk by (auto simp: has_key_def)
        then show ?thesis using nl by (cases "j = n") (auto simp: has_key_def)
      qed
    qed (use nl in simp_all)
    then show ?thesis using True hm k(1) by (auto simp: set_key_def Let_def simp flip: n_def)
  next
    case False
    then obtain f where ff: "find_free_node (t_node t) (t_freetop t) = Some f" using room by (auto simp flip: n_def)
    note fs = find_free_node_Some [OF ff]
    have f: "f < length (t_node t)" "n_key (t_node t ! f) = TNil" using fs hpart_okD(3) [OF ok(1)] by auto
    have nk: "n_key (t_node t ! n) \<noteq> TNil" using hash_okD(4) [OF h nl] False by blast
    have nf: "n \<noteq> f" using nk f(2) by auto
    let ?t = "t\<lparr>t_freetop := f\<rparr>"
    have hk: "hashkey SH ?t = hashkey SH t" by (rule hashkey_cong) simp
    have used: "n_key (t_node t ! i) \<noteq> TNil" if "i < length (t_node t)" "f \<le> i" "i \<noteq> f" for i
      using that fs hpart_okD(4) [OF ok(1) _ hm, of i] by (cases "i < t_freetop t") simp_all
    have step: "lj_tab_newkey SH oom (Suc d) t k =
       (let ns = t_node t; collide = hashkey SH t (n_key (ns ! n)) in
        if collide \<noteq> n then do { ns \<leftarrow> move_colliding SH ?t n f collide ns; set_key n k (?t\<lparr>t_node := ns\<rparr>) }
        else let ns = ns[f := (ns ! f)\<lparr>n_next := n_next (ns ! n)\<rparr>]; ns = ns[n := (ns ! n)\<lparr>n_next := Some f\<rparr>] in
          set_key f k (?t\<lparr>t_node := ns\<rparr>))"
      using False ff by (simp add: hk Let_def flip: n_def)
    show ?thesis
    proof (cases "hashkey SH t (n_key (t_node t ! n)) = n")
      case home: True
      define ns where "ns = (t_node t)[f := (t_node t ! f)\<lparr>n_next := n_next (t_node t ! n), n_key := k\<rparr>, n := (t_node t ! n)\<lparr>n_next := Some f\<rparr>]"
      have len: "length ns = length (t_node t)" by (simp add: ns_def)
      have at: "ns ! i = (if i = f then (t_node t ! f)\<lparr>n_key := k, n_next := n_next (t_node t ! n)\<rparr>
          else if i = n then (t_node t ! n)\<lparr>n_next := Some f\<rparr> else t_node t ! i)" if "i < length (t_node t)" for i
        using that nf nl f(1) by (simp add: ns_def)
      have "placed SH t k f (t\<lparr>t_node := ns, t_freetop := f\<rparr>)"
      proof (rule pl [where x = f, OF len])
        show "hash_ok (hashkey SH t) ns" "hmap ns = hmap (t_node t)"
          using insert_after [OF h ok(2,3) n_def [symmetric] nl nk home f len at] by blast+
        show "n_key (ns ! i) \<noteq> TNil" if "i < length ns" "f \<le> i" for i
          using that used [of i] k(2) by (cases "i = n") (simp_all add: len at)
        show "free_nodes (t_node t) \<subseteq> insert f (free_nodes ns)" using nk by (auto simp: free_nodes_def len at)
        show "x = k \<or> has_key (t_node t) x" if "has_key ns x" for x
          using that nl by (auto simp: has_key_def len at split: if_splits)
      qed (use f fs in \<open>simp_all add: len at\<close>)
      moreover have "lj_tab_newkey SH oom (Suc d) t k = Some (Inr (NodeSlot f), t\<lparr>t_node := ns, t_freetop := f\<rparr>)"
        unfolding step using home nf nl f(1) k(1) by (simp add: Let_def set_key_def ns_def list_update_swap)
      ultimately show ?thesis by blast
    next
      case away: False
      obtain ns0 p where mv: "move_colliding SH ?t n f (hashkey SH t (n_key (t_node t ! n))) (t_node t) = Some ns0"
        and p: "succ (t_node t) p n" and len0: "length ns0 = length (t_node t)"
        and at0: "\<And>i. i < length (t_node t) \<Longrightarrow> ns0 ! i =
          (if i = f then \<lparr>n_val = n_val (t_node t ! n), n_key = n_key (t_node t ! n), n_next = n_next (t_node t ! n)\<rparr>
           else if i = n then \<lparr>n_val = TNil, n_key = n_key (t_node t ! n), n_next = None\<rparr>
           else if i = p then (t_node t ! p)\<lparr>n_next := Some f\<rparr> else t_node t ! i)"
        using move_colliding_moves [OF ok n_def nk refl away f, of ?t] by auto
      define ns where "ns = ns0[n := (ns0 ! n)\<lparr>n_key := k\<rparr>]"
      have len: "length ns = length (t_node t)" by (simp add: ns_def len0)
      have at: "ns ! i =
          (if i = f then \<lparr>n_val = n_val (t_node t ! n), n_key = n_key (t_node t ! n), n_next = n_next (t_node t ! n)\<rparr>
           else if i = n then \<lparr>n_val = TNil, n_key = k, n_next = None\<rparr>
           else if i = p then (t_node t ! p)\<lparr>n_next := Some f\<rparr> else t_node t ! i)" if "i < length (t_node t)" for i
        using that nl nf by (simp add: ns_def at0 len0 nth_list_update)
      have "placed SH t k n (t\<lparr>t_node := ns, t_freetop := f\<rparr>)"
      proof (rule pl [where x = f, OF len])
        show "hash_ok (hashkey SH t) ns" "hmap ns = hmap (t_node t)"
          using insert_moving(2,3) [OF h ok(2,3) n_def [symmetric] nl nk away f p len at k(2)] by blast+
        show "n_key (ns ! i) \<noteq> TNil" if "i < length ns" "f \<le> i" for i
          using that used [of i] used [of n] f(2) k(2) nk nf used [of p] by (cases "i = n") (simp_all add: len at)
        show "free_nodes (t_node t) \<subseteq> insert f (free_nodes ns)" using nk by (auto simp: free_nodes_def len at)
        show "x = k \<or> has_key (t_node t) x" if "has_key ns x" for x
          using that nl by (auto simp: has_key_def len at split: if_splits)
      qed (use f nl nf fs in \<open>simp_all add: len at\<close>)
      moreover have "lj_tab_newkey SH oom (Suc d) t k = Some (Inr (NodeSlot n), t\<lparr>t_node := ns, t_freetop := f\<rparr>)"
        unfolding step using away mv k(1) by (simp add: Let_def set_key_def ns_def)
      ultimately show ?thesis by blast
    qed
  qed
qed

subsection \<open>Keys\<close>

text \<open>The integer that a number key stands for, and the array slot it selects.\<close>

definition int_key :: "tvalue \<Rightarrow> int option" where
  "int_key k = (case k of TNum d \<Rightarrow> let i = num2int d in if dbl_eq d (dbl_of_int i) then Some i else None | _ \<Rightarrow> None)"

definition akey :: "gctab \<Rightarrow> tvalue \<Rightarrow> nat option" where
  "akey t k = (case int_key k of Some i \<Rightarrow> if inarray t i then Some (nat i) else None | None \<Rightarrow> None)"

lemma num2int_range: "- (2 ^ 31) \<le> num2int d" "num2int d < 2 ^ 31"
  by (auto simp: num2int_def split: option.split)

lemma dbl_of_int_stored:
  assumes "\<bar>i\<bar> < 2 ^ 32"
  shows "stored_key (TNum (dbl_of_int i))" "plus_zero (dbl_of_int i) = dbl_of_int i"
  using dbl_of_int_number [OF assms] by (simp_all add: stored_key_def plus_zero_def)

lemma int_key_Some:
  assumes "int_key k = Some i"
  shows "- (2 ^ 31) \<le> i" "i < 2 ^ 31" "norm_key k = TNum (dbl_of_int i)" "good_key k"
proof -
  obtain d where d: "k = TNum d" "dbl_eq d (dbl_of_int i)" "i = num2int d"
    using assms by (auto simp: int_key_def Let_def split: tvalue.splits if_splits)
  show r: "- (2 ^ 31) \<le> i" "i < 2 ^ 31" using num2int_range d(3) by auto
  show "norm_key k = TNum (dbl_of_int i)" "good_key k"
    using d(1,2) dbl_of_int_stored(2) [of i] r by (auto simp: dbl_eq_iff)
qed

lemma int_key_dbl_of_int:
  assumes "- (2 ^ 31) \<le> i" "i < 2 ^ 31"
  shows "int_key (TNum (dbl_of_int i)) = Some i"
  using num2int_dbl_of_int [OF assms] dbl_of_int_number(1) [of i] assms by (simp add: int_key_def dbl_eq_iff)

text \<open>Keys that are stored alike stand for the same integer.\<close>

lemma norm_good: "good_key k \<Longrightarrow> good_key (norm_key k)"
  by (cases k) (auto simp: plus_zero_def dbl_isnan_def dbl_exp_def)

lemma norm_norm [simp]: "norm_key (norm_key k) = norm_key k"
  by (cases k) (auto simp: plus_zero_def)

lemma norm_stored: "good_key k \<Longrightarrow> stored_key (norm_key k)"
  by (simp add: stored_key_def norm_good)

lemma stored_keyD: "stored_key k \<Longrightarrow> good_key k" "stored_key k \<Longrightarrow> norm_key k = k"
  by (simp_all add: stored_key_def)

lemma int_key_norm: "int_key (norm_key k) = int_key k"
proof (cases "int_key k")
  case (Some i)
  then show ?thesis using int_key_Some [OF Some] int_key_dbl_of_int by simp
next
  case None
  show ?thesis
  proof (cases "int_key (norm_key k)")
    case (Some i)
    obtain d where d: "k = TNum d" "norm_key k = TNum (plus_zero d)"
      using Some by (cases k) (auto simp: int_key_def)
    have "num2int (2 ^ 63) = num2int 0" by (simp add: num2int_def dbl_trunc_def dbl_exp_uint dbl_frac_uint)
    then have "num2int (plus_zero d) = num2int d" by (simp add: plus_zero_def)
    moreover have "dbl_isnan (plus_zero d) = dbl_isnan d" "plus_zero (plus_zero d) = plus_zero d"
      by (simp_all add: plus_zero_def dbl_isnan_def dbl_exp_uint)
    ultimately have "int_key (norm_key k) = int_key k" using d by (simp add: int_key_def dbl_eq_iff)
    then show ?thesis .
  qed (use None in simp)
qed

lemma akey_norm: "akey t (norm_key k) = akey t k"
  by (simp add: akey_def int_key_norm)

lemma akey_cong: "asize t' = asize t \<Longrightarrow> akey t' k = akey t k"
  by (auto simp: akey_def inarray_def split: option.split)

lemma inarray_iff:
  assumes "asize t \<le> LJ_MAX_ASIZE" "- (2 ^ 31) \<le> i" "i < 2 ^ 31"
  shows "inarray t i \<longleftrightarrow> 0 \<le> i \<and> i < int (asize t)"
proof (cases "0 \<le> i")
  case True
  then show ?thesis using assms(3) by (simp add: inarray_def unsigned_of_int take_bit_eq_mod)
next
  case False
  then have "(i + 2 ^ 32) mod 2 ^ 32 = i + 2 ^ 32" using assms(2) by (intro mod_pos_pos_trivial) simp_all
  then have "i mod 2 ^ 32 = i + 2 ^ 32" by simp
  then show ?thesis using False assms by (simp add: inarray_def unsigned_of_int take_bit_eq_mod LJ_MAX_ASIZE_def LJ_MAX_ABITS_def)
qed

lemma akey_Some:
  assumes "akey t k = Some j" "asize t \<le> LJ_MAX_ASIZE"
  shows "j < asize t" "int_key k = Some (int j)" "norm_key k = TNum (dbl_of_int (int j))"
proof -
  obtain i where i: "int_key k = Some i" "inarray t i" "j = nat i" using assms(1) by (auto simp: akey_def split: option.splits if_splits)
  then show "j < asize t" "int_key k = Some (int j)" "norm_key k = TNum (dbl_of_int (int j))"
    using int_key_Some [OF i(1)] inarray_iff [OF assms(2), of i] by auto
qed

lemma akey_eq_norm:
  assumes "akey t k = Some i" "akey t x = Some i" "asize t \<le> LJ_MAX_ASIZE"
  shows "norm_key x = norm_key k"
  using akey_Some(3) [OF assms(1,3)] akey_Some(3) [OF assms(2,3)] by simp

text \<open>The tests that the walks use decide equality of stored keys.\<close>

lemma obj_equal_iff: "stored_key x \<Longrightarrow> good_key k \<Longrightarrow> lj_obj_equal x k \<longleftrightarrow> x = norm_key k"
  by (cases x; cases k) (auto simp: dbl_eq_iff stored_key_def)

lemma num_is_iff:
  assumes "\<bar>i\<bar> < 2 ^ 32" "stored_key x"
  shows "num_is (dbl_of_int i) x \<longleftrightarrow> x = TNum (dbl_of_int i)"
  using assms(2) dbl_of_int_stored(2) [OF assms(1)] dbl_of_int_number(1) [OF assms(1)]
  by (cases x) (auto simp: num_is_def dbl_eq_iff stored_key_def)

lemma hashkey_norm: "hashkey SH t (norm_key k) = hashkey SH t k"
proof -
  have "hashnum t (2 ^ 63) = hashnum t 0"
  proof -
    have "ucast (2 ^ 63 :: u64) = (0 :: u32)" "push_bit 1 (ucast (drop_bit 32 (2 ^ 63 :: u64)) :: u32) = 0" by simp_all
    then show ?thesis by (simp only: hashnum_def) simp
  qed
  then show ?thesis by (cases k) (simp_all add: plus_zero_def)
qed

end
