(* ===== verification/LjTabSet.thy ===== *)
theory LjTabSet
  imports LjTabMap
begin

text \<open>
  A table of LuaJIT as a map from keys to values: \<open>lj_tab_get\<close> reads the map and the setters update it.
\<close>

subsection \<open>A table as a map\<close>

text \<open>
  The invariant of a table between operations, and the map it stands for. No key of the hash part
  selects an array slot.
\<close>

definition tab_ok :: "(u32 \<Rightarrow> u32) \<Rightarrow> gctab \<Rightarrow> bool" where
  "tab_ok SH t \<longleftrightarrow> asize t \<le> LJ_MAX_ASIZE \<and> hpart_ok SH t \<and>
     (\<forall>j < length (t_node t). akey t (n_key (t_node t ! j)) = None)"

definition tab_abs :: "gctab \<Rightarrow> tvalue \<Rightarrow> tvalue" where
  "tab_abs t k = (case akey t k of Some i \<Rightarrow> t_array t ! i | None \<Rightarrow> hmap (t_node t) (norm_key k))"

lemma tab_okD:
  assumes "tab_ok SH t"
  shows "asize t \<le> LJ_MAX_ASIZE" "hpart_ok SH t" "has_key (t_node t) k \<Longrightarrow> akey t k = None"
  using assms by (auto simp: tab_ok_def has_key_def)

lemma tab_abs_simps:
  "akey t k = Some i \<Longrightarrow> tab_abs t k = t_array t ! i"
  "akey t k = None \<Longrightarrow> tab_abs t k = hmap (t_node t) (norm_key k)"
  by (simp_all add: tab_abs_def)

text \<open>A walk from the main node of a key decides whether it is in the hash part.\<close>

definition located :: "node list \<Rightarrow> tvalue \<Rightarrow> nat option \<Rightarrow> bool" where
  "located ns k r \<longleftrightarrow> (\<forall>j. r = Some j \<longrightarrow> j < length ns \<and> n_key (ns ! j) = k) \<and> (r = None \<longrightarrow> \<not> has_key ns k)"

lemma find_stored:
  assumes "hpart_ok SH t" "good_key k" "\<not> P TNil" "\<And>x. stored_key x \<Longrightarrow> P x \<longleftrightarrow> x = norm_key k"
  shows "\<exists>r. chain_find P (t_node t) (hashkey SH t k) = Some r \<and>
    located (t_node t) (norm_key k) r"
proof -
  have "norm_key k \<noteq> TNil" using stored_not_nil [OF norm_stored [OF assms(2)]] .
  from chain_find_key [OF hpart_okD(2) [OF assms(1)] hashkey_less [OF assms(1)] this assms(3,4)] show ?thesis
    unfolding hashkey_norm by (auto simp: located_def)
qed

lemma find_num:
  assumes "hpart_ok SH t" "\<bar>i\<bar> < 2 ^ 32"
  shows "\<exists>r. chain_find (num_is (dbl_of_int i)) (t_node t) (hashnum t (dbl_of_int i)) = Some r \<and>
    located (t_node t) (TNum (dbl_of_int i)) r"
  using find_stored [OF assms(1), of "TNum (dbl_of_int i)" "num_is (dbl_of_int i)"] dbl_of_int_stored [OF assms(2)] num_is_iff [OF assms(2)]
  by (simp add: stored_key_def) (simp add: num_is_def)

lemma find_str:
  assumes "hpart_ok SH t"
  shows "\<exists>r. chain_find (\<lambda>k. k = TStr s) (t_node t) (hashmask t (SH s)) = Some r \<and>
    located (t_node t) (TStr s) r"
  using find_stored [OF assms, of "TStr s" "\<lambda>k. k = TStr s"] by simp

lemma find_any:
  assumes "hpart_ok SH t" "good_key k"
  shows "\<exists>r. chain_find (\<lambda>x. lj_obj_equal x k) (t_node t) (hashkey SH t k) = Some r \<and>
    located (t_node t) (norm_key k) r"
proof (rule find_stored [OF assms])
  show "\<not> lj_obj_equal TNil k" using assms(2) by (cases k) simp_all
qed (use obj_equal_iff assms(2) in blast)

lemma hmap_found:
  assumes "hpart_ok SH t" "good_key k"
    and "located (t_node t) (norm_key k) r"
  shows "(case map_option NodeSlot r of None \<Rightarrow> TNil | Some sl \<Rightarrow> slot_val t sl) = hmap (t_node t) (norm_key k)"
proof (cases r)
  case None
  then show ?thesis using assms(3) by (simp add: located_def hmap_no_key)
next
  case (Some j)
  then have j: "j < length (t_node t)" "n_key (t_node t ! j) = norm_key k" using assms(3) by (simp_all add: located_def)
  have "norm_key k \<noteq> TNil" using stored_not_nil [OF norm_stored [OF assms(2)]] .
  then have "hmap (t_node t) (norm_key k) = n_val (t_node t ! j)"
    using hmap_key [OF hpart_okD(2) [OF assms(1)] j(1)] j(2) by simp
  then show ?thesis using Some by simp
qed

text \<open>What is not a key has no value.\<close>

lemma bad_key:
  assumes "hpart_ok SH t" "\<not> good_key k"
  shows "tab_abs t k = TNil" "int_key k = None"
proof -
  show i: "int_key k = None" using int_key_Some(4) assms(2) by (cases "int_key k") auto
  have "\<not> good_key (norm_key k)" using assms(2) by (cases k) (auto simp: plus_zero_def dbl_isnan_def dbl_exp_def)
  then have "norm_key k = TNil \<or> \<not> has_key (t_node t) (norm_key k)"
    using hash_okD(2) [OF hpart_okD(2) [OF assms(1)]] stored_keyD(1) unfolding has_key_def by metis
  then have "hmap (t_node t) (norm_key k) = TNil" by (auto simp: hmap_no_key) (simp add: hmap_def)
  then show "tab_abs t k = TNil" using i by (simp add: tab_abs_def akey_def)
qed

text \<open>\<open>lj_tab_get\<close> ends and reads the map.\<close>

lemma get_reads:
  assumes "tab_ok SH t"
  shows "lj_tab_get SH t k = Some (tab_abs t k)"
proof (cases "good_key k")
  case False
  show ?thesis
  proof (cases k)
    case (TNum d)
    then have nan: "dbl_isnan d" using False by simp
    obtain i where i: "i < length (t_node t)" "chain_find (\<lambda>x. lj_obj_equal x k) (t_node t) (hashkey SH t k) = Some (Some i) \<and> lj_obj_equal (n_key (t_node t ! i)) k
      \<or> chain_find (\<lambda>x. lj_obj_equal x k) (t_node t) (hashkey SH t k) = Some None"
      using chain_find_walks [OF hash_okD(1) [OF hpart_okD(2) [OF tab_okD(2) [OF assms]]] hashkey_less [OF tab_okD(2) [OF assms]],
          of "\<lambda>x. lj_obj_equal x k"] hashkey_less [OF tab_okD(2) [OF assms], of k] by blast
    have "\<not> lj_obj_equal x k" for x using nan TNum by (cases x) (simp_all add: dbl_eq_iff)
    then have "chain_find (\<lambda>x. lj_obj_equal x k) (t_node t) (hashkey SH t k) = Some None" using i(2) by blast
    moreover have "\<not> dbl_eq d x" for x using nan by (simp add: dbl_eq_iff)
    ultimately show ?thesis using bad_key(1) [OF tab_okD(2) [OF assms] False] TNum
      by (simp add: lj_tab_get_def genlookup_def Let_def)
  next
    case TNil
    then show ?thesis using bad_key(1) [OF tab_okD(2) [OF assms] False] by (simp add: lj_tab_get_def)
  qed (use False in simp_all)
next
  case True
  note hp = tab_okD(2) [OF assms]
  have gen: "genlookup SH t k = Some r \<Longrightarrow> (case r of None \<Rightarrow> TNil | Some sl \<Rightarrow> slot_val t sl) = hmap (t_node t) (norm_key k)"
    "\<exists>r. genlookup SH t k = Some r" for r
    using find_any [OF hp True] hmap_found [OF hp True] by (auto simp: genlookup_def)
  show ?thesis
  proof (cases k)
    case (TStr s)
    then show ?thesis using find_str [OF hp, of s] hmap_found [OF hp True]
      by (auto simp: lj_tab_get_def lj_tab_getstr_def tab_abs_def akey_def int_key_def)
  next
    case (TNum d)
    show ?thesis
    proof (cases "int_key k")
      case None
      then have "\<not> dbl_eq d (dbl_of_int (num2int d))" using TNum by (auto simp: int_key_def Let_def)
      then show ?thesis using gen TNum None by (auto simp: lj_tab_get_def Let_def tab_abs_def akey_def)
    next
      case (Some i)
      then have i: "dbl_eq d (dbl_of_int i)" "i = num2int d" using TNum by (auto simp: int_key_def Let_def split: if_splits)
      note n = int_key_Some [OF Some]
      have a: "\<bar>i\<bar> < 2 ^ 32" using n(1,2) by simp
      have "lj_tab_getint t i = Some r \<Longrightarrow> (case r of None \<Rightarrow> TNil | Some sl \<Rightarrow> slot_val t sl) = tab_abs t k"
        "\<exists>r. lj_tab_getint t i = Some r" for r
        using find_num [OF hp a] n hmap_found [OF hp True] Some
        by (auto simp: lj_tab_getint_def lj_tab_getinth_def tab_abs_def akey_def Let_def)
      then show ?thesis using TNum i by (auto simp: lj_tab_get_def Let_def)
    qed
  qed (use True gen in \<open>auto simp: lj_tab_get_def tab_abs_def akey_def int_key_def\<close>)
qed

subsection \<open>Storing without a resize\<close>

lemma hpart_ok_cong:
  assumes "t_node t' = t_node t" "t_freetop t' = t_freetop t"
  shows "hpart_ok SH t' = hpart_ok SH t"
proof -
  have "hashkey SH t' = hashkey SH t" by (rule hashkey_cong) (simp add: assms(1))
  then show ?thesis by (simp add: hpart_ok_def hmask_def assms)
qed

lemma norm_nonint: "int_key k = None \<Longrightarrow> norm_key k = k"
proof (cases k)
  case (TNum d)
  assume n: "int_key k = None"
  have "int_key (TNum (plus_zero d)) = Some 0" if "d = 2 ^ 63"
    using that int_key_dbl_of_int [of 0] by (simp add: plus_zero_def dbl_of_int_def dbl_of_int_abs_def)
  then have "d \<noteq> 2 ^ 63" using n int_key_norm [of k] TNum by auto
  then show ?thesis using TNum by (simp add: plus_zero_def)
qed simp_all

text \<open>A key that does not select an array slot is looked for in the hash part and given to \<open>nk\<close> if it is not there.\<close>

lemma set_at_hash:
  assumes "hpart_ok SH t" "good_key k" "akey t k = None"
  shows "\<exists>r. located (t_node t) (norm_key k) r \<and>
    lj_tab_set SH nk t k = (case r of Some j \<Rightarrow> Some (Inr (NodeSlot j), t\<lparr>t_nomm := 0\<rparr>) | None \<Rightarrow> nk (t\<lparr>t_nomm := 0\<rparr>) (norm_key k))"
proof -
  let ?t = "t\<lparr>t_nomm := 0\<rparr>"
  have hp: "hpart_ok SH ?t" using hpart_ok_cong [of ?t t] assms(1) by simp
  have gen: "\<exists>r. located (t_node t) (norm_key k) r \<and>
      set_generic SH nk ?t k = (case r of Some j \<Rightarrow> Some (Inr (NodeSlot j), ?t) | None \<Rightarrow> nk ?t (norm_key k))" if "norm_key k = k"
  proof -
    obtain r where "chain_find (\<lambda>x. lj_obj_equal x k) (t_node t) (hashkey SH ?t k) = Some r" "located (t_node t) (norm_key k) r"
      using find_any [OF hp assms(2)] by auto
    then show ?thesis by (intro exI [of _ r]) (simp add: set_generic_def that split: option.split)
  qed
  show ?thesis
  proof (cases k)
    case (TStr s)
    obtain r where "chain_find (\<lambda>k. k = TStr s) (t_node t) (hashmask ?t (SH s)) = Some r" "located (t_node t) (TStr s) r"
      using find_str [OF hp, of s] by auto
    then show ?thesis using TStr
      by (intro exI [of _ r]) (simp add: lj_tab_set_def lj_tab_setstr_def Let_def split: option.split)
  next
    case (TNum d)
    show ?thesis
    proof (cases "int_key k")
      case None
      have "norm_key k = k" using None by (rule norm_nonint)
      note gen [OF this]
      moreover have "\<not> dbl_eq d (dbl_of_int (num2int d))" using None TNum by (auto simp: int_key_def Let_def)
      ultimately show ?thesis using TNum assms(2) by (simp add: lj_tab_set_def Let_def del: norm_key.simps)
    next
      case (Some i)
      then have i: "dbl_eq d (dbl_of_int i)" "i = num2int d" using TNum by (auto simp: int_key_def Let_def split: if_splits)
      note n = int_key_Some [OF Some]
      have a: "\<bar>i\<bar> < 2 ^ 32" using n(1,2) by simp
      have "\<not> inarray ?t i" using assms(3) Some by (auto simp: akey_def inarray_def)
      moreover obtain r where "chain_find (num_is (dbl_of_int i)) (t_node t) (hashnum ?t (dbl_of_int i)) = Some r"
        "located (t_node t) (TNum (dbl_of_int i)) r"
        using find_num [OF hp a] by auto
      ultimately show ?thesis using TNum i n(3)
        by (intro exI [of _ r]) (simp add: lj_tab_set_def lj_tab_setint_def lj_tab_setinth_def Let_def split: option.split)
    qed
  qed (use assms(2) gen in \<open>auto simp: lj_tab_set_def\<close>)
qed

lemma set_at_array:
  assumes "akey t k = Some i"
  shows "lj_tab_set SH nk t k = Some (Inr (ArraySlot i), t\<lparr>t_nomm := 0\<rparr>)"
proof -
  obtain d where "k = TNum d" "dbl_eq d (dbl_of_int (num2int d))" "inarray t (num2int d)" "i = nat (num2int d)"
    using assms by (auto simp: akey_def int_key_def Let_def split: tvalue.splits if_splits)
  then show ?thesis by (simp add: lj_tab_set_def lj_tab_setint_def inarray_def Let_def)
qed

text \<open>The effect of storing a value for a key in a table that keeps its size.\<close>

definition stores :: "(u32 \<Rightarrow> u32) \<Rightarrow> gctab \<Rightarrow> tvalue \<Rightarrow> tvalue \<Rightarrow> gctab \<Rightarrow> bool" where
  "stores SH t k v u \<longleftrightarrow> tab_ok SH u \<and> (\<forall>x. tab_abs u x = (if norm_key x = norm_key k then v else tab_abs t x)) \<and>
     asize u = asize t \<and> length (t_node u) = length (t_node t) \<and> t_colo u = t_colo t \<and>
     room t \<le> room u + (if akey t k = None then 1 else 0)"

lemma stores_array:
  assumes "tab_ok SH t" "akey t k = Some i"
  shows "stores SH t k v (put_slot (ArraySlot i) v (t\<lparr>t_nomm := 0\<rparr>))"
proof -
  let ?u = "t\<lparr>t_nomm := 0, t_array := (t_array t)[i := v]\<rparr>"
  note ok = tab_okD [OF assms(1)] and a = akey_Some [OF assms(2) tab_okD(1) [OF assms(1)]]
  have ak: "akey ?u x = akey t x" for x by (rule akey_cong) simp
  have "hpart_ok SH ?u" using hpart_ok_cong [of ?u t] ok(2) by simp
  then have "tab_ok SH ?u" using assms(1) ak by (simp add: tab_ok_def)
  moreover have "tab_abs ?u x = (if norm_key x = norm_key k then v else tab_abs t x)" for x
  proof (cases "norm_key x = norm_key k")
    case True
    then have "akey ?u x = Some i" using assms(2) ak akey_norm [of t x] akey_norm [of t k] by metis
    then show ?thesis using True a(1) by (simp add: tab_abs_simps)
  next
    case False
    then have "akey t x \<noteq> Some i" using akey_eq_norm [OF assms(2) _ ok(1)] by blast
    then show ?thesis using False by (auto simp: tab_abs_def ak split: option.split)
  qed
  ultimately show ?thesis using assms(2) by (simp add: stores_def room_def)
qed

lemma hmap_value:
  assumes "hash_ok mp ns" "j < length ns" "n_key (ns ! j) \<noteq> TNil" and ns': "ns' = ns[j := (ns ! j)\<lparr>n_val := v\<rparr>]"
  shows "hash_ok mp ns'" "hmap ns' x = (if x = n_key (ns ! j) then v else hmap ns x)"
proof -
  show h: "hash_ok mp ns'"
    using hash_okD(4) [OF assms(1)] assms(2,3) by (intro hash_ok_values [OF assms(1)]) (auto simp: ns' nth_list_update)
  show "hmap ns' x = (if x = n_key (ns ! j) then v else hmap ns x)"
  proof (cases "x \<noteq> TNil \<and> has_key ns x")
    case True
    then obtain i where i: "i < length ns" "n_key (ns ! i) = x" by (auto simp: has_key_def)
    then have "i < length ns'" "n_key (ns' ! i) = x" "n_val (ns' ! i) = (if i = j then v else n_val (ns ! i))"
      using assms(2) by (simp_all add: ns' nth_list_update)
    then have "hmap ns' x = (if i = j then v else hmap ns x)"
      using hmap_key [OF h, of i] hmap_key [OF assms(1) i(1)] i(2) True by simp
    moreover have "i = j \<longleftrightarrow> x = n_key (ns ! j)" using hash_okD(5) [OF assms(1) i(1) assms(2)] i(2) True by auto
    ultimately show ?thesis by simp
  next
    case False
    have "\<not> has_key ns' x" if nk: "\<not> has_key ns x"
    proof
      assume "has_key ns' x"
      then obtain i where i: "i < length ns" "n_key (ns' ! i) = x" by (auto simp: has_key_def ns')
      then have "n_key (ns ! i) = x" using assms(2) by (cases "i = j") (simp_all add: ns')
      then show False using nk i(1) by (auto simp: has_key_def)
    qed
    then have "x \<noteq> TNil \<Longrightarrow> hmap ns' x = TNil" "x \<noteq> TNil \<Longrightarrow> hmap ns x = TNil" using False hmap_no_key by blast+
    moreover have "hmap ns' TNil = TNil" "hmap ns TNil = TNil" by (simp_all add: hmap_def)
    ultimately have "hmap ns' x = TNil" "hmap ns x = TNil" by (cases "x = TNil"; simp)+
    moreover have "x \<noteq> n_key (ns ! j)" using False assms(2,3) by (auto simp: has_key_def)
    ultimately show ?thesis by simp
  qed
qed

lemma stores_node:
  assumes ok: "tab_ok SH t" "good_key k" "akey t k = None"
    and t': "hpart_ok SH t'" "j < length (t_node t')" "n_key (t_node t' ! j) = norm_key k" "hmap (t_node t') = hmap (t_node t)"
      "\<And>x. has_key (t_node t') x \<Longrightarrow> x = norm_key k \<or> has_key (t_node t) x"
      "length (t_node t') = length (t_node t)" "room t \<le> Suc (room t')" "t_array t' = t_array t" "t_colo t' = t_colo t"
  shows "stores SH t k v (put_slot (NodeSlot j) v t')"
proof -
  define ns where "ns = (t_node t')[j := (t_node t' ! j)\<lparr>n_val := v\<rparr>]"
  let ?u = "t'\<lparr>t_node := ns\<rparr>"
  have len: "length ns = length (t_node t')" by (simp add: ns_def)
  have key: "n_key (ns ! i) = n_key (t_node t' ! i)" if "i < length ns" for i
    using that by (cases "i = j") (simp_all add: ns_def)
  have nn: "n_key (t_node t' ! j) \<noteq> TNil" using stored_not_nil [OF norm_stored [OF ok(2)]] t'(3) by simp
  note h = hmap_value [OF hpart_okD(2) [OF t'(1)] t'(2) nn ns_def]
  have hm: "hmask t' \<noteq> 0"
  proof
    assume "hmask t' = 0"
    then have "t_node t' = [nilnode]" by (rule hpart_okD(5) [OF t'(1)])
    then show False using nn t'(2) by (simp add: nilnode_def)
  qed
  have "hpart_ok SH (t'\<lparr>t_node := ns, t_freetop := t_freetop t'\<rparr>)"
  proof (rule hpart_ok_update [OF t'(1) _ len h(1)])
    show "0 < hmask t'" using hm by simp
    show "n_key (ns ! i) \<noteq> TNil" if "i < length ns" "t_freetop t' \<le> i" for i
      using that hpart_okD(4) [OF t'(1), of i] hm len by (simp add: key)
  qed simp
  then have hp: "hpart_ok SH ?u" by simp
  have ak: "akey ?u x = akey t x" for x by (rule akey_cong) (simp add: t'(8))
  have "akey ?u (n_key (ns ! i)) = None" if "i < length ns" for i
  proof -
    have "has_key (t_node t') (n_key (ns ! i))" using that key len by (auto simp: has_key_def)
    then show ?thesis using t'(5) tab_okD(3) [OF ok(1)] ok(3) unfolding ak by (metis akey_norm)
  qed
  then have "tab_ok SH ?u" using hp tab_okD(1) [OF ok(1)] by (simp add: tab_ok_def t'(8))
  moreover have "tab_abs ?u x = (if norm_key x = norm_key k then v else tab_abs t x)" for x
  proof (cases "akey t x")
    case None
    then show ?thesis using h(2) t'(3,4) by (simp add: tab_abs_def ak)
  next
    case (Some i)
    then have "norm_key x \<noteq> norm_key k" using ok(3) akey_norm by (metis option.distinct(1))
    then show ?thesis using Some by (simp add: tab_abs_def ak t'(8))
  qed
  moreover have "free_nodes ns = free_nodes (t_node t')" using key len by (auto simp: free_nodes_def)
  then have "room ?u = room t'" by (simp add: room_def)
  ultimately show ?thesis using t'(6-9) ok(3) len by (simp add: stores_def ns_def)
qed

text \<open>With a free node left, or none needed, storing does not resize the table.\<close>

lemma stores_put:
  assumes "tab_ok SH t" "good_key k" and room: "akey t k = None \<Longrightarrow> 0 < room t"
  shows "\<exists>sl t'. lj_tab_set SH (lj_tab_newkey SH oom (Suc d)) t k = Some (Inr sl, t') \<and> (\<forall>v. stores SH t k v (put_slot sl v t'))"
proof (cases "akey t k")
  case (Some i)
  then show ?thesis using set_at_array [OF Some] stores_array [OF assms(1) Some] by blast
next
  case None
  note ok = tab_okD [OF assms(1)]
  let ?t = "t\<lparr>t_nomm := 0\<rparr>"
  have hp: "hpart_ok SH ?t" using hpart_ok_cong [of ?t t] ok(2) by simp
  obtain r where r: "located (t_node t) (norm_key k) r" and set: "lj_tab_set SH (lj_tab_newkey SH oom (Suc d)) t k =
      (case r of Some j \<Rightarrow> Some (Inr (NodeSlot j), ?t) | None \<Rightarrow> lj_tab_newkey SH oom (Suc d) ?t (norm_key k))"
    using set_at_hash [OF ok(2) assms(2) None] by blast
  show ?thesis
  proof (cases r)
    case (Some j)
    have "stores SH t k v (put_slot (NodeSlot j) v ?t)" for v
      using r Some by (intro stores_node [OF assms(1,2) None hp]) (auto simp: located_def room_def)
    then show ?thesis using set Some by auto
  next
    case new: None
    have "0 < room ?t" using room [OF None] by (simp add: room_def)
    then obtain n t' where nk: "lj_tab_newkey SH oom (Suc d) ?t (norm_key k) = Some (Inr (NodeSlot n), t')" "placed SH ?t (norm_key k) n t'"
      using newkey_places [OF hp norm_stored [OF assms(2)]] r new room_find_free [OF hp] unfolding located_def by fastforce
    have "stores SH t k v (put_slot (NodeSlot n) v t')" for v
      using nk(2) by (intro stores_node [OF assms(1,2) None]) (auto simp: placed_def room_def)
    then show ?thesis using set new nk(1) by auto
  qed
qed

subsection \<open>Storing a list of entries\<close>

definition puts :: "(u32 \<Rightarrow> u32) \<Rightarrow> gctab \<Rightarrow> tvalue \<Rightarrow> slot tab_res \<Rightarrow> bool" where
  "puts SH t k res \<longleftrightarrow> (\<exists>sl t'. res = Some (Inr sl, t') \<and> (\<forall>v. stores SH t k v (put_slot sl v t')))"

lemma puts_set:
  "tab_ok SH t \<Longrightarrow> good_key k \<Longrightarrow> (akey t k = None \<Longrightarrow> 0 < room t) \<Longrightarrow> puts SH t k (lj_tab_set SH (lj_tab_newkey SH oom (Suc d)) t k)"
  unfolding puts_def by (rule stores_put)

text \<open>\<open>lj_tab_setinth\<close> is \<open>lj_tab_set\<close> for an integer out of the array, but for the metamethod cache.\<close>

lemma puts_setinth:
  assumes "tab_ok SH t" "0 \<le> i" "i < 2 ^ 31" "akey t (TNum (dbl_of_int i)) = None" "0 < room t"
  shows "puts SH t (TNum (dbl_of_int i)) (lj_tab_setinth (lj_tab_newkey SH oom (Suc d)) t i)"
proof -
  let ?k = "TNum (dbl_of_int i)"
  note ok = tab_okD [OF assms(1)]
  have a: "\<bar>i\<bar> < 2 ^ 32" using assms(2,3) by simp
  note k = stored_keyD [OF dbl_of_int_stored(1) [OF a]]
  obtain r where r: "chain_find (num_is (dbl_of_int i)) (t_node t) (hashnum t (dbl_of_int i)) = Some r" "located (t_node t) ?k r"
    using find_num [OF ok(2) a] by auto
  show ?thesis
  proof (cases r)
    case (Some j)
    have "stores SH t ?k v (put_slot (NodeSlot j) v t)" for v
      using r(2) Some k(2) by (intro stores_node [OF assms(1) k(1) assms(4) ok(2)]) (auto simp: located_def)
    then show ?thesis using r(1) Some by (auto simp: puts_def lj_tab_setinth_def)
  next
    case None
    then obtain n t' where nk: "lj_tab_newkey SH oom (Suc d) t ?k = Some (Inr (NodeSlot n), t')" "placed SH t ?k n t'"
      using newkey_places [OF ok(2) dbl_of_int_stored(1) [OF a]] r(2) room_find_free [OF ok(2) assms(5)] unfolding located_def by fastforce
    have "stores SH t ?k v (put_slot (NodeSlot n) v t')" for v
      using nk(2) k(2) by (intro stores_node [OF assms(1) k(1) assms(4)]) (auto simp: placed_def)
    then show ?thesis using r(1) None nk(1) by (auto simp: puts_def lj_tab_setinth_def)
  qed
qed

text \<open>The keys \<open>kf\<close> of the entries are distinct, and those that go to the hash part fit into it.\<close>

definition to_hash :: "gctab \<Rightarrow> ('k \<Rightarrow> tvalue) \<Rightarrow> ('k \<times> tvalue) list \<Rightarrow> nat" where
  "to_hash t kf es = length (filter (\<lambda>e. akey t (kf (fst e)) = None) es)"

lemma to_hash_cong: "asize t' = asize t \<Longrightarrow> to_hash t' kf es = to_hash t kf es"
  unfolding to_hash_def by (simp only: akey_cong [of t' t])

lemma store_each_stores:
  assumes "tab_ok SH t" "to_hash t kf es \<le> room t" "distinct (map (\<lambda>e. norm_key (kf (fst e))) es)"
    and st: "\<And>e t'. e \<in> set es \<Longrightarrow> tab_ok SH t' \<Longrightarrow> asize t' = asize t \<Longrightarrow> (akey t' (kf (fst e)) = None \<Longrightarrow> 0 < room t') \<Longrightarrow>
      puts SH t' (kf (fst e)) (st (fst e) t')"
  shows "\<exists>u. store_each st es t = Some (Inr (), u) \<and> tab_ok SH u \<and> asize u = asize t \<and> length (t_node u) = length (t_node t) \<and>
    t_colo u = t_colo t \<and> room t \<le> room u + to_hash t kf es \<and>
    (\<forall>e \<in> set es. \<forall>x. norm_key x = norm_key (kf (fst e)) \<longrightarrow> tab_abs u x = snd e) \<and>
    (\<forall>x. (\<forall>e \<in> set es. norm_key x \<noteq> norm_key (kf (fst e))) \<longrightarrow> tab_abs u x = tab_abs t x)"
  using assms
proof (induction es arbitrary: t)
  case Nil
  then show ?case by simp
next
  case (Cons e es)
  have "akey t (kf (fst e)) = None \<Longrightarrow> 0 < room t" using Cons.prems(2) by (simp add: to_hash_def)
  then have "puts SH t (kf (fst e)) (st (fst e) t)" using Cons.prems(1,4) by simp
  then obtain sl t' where st1: "st (fst e) t = Some (Inr sl, t')" and "stores SH t (kf (fst e)) (snd e) (put_slot sl (snd e) t')"
    unfolding puts_def by blast
  moreover define t1 where "t1 = put_slot sl (snd e) t'"
  ultimately have s: "tab_ok SH t1" "\<And>x. tab_abs t1 x = (if norm_key x = norm_key (kf (fst e)) then snd e else tab_abs t x)"
    "asize t1 = asize t" "length (t_node t1) = length (t_node t)" "t_colo t1 = t_colo t"
    "room t \<le> room t1 + (if akey t (kf (fst e)) = None then 1 else 0)"
    by (simp_all add: stores_def)
  have th: "to_hash t kf (e # es) = (if akey t (kf (fst e)) = None then 1 else 0) + to_hash t1 kf es"
    unfolding to_hash_cong [OF s(3)] by (simp add: to_hash_def)
  obtain u where u: "store_each st es t1 = Some (Inr (), u)" "tab_ok SH u" "asize u = asize t1" "length (t_node u) = length (t_node t1)"
      "t_colo u = t_colo t1" "room t1 \<le> room u + to_hash t1 kf es"
      "\<forall>e \<in> set es. \<forall>x. norm_key x = norm_key (kf (fst e)) \<longrightarrow> tab_abs u x = snd e"
      "\<forall>x. (\<forall>e \<in> set es. norm_key x \<noteq> norm_key (kf (fst e))) \<longrightarrow> tab_abs u x = tab_abs t1 x"
    using Cons.IH [OF s(1)] th s Cons.prems by auto
  have "store_each st (e # es) t = Some (Inr (), u)" using st1 u(1) by (simp add: t1_def)
  moreover have "tab_abs u x = snd e" if "norm_key x = norm_key (kf (fst e))" for x
    using that u(8) s(2) Cons.prems(3) by (auto simp: image_iff)
  ultimately show ?case
    using u(2-8) s(2-6) th by (intro exI [of _ u]) auto
qed

subsection \<open>Resizing\<close>

lemma hmap_nil: "hmap ns TNil = TNil"
  by (simp add: hmap_def)

text \<open>The hash part that \<open>resizetab\<close> starts from holds no key.\<close>

lemma fresh_hpart:
  assumes "hb \<le> LJ_MAX_HBITS" "t_node t = (if hb = 0 then [nilnode] else replicate (2 ^ hb) nilnode)"
    "t_freetop t = (if hb = 0 then 0 else 2 ^ hb)"
  shows "hpart_ok SH t" "hmap (t_node t) k = TNil" "room t = (if hb = 0 then 0 else 2 ^ hb)" "has_key (t_node t) k \<Longrightarrow> k = TNil"
    "length (t_node t) = 2 ^ hb"
proof -
  show len: "length (t_node t) = 2 ^ hb" using assms(2) by simp
  have nd: "t_node t ! i = nilnode" if "i < length (t_node t)" for i using that assms(2) by (auto split: if_splits)
  show hk: "has_key (t_node t) k \<Longrightarrow> k = TNil" for k using nd by (auto simp: has_key_def nilnode_def)
  have s: "\<not> succ (t_node t) i j" for i j using nd by (auto simp: succ_def nilnode_def)
  have "chains_ok (t_node t)" using s by (simp add: chains_ok_def)
  then have "hash_ok (hashkey SH t) (t_node t)" using nd by (auto simp: hash_ok_def nilnode_def)
  moreover have "hmask t = 0 \<longleftrightarrow> hb = 0" using len one_less_power [of "2 :: nat" hb] by (cases "hb = 0") (simp_all add: hmask_def)
  ultimately show "hpart_ok SH t" using assms len by (auto simp: hpart_ok_def)
  show "hmap (t_node t) k = TNil" using hk hmap_no_key hmap_nil by metis
  have "free_nodes (t_node t) = (if hb = 0 then {} else {..<2 ^ hb})"
    using nd len one_less_power [of "2 :: nat" hb] by (auto simp: free_nodes_def nilnode_def)
  then show "room t = (if hb = 0 then 0 else 2 ^ hb)" by (simp add: room_def)
qed

text \<open>The entries that are stored again: those of the array slots that go, and of the old hash part.\<close>

definition array_entries :: "gctab \<Rightarrow> nat \<Rightarrow> (nat \<times> tvalue) list" where
  "array_entries t asz = filter (\<lambda>e. snd e \<noteq> TNil) (map (\<lambda>i. (i, t_array t ! i)) [asz..<asize t])"

definition hash_entries :: "gctab \<Rightarrow> (tvalue \<times> tvalue) list" where
  "hash_entries t = map (\<lambda>nd. (n_key nd, n_val nd)) (filter (\<lambda>nd. n_val nd \<noteq> TNil) (t_node t))"

text \<open>The keys that end in the hash part when the array part gets \<open>asz\<close> slots.\<close>

definition hash_load :: "gctab \<Rightarrow> nat \<Rightarrow> nat" where
  "hash_load t asz = length (array_entries t asz) +
     length (filter (\<lambda>e. case int_key (fst e) of Some i \<Rightarrow> i < 0 \<or> int asz \<le> i | None \<Rightarrow> True) (hash_entries t))"

definition resized :: "gctab \<Rightarrow> nat \<Rightarrow> nat \<Rightarrow> gctab" where
  "resized t asz hb = t\<lparr>t_colo := (if asz > asize t \<and> t_colo t > 0 then t_colo t - 128 else t_colo t),
     t_array := take asz (t_array t @ replicate (asz - asize t) TNil),
     t_node := (if hb = 0 then [nilnode] else replicate (2 ^ hb) nilnode), t_freetop := (if hb = 0 then 0 else 2 ^ hb)\<rparr>"

lemma resizetab_runs:
  assumes "asz \<le> LJ_MAX_ASIZE" "hb \<le> LJ_MAX_HBITS" "\<And>n. \<not> oom n" "hmask t = 0 \<Longrightarrow> hash_entries t = []"
    and s1: "store_each (\<lambda>i t. lj_tab_setinth nk t (int i)) (array_entries t asz) (resized t asz hb) = Some (Inr (), u1)"
    and s2: "store_each (\<lambda>k t. lj_tab_set SH nk t k) (hash_entries t) u1 = Some (Inr (), u)"
  shows "resizetab SH oom nk t asz hb = Some (Inr (), u)"
proof -
  have ht: "hmask t = 0 \<Longrightarrow> u1 = u" using assms(4) s2 by simp
  have g: "grow_array oom asz t = (Inr (), t\<lparr>t_colo := (if asz > asize t \<and> t_colo t > 0 then t_colo t - 128 else t_colo t),
      t_array := t_array t @ replicate (asz - asize t) TNil\<rparr>)"
    using assms(1,3) by (simp add: grow_array_def)
  show ?thesis
  proof (cases "asz < asize t")
    case True
    then have "resized t asz hb = t\<lparr>t_node := (if hb = 0 then [nilnode] else replicate (2 ^ hb) nilnode), t_freetop := (if hb = 0 then 0 else 2 ^ hb),
        t_array := take asz (t_array t)\<rparr>" by (simp add: resized_def)
    then show ?thesis using True assms(2,3) s1 s2 ht
      by (cases "hb = 0") (simp_all add: resizetab_def g Let_def newhpart_def flip: hash_entries_def array_entries_def)
  next
    case False
    then have "u1 = resized t asz hb" using s1 by (simp add: array_entries_def)
    moreover have "take asz (t_array t @ replicate (asz - asize t) TNil) = t_array t @ replicate (asz - asize t) TNil" using False by simp
    ultimately show ?thesis using False assms(2,3) s2 ht
      by (cases "hb = 0"; cases "asize t < asz"; cases "0 < t_colo t") (simp_all add: resizetab_def g Let_def newhpart_def resized_def flip: hash_entries_def)
  qed
qed

text \<open>
  A table keeps its map when it is resized, provided that the new hash part has room for all keys that
  the new array part does not hold.
\<close>

lemma resized_fields:
  "asize (resized t asz hb) = asz" "i < asz \<Longrightarrow> t_array (resized t asz hb) ! i = (if i < asize t then t_array t ! i else TNil)"
  by (auto simp: resized_def nth_append)

lemma akey_resized:
  assumes "asz \<le> LJ_MAX_ASIZE" "asize u = asz"
  shows "akey u k = (case int_key k of Some i \<Rightarrow> if 0 \<le> i \<and> i < int asz then Some (nat i) else None | None \<Rightarrow> None)"
  using inarray_iff [of u] int_key_Some(1,2) [of k] assms by (auto simp: akey_def split: option.split)

lemma array_entry:
  "e \<in> set (array_entries t asz) \<longleftrightarrow> asz \<le> fst e \<and> fst e < asize t \<and> snd e = t_array t ! fst e \<and> snd e \<noteq> TNil"
  by (cases e) (auto simp: array_entries_def)

lemma hash_entry:
  assumes "hpart_ok SH t" "e \<in> set (hash_entries t)"
  shows "stored_key (fst e)" "has_key (t_node t) (fst e)" "hmap (t_node t) (fst e) = snd e" "snd e \<noteq> TNil"
proof -
  obtain j where j: "j < length (t_node t)" "n_val (t_node t ! j) \<noteq> TNil" "e = (n_key (t_node t ! j), n_val (t_node t ! j))"
    using assms(2) by (auto simp: hash_entries_def in_set_conv_nth)
  note h = hpart_okD(2) [OF assms(1)]
  have nn: "n_key (t_node t ! j) \<noteq> TNil" using hash_okD(4) [OF h j(1)] j(2) by blast
  show "stored_key (fst e)" "has_key (t_node t) (fst e)" "hmap (t_node t) (fst e) = snd e" "snd e \<noteq> TNil"
    using j hash_okD(2) [OF h j(1) nn] hmap_key [OF h j(1) nn] by (auto simp: has_key_def)
qed

lemma hash_entry_of:
  assumes "hpart_ok SH t" "stored_key k" "hmap (t_node t) k \<noteq> TNil"
  shows "(k, hmap (t_node t) k) \<in> set (hash_entries t)"
proof -
  obtain j where j: "j < length (t_node t)" "n_key (t_node t ! j) = k"
    using hmap_no_key [of "t_node t" k] assms(3) by (auto simp: has_key_def)
  then have "hmap (t_node t) k = n_val (t_node t ! j)"
    using hmap_key [OF hpart_okD(2) [OF assms(1)] j(1)] stored_not_nil [OF assms(2)] by simp
  then show ?thesis using j assms(3) by (force simp: hash_entries_def)
qed

lemma distinct_hash_entries:
  assumes "hpart_ok SH t"
  shows "distinct (map (\<lambda>e. norm_key (fst e)) (hash_entries t))"
proof -
  note h = hpart_okD(2) [OF assms]
  have "distinct (map n_key (filter (\<lambda>nd. n_val nd \<noteq> TNil) ns))"
    if "\<And>i j. i < length ns \<Longrightarrow> j < length ns \<Longrightarrow> n_val (ns ! i) \<noteq> TNil \<Longrightarrow> n_val (ns ! j) \<noteq> TNil \<Longrightarrow> n_key (ns ! i) = n_key (ns ! j) \<Longrightarrow> i = j" for ns
    using that
  proof (induction ns)
    case (Cons nd ns)
    have "distinct (map n_key (filter (\<lambda>nd. n_val nd \<noteq> TNil) ns))"
    proof (rule Cons.IH)
      show "i = j" if "i < length ns" "j < length ns" "n_val (ns ! i) \<noteq> TNil" "n_val (ns ! j) \<noteq> TNil" "n_key (ns ! i) = n_key (ns ! j)" for i j
        using Cons.prems [of "Suc i" "Suc j"] that by simp
    qed
    moreover have "n_key nd \<noteq> n_key nd'" if nd: "n_val nd \<noteq> TNil" "nd' \<in> set ns" "n_val nd' \<noteq> TNil" for nd'
    proof -
      obtain j where "j < length ns" "ns ! j = nd'" using nd(2) by (auto simp: in_set_conv_nth)
      then show ?thesis using Cons.prems [of 0 "Suc j"] nd(1,3) by auto
    qed
    ultimately show ?case by auto
  qed simp
  then have "distinct (map n_key (filter (\<lambda>nd. n_val nd \<noteq> TNil) (t_node t)))"
    using hash_okD(4,5) [OF h] by metis
  then have "distinct (map fst (hash_entries t))" by (simp add: hash_entries_def comp_def)
  moreover have "map (\<lambda>e. norm_key (fst e)) (hash_entries t) = map fst (hash_entries t)"
    using hash_entry(1) [OF assms] stored_keyD(2) by simp
  ultimately show ?thesis by (simp only:)
qed

lemma to_hash_entries:
  assumes "asz \<le> LJ_MAX_ASIZE" "asize u = asz" "asize t \<le> LJ_MAX_ASIZE"
  shows "to_hash u (\<lambda>i. TNum (dbl_of_int (int i))) (array_entries t asz) + to_hash u id (hash_entries t) = hash_load t asz"
proof -
  have "akey u (TNum (dbl_of_int (int (fst e)))) = None" if "e \<in> set (array_entries t asz)" for e
  proof -
    have "int_key (TNum (dbl_of_int (int (fst e)))) = Some (int (fst e))"
      using that assms(3) by (intro int_key_dbl_of_int) (auto simp: array_entry LJ_MAX_ASIZE_def LJ_MAX_ABITS_def)
    then show ?thesis using that by (simp add: akey_resized [OF assms(1,2)] array_entry)
  qed
  then have "filter (\<lambda>e. akey u (TNum (dbl_of_int (int (fst e)))) = None) (array_entries t asz) = array_entries t asz" by simp
  moreover have "(akey u k = None) = (case int_key k of Some i \<Rightarrow> i < 0 \<or> int asz \<le> i | None \<Rightarrow> True)" for k
    by (auto simp: akey_resized [OF assms(1,2)] split: option.split)
  ultimately show ?thesis by (simp add: to_hash_def hash_load_def)
qed

lemma resizetab_keeps:
  assumes ok: "tab_ok SH t" and asz: "asz \<le> LJ_MAX_ASIZE" and hb: "hb \<le> LJ_MAX_HBITS" and oom: "\<And>n. \<not> oom n"
    and load: "hash_load t asz \<le> (if hb = 0 then 0 else 2 ^ hb)"
  shows "\<exists>u. resizetab SH oom (lj_tab_newkey SH oom (Suc d)) t asz hb = Some (Inr (), u) \<and> tab_ok SH u \<and> tab_abs u = tab_abs t \<and>
    asize u = asz \<and> length (t_node u) = 2 ^ hb \<and> (if hb = 0 then 0 else 2 ^ hb) \<le> room u + hash_load t asz"
proof -
  note o = tab_okD [OF ok]
  define nk where "nk = lj_tab_newkey SH oom (Suc d)"
  define t1 where "t1 = resized t asz hb"
  define kf where "kf = (\<lambda>i. TNum (dbl_of_int (int i)))"
  have a1: "asize t1 = asz" by (simp add: t1_def resized_fields)
  have f: "t_node t1 = (if hb = 0 then [nilnode] else replicate (2 ^ hb) nilnode)" "t_freetop t1 = (if hb = 0 then 0 else 2 ^ hb)"
    by (simp_all add: t1_def resized_def)
  note fresh = fresh_hpart [OF hb f]
  have "akey t1 TNil = None" by (simp add: akey_def int_key_def)
  moreover have "n_key (t_node t1 ! j) = TNil" if "j < length (t_node t1)" for j
    using that by (intro fresh(4)) (auto simp: has_key_def)
  ultimately have ok1: "tab_ok SH t1" using fresh(1) asz a1 by (simp add: tab_ok_def)
  have load1: "to_hash t1 kf (array_entries t asz) + to_hash t1 id (hash_entries t) = hash_load t asz"
    using to_hash_entries [OF asz a1 o(1)] by (simp add: kf_def)
  have small: "i < asize t \<Longrightarrow> int i < 2 ^ 31" for i using o(1) by (simp add: LJ_MAX_ASIZE_def LJ_MAX_ABITS_def)
  have ik: "i < asize t \<Longrightarrow> int_key (kf i) = Some (int i)" "i < asize t \<Longrightarrow> norm_key (kf i) = kf i" for i
    using int_key_dbl_of_int [of "int i"] dbl_of_int_stored [of "int i"] small [of i] by (simp_all add: kf_def)
  have inj: "i = j" if "i < asize t" "j < asize t" "norm_key (kf i) = norm_key (kf j)" for i j
    using ik that by (metis int_key_norm of_nat_eq_iff option.inject)
  have d1: "distinct (map (\<lambda>e. norm_key (kf (fst e))) (array_entries t asz))"
  proof -
    have "distinct (map fst (array_entries t asz))" by (simp add: array_entries_def filter_map comp_def)
    then have "distinct (array_entries t asz)" and "inj_on fst (set (array_entries t asz))" by (simp_all add: distinct_map)
    moreover have "x = y" if "x \<in> set (array_entries t asz)" "y \<in> set (array_entries t asz)" "norm_key (kf (fst x)) = norm_key (kf (fst y))" for x y
      using inj [of "fst x" "fst y"] that inj_onD [OF \<open>inj_on fst (set (array_entries t asz))\<close> _ that(1,2)] by (simp add: array_entry)
    ultimately show ?thesis unfolding distinct_map inj_on_def by blast
  qed
  obtain u1 where u1: "store_each (\<lambda>i t. lj_tab_setinth nk t (int i)) (array_entries t asz) t1 = Some (Inr (), u1)" "tab_ok SH u1"
    "asize u1 = asz" "length (t_node u1) = 2 ^ hb" "room t1 \<le> room u1 + to_hash t1 kf (array_entries t asz)"
    "\<forall>e \<in> set (array_entries t asz). \<forall>x. norm_key x = norm_key (kf (fst e)) \<longrightarrow> tab_abs u1 x = snd e"
    "\<forall>x. (\<forall>e \<in> set (array_entries t asz). norm_key x \<noteq> norm_key (kf (fst e))) \<longrightarrow> tab_abs u1 x = tab_abs t1 x"
  proof -
    have "puts SH t' (kf (fst e)) (lj_tab_setinth nk t' (int (fst e)))"
      if e: "e \<in> set (array_entries t asz)" and t': "tab_ok SH t'" "asize t' = asize t1" "akey t' (kf (fst e)) = None \<Longrightarrow> 0 < room t'" for e t'
    proof -
      have "asz \<le> fst e" "fst e < asize t" using e by (simp_all add: array_entry)
      then have "akey t' (kf (fst e)) = None" using ik a1 t'(2) by (simp add: akey_resized [OF asz])
      then show ?thesis unfolding kf_def nk_def
        using t' small [OF \<open>fst e < asize t\<close>] by (intro puts_setinth) (simp_all add: kf_def)
    qed
    then show ?thesis
      using that store_each_stores [OF ok1 _ d1, of "\<lambda>i t. lj_tab_setinth nk t (int i)"] load load1 fresh(3,5) a1 by auto
  qed
  obtain u where u: "store_each (\<lambda>k t. lj_tab_set SH nk t k) (hash_entries t) u1 = Some (Inr (), u)" "tab_ok SH u"
    "asize u = asz" "length (t_node u) = 2 ^ hb" "room u1 \<le> room u + to_hash u1 id (hash_entries t)"
    "\<forall>e \<in> set (hash_entries t). \<forall>x. norm_key x = norm_key (fst e) \<longrightarrow> tab_abs u x = snd e"
    "\<forall>x. (\<forall>e \<in> set (hash_entries t). norm_key x \<noteq> norm_key (fst e)) \<longrightarrow> tab_abs u x = tab_abs u1 x"
  proof -
    have "puts SH t' (fst e) (lj_tab_set SH nk t' (fst e))"
      if "e \<in> set (hash_entries t)" "tab_ok SH t'" "akey t' (fst e) = None \<Longrightarrow> 0 < room t'" for e t'
      unfolding nk_def using that hash_entry(1) [OF o(2) that(1)] stored_keyD(1) by (intro puts_set) auto
    then show ?thesis
      using that store_each_stores [OF u1(2), of id "hash_entries t" "\<lambda>k t. lj_tab_set SH nk t k"] distinct_hash_entries [OF o(2)]
        load load1 fresh(3) u1(3,4,5) to_hash_cong [of u1 t1 id] a1 by auto
  qed
  have "resizetab SH oom nk t asz hb = Some (Inr (), u)"
  proof (rule resizetab_runs [OF asz hb oom])
    show "hash_entries t = []" if "hmask t = 0" using hpart_okD(5) [OF o(2) that] by (simp add: hash_entries_def nilnode_def)
  qed (use u1(1) u(1) in \<open>simp_all add: t1_def\<close>)
  moreover have "tab_abs u x = tab_abs t x" for x
  proof (cases "good_key x")
    case False
    then show ?thesis using bad_key(1) [OF tab_okD(2) [OF u(2)]] bad_key(1) [OF o(2)] by simp
  next
    case True
    consider (hash) e where "e \<in> set (hash_entries t)" "norm_key x = norm_key (fst e)"
      | (array) e where "e \<in> set (array_entries t asz)" "norm_key x = norm_key (kf (fst e))" "tab_abs u x = tab_abs u1 x"
      | (new) "\<forall>e \<in> set (hash_entries t). norm_key x \<noteq> norm_key (fst e)" "\<forall>e \<in> set (array_entries t asz). norm_key x \<noteq> norm_key (kf (fst e))"
          "tab_abs u x = tab_abs t1 x"
      using u(7) u1(7) by metis
    then show ?thesis
    proof cases
      case hash
      note e = hash_entry [OF o(2) hash(1)]
      have "akey t x = None" using o(3) [OF e(2)] hash(2) akey_norm by metis
      then have "tab_abs t x = snd e" using e(1,3) hash(2) stored_keyD(2) by (simp add: tab_abs_simps)
      then show ?thesis using u(6) hash by simp
    next
      case array
      have i: "fst e < asize t" using array(1) by (simp add: array_entry)
      have "akey t x = akey t (kf (fst e))" using array(2) akey_norm by metis
      also have "\<dots> = Some (fst e)" using ik(1) [OF i] i by (simp add: akey_resized [OF o(1) refl])
      finally show ?thesis using array u1(6) by (simp add: tab_abs_simps array_entry)
    next
      case new
      show ?thesis
      proof (cases "akey t x")
        case (Some i)
        note a = akey_Some [OF Some o(1)]
        have "norm_key x = norm_key (kf i)" using a ik(2) by (simp add: kf_def)
        then have "(i, t_array t ! i) \<notin> set (array_entries t asz)" using new(2) by force
        then have i: "asz \<le> i \<Longrightarrow> t_array t ! i = TNil" using a(1) by (simp add: array_entry)
        show ?thesis
        proof (cases "i < asz")
          case True
          then have "akey t1 x = Some i" using a(2) by (simp add: akey_resized [OF asz a1])
          then show ?thesis using new(3) Some True a(1) by (simp add: tab_abs_simps t1_def resized_fields)
        next
          case False
          then have "akey t1 x = None" using a(2) by (simp add: akey_resized [OF asz a1])
          then show ?thesis using new(3) Some False i fresh(2) by (simp add: tab_abs_simps)
        qed
      next
        case None
        have "hmap (t_node t) (norm_key x) = TNil"
          using hash_entry_of [OF o(2) norm_stored [OF True]] new(1) by fastforce
        moreover have "tab_abs t1 x = TNil"
        proof (cases "akey t1 x")
          case (Some i)
          note a = akey_Some [OF Some tab_okD(1) [OF ok1]]
          have "\<not> i < asize t" using None a(2) by (auto simp: akey_resized [OF o(1) refl])
          then show ?thesis using Some a(1) a1 by (simp add: tab_abs_simps t1_def resized_fields)
        qed (simp add: tab_abs_simps fresh(2))
        ultimately show ?thesis using new(3) None by (simp add: tab_abs_simps)
      qed
    qed
  qed
  moreover have "(if hb = 0 then 0 else 2 ^ hb) \<le> room u + hash_load t asz"
    using u(5) u1(5) load1 fresh(3) to_hash_cong [of u1 t1 id "hash_entries t"] u1(3) a1 by simp
  ultimately show ?thesis using u(2-4) by (auto simp: nk_def fun_eq_iff)
qed

end
