(* ===== verification/LjTabRehash.thy ===== *)
theory LjTabRehash
  imports LjTabSet
begin

text \<open>
  The resizing of a table when its hash part is full: what \<open>rehashtab\<close> counts, the sizes it chooses, and
  why the key that caused it finds room afterwards.
\<close>

subsection \<open>Counting integer keys\<close>

lemma lj_fls_bounds: "0 < n \<Longrightarrow> 2 ^ lj_fls n \<le> n \<and> n < 2 ^ Suc (lj_fls n)"
proof -
  assume "0 < n"
  then have "(2 :: int) ^ lj_fls n \<le> int n \<and> int n < 2 ^ Suc (lj_fls n)" using log2_int_bounds [of "int n"] by (simp add: lj_fls_def)
  then have "int (2 ^ lj_fls n) \<le> int n \<and> int n < int (2 ^ Suc (lj_fls n))" by simp
  then show ?thesis by linarith
qed

lemma lj_fls_unique: "2 ^ b \<le> n \<Longrightarrow> n < 2 ^ Suc b \<Longrightarrow> lj_fls n = b"
proof -
  assume b: "2 ^ b \<le> n" "n < 2 ^ Suc b"
  have "0 < (2 :: nat) ^ b" by simp
  then have "0 < n" using b(1) by linarith
  note l = lj_fls_bounds [OF this]
  have "(2 :: nat) ^ lj_fls n < 2 ^ Suc b" "(2 :: nat) ^ b < 2 ^ Suc (lj_fls n)" using b l by linarith+
  then have "lj_fls n < Suc b" "b < Suc (lj_fls n)" by (simp_all only: power_strict_increasing_iff one_less_numeral_iff semiring_norm(76))
  then show ?thesis by simp
qed

definition ibin :: "nat \<Rightarrow> nat" where "ibin i = (if i > 2 then lj_fls (i - 1) else 0)"

lemma ibin_eq: "ibin j = b \<longleftrightarrow> (if b = 0 then j \<le> 2 else 2 ^ b < j \<and> j \<le> 2 * 2 ^ b)"
proof (cases "j \<le> 2")
  case True
  have "1 < b \<or> b = 1 \<or> b = 0" by arith
  moreover have "(2 :: nat) \<le> 2 ^ b" if "b \<noteq> 0" using that by (cases b) simp_all
  ultimately show ?thesis using True by (auto simp: ibin_def)
next
  case False
  then have l: "2 ^ lj_fls (j - 1) \<le> j - 1" "j - 1 < 2 ^ Suc (lj_fls (j - 1))" using lj_fls_bounds [of "j - 1"] by simp_all
  have "lj_fls (j - 1) \<noteq> 0" using l(2) False by (intro notI) simp
  moreover have "lj_fls (j - 1) = b \<longleftrightarrow> 2 ^ b \<le> j - 1 \<and> j - 1 < 2 ^ Suc b" using l lj_fls_unique by blast
  moreover have "2 ^ b \<le> j - 1 \<and> j - 1 < 2 ^ Suc b \<longleftrightarrow> 2 ^ b < j \<and> j \<le> 2 * 2 ^ b" using False by auto
  ultimately show ?thesis using False by (cases "b = 0") (simp_all add: ibin_def)
qed

lemma ibin_le: "ibin j \<le> b \<longleftrightarrow> j \<le> 2 * 2 ^ b"
proof
  assume "ibin j \<le> b"
  then have p: "(2 :: nat) ^ ibin j \<le> 2 ^ b" by simp
  have "j \<le> 2 * 2 ^ ibin j" using ibin_eq [of j "ibin j"] by (cases "ibin j = 0") simp_all
  then show "j \<le> 2 * 2 ^ b" using p by linarith
next
  assume j: "j \<le> 2 * 2 ^ b"
  show "ibin j \<le> b"
  proof (rule ccontr)
    assume "\<not> ibin j \<le> b"
    then have "Suc b \<le> ibin j" "ibin j \<noteq> 0" by simp_all
    then have "(2 :: nat) ^ Suc b \<le> 2 ^ ibin j" "2 ^ ibin j < j" using ibin_eq [of j "ibin j"] by (meson one_le_numeral power_increasing, simp)
    then show False using j by simp
  qed
qed

lemma length_filter_range:
  "length (filter P (drop i (take m xs))) = card {j. j < length xs \<and> i \<le> j \<and> j < m \<and> P (xs ! j)}"
proof -
  have "x < length (drop i (take m xs)) \<and> P (drop i (take m xs) ! x) \<longleftrightarrow> x + i < length xs \<and> x + i < m \<and> P (xs ! (x + i))" for x
  proof (cases "x + i < length xs \<and> x + i < m")
    case True
    then show ?thesis by (simp add: add.commute less_diff_conv)
  qed (auto simp: less_diff_conv)
  then have "{x. x < length (drop i (take m xs)) \<and> P (drop i (take m xs) ! x)} = {x. x + i < length xs \<and> x + i < m \<and> P (xs ! (x + i))}"
    by blast
  moreover have "bij_betw (\<lambda>x. x + i) {x. x + i < length xs \<and> x + i < m \<and> P (xs ! (x + i))} {j. j < length xs \<and> i \<le> j \<and> j < m \<and> P (xs ! j)}"
  proof (rule bij_betwI')
    show "\<exists>x\<in>{x. x + i < length xs \<and> x + i < m \<and> P (xs ! (x + i))}. j = x + i"
      if "j \<in> {j. j < length xs \<and> i \<le> j \<and> j < m \<and> P (xs ! j)}" for j
      using that by (intro bexI [of _ "j - i"]) auto
  qed auto
  then have "card {x. x + i < length xs \<and> x + i < m \<and> P (xs ! (x + i))} = card {j. j < length xs \<and> i \<le> j \<and> j < m \<and> P (xs ! j)}"
    by (rule bij_betw_same_card)
  ultimately show ?thesis by (simp only: length_filter_conv_card)
qed

definition used_slots :: "tvalue list \<Rightarrow> nat set" where
  "used_slots xs = {j. j < length xs \<and> xs ! j \<noteq> TNil}"

lemma finite_used_slots [simp]: "finite (used_slots xs)"
  by (simp add: used_slots_def)

lemma countarray_loop_counts:
  assumes "array \<noteq> []" "length array \<le> LJ_MAX_ASIZE" "i = (if b = 0 then 0 else min (2 ^ b + 1) (length array))"
    "length bins = LJ_MAX_ABITS" "b \<le> LJ_MAX_ABITS"
  shows "\<exists>bins'. countarray_loop array b i na bins = (na + card {j \<in> used_slots array. i \<le> j}, bins') \<and> length bins' = LJ_MAX_ABITS \<and>
    (\<forall>c < LJ_MAX_ABITS. bins' ! c = bins ! c + (if b \<le> c then card {j \<in> used_slots array. ibin j = c} else 0))"
  using assms
proof (induction array b i na bins rule: countarray_loop.induct)
  case (1 array b i na bins)
  define n where "n = length array"
  have n: "0 < n" "n \<le> 2 ^ 27 + 1" using 1(2,3) by (auto simp: n_def LJ_MAX_ASIZE_def LJ_MAX_ABITS_def)
  have i: "i = (if b = 0 then 0 else min (2 ^ b + 1) n)" using 1(4) by (simp add: n_def)
  show ?case
  proof (cases "b < LJ_MAX_ABITS")
    case False
    then have "b = 28" using 1(6) by (simp add: LJ_MAX_ABITS_def)
    then have "i = n" using i n by simp
    then have "{j \<in> used_slots array. i \<le> j} = {}" by (auto simp: used_slots_def n_def)
    then show ?thesis using False 1(5) by (auto simp: countarray_loop.simps [of array b])
  next
    case b: True
    define top where "top = (2 :: nat) * 2 ^ b"
    define top' where "top' = (if top \<ge> n then n - 1 else top)"
    show ?thesis
    proof (cases "top \<ge> n \<and> i > top'")
      case True
      then have "n \<le> i" by (auto simp: top'_def)
      then have "b \<noteq> 0" "n \<le> 2 ^ b + 1" using i n(1) by (auto split: if_splits)
      then have "ibin j < b" if "j < n" for j
        using that ibin_le [of j "b - 1"] by (cases b) auto
      then have "{j \<in> used_slots array. ibin j = c} = {}" if "b \<le> c" for c using that by (force simp: used_slots_def n_def)
      moreover have "{j \<in> used_slots array. i \<le> j} = {}" using \<open>n \<le> i\<close> by (auto simp: used_slots_def n_def)
      ultimately show ?thesis using b True 1(5)
        by (auto simp: countarray_loop.simps [of array b] Let_def top_def top'_def n_def)
    next
      case False
      define m where "m = length (filter (\<lambda>v. v \<noteq> TNil) (drop i (take (top' + 1) array)))"
      have i': "max i (top' + 1) = min (2 ^ (b + 1) + 1) n" using i n(1) by (auto simp: top'_def top_def)
      have bin: "i \<le> j \<and> j < top' + 1 \<longleftrightarrow> ibin j = b" if "j < n" for j
        using that i n(1) unfolding ibin_eq by (auto simp: top'_def top_def)
      have m: "m = card {j \<in> used_slots array. ibin j = b}"
        unfolding m_def length_filter_range by (rule arg_cong [where f = card]) (use bin in \<open>auto simp: used_slots_def n_def\<close>)
      have run: "countarray_loop array b i na bins = countarray_loop array (b + 1) (max i (top' + 1)) (na + m) (bins[b := bins ! b + m])"
        using b False by (subst countarray_loop.simps) (simp add: Let_def top_def top'_def n_def m_def)
      have tt: "top' = (if length array \<le> top then length array - 1 else top)" and ff: "\<not> (length array \<le> top \<and> top' < i)"
        using False by (simp_all add: top'_def n_def)
      have mm: "max i (top' + 1) = (if b + 1 = 0 then 0 else min (2 ^ (b + 1) + 1) (length array))" using i' by (simp add: n_def)
      have ll: "length (bins[b := bins ! b + m]) = LJ_MAX_ABITS" and bb: "b + 1 \<le> LJ_MAX_ABITS" using 1(5) b by simp_all
      obtain bins' where r: "countarray_loop array (b + 1) (max i (top' + 1)) (na + m) (bins[b := bins ! b + m]) =
          (na + m + card {j \<in> used_slots array. max i (top' + 1) \<le> j}, bins')" "length bins' = LJ_MAX_ABITS"
        "\<forall>c < LJ_MAX_ABITS. bins' ! c = bins[b := bins ! b + m] ! c + (if b + 1 \<le> c then card {j \<in> used_slots array. ibin j = c} else 0)"
        using 1(1) [OF b top_def tt ff m_def 1(2,3) mm ll bb] by blast
      have "card {j \<in> used_slots array. i \<le> j} = m + card {j \<in> used_slots array. max i (top' + 1) \<le> j}"
      proof -
        have "{j \<in> used_slots array. i \<le> j} = {j \<in> used_slots array. ibin j = b} \<union> {j \<in> used_slots array. max i (top' + 1) \<le> j}"
          unfolding used_slots_def by (intro set_eqI) (use bin in \<open>force simp: n_def not_less\<close>)
        moreover have "{j \<in> used_slots array. ibin j = b} \<inter> {j \<in> used_slots array. max i (top' + 1) \<le> j} = {}"
          using bin by (force simp: used_slots_def n_def)
        ultimately show ?thesis by (simp add: m card_Un_disjoint)
      qed
      moreover have "bins' ! c = bins ! c + (if b \<le> c then card {j \<in> used_slots array. ibin j = c} else 0)" if "c < LJ_MAX_ABITS" for c
        using r(3) that m 1(5) b by (cases "c = b") (simp_all add: nth_list_update)
      ultimately show ?thesis using r(1,2) run by simp
    qed
  qed
qed

text \<open>The integer keys of live nodes that could be in an array, and the counts after \<open>rehashtab\<close> has looked at all keys.\<close>

definition array_int :: "tvalue \<Rightarrow> nat option" where
  "array_int k = (case int_key k of Some i \<Rightarrow> if 0 \<le> i \<and> i < int LJ_MAX_ASIZE then Some (nat i) else None | None \<Rightarrow> None)"

lemma countint_eq:
  "countint k bins = (case array_int k of Some i \<Rightarrow> (1, bins[ibin i := bins ! ibin i + 1]) | None \<Rightarrow> (0, bins))"
proof (cases k)
  case (TNum d)
  define i where "i = num2int d"
  have r: "- (2 ^ 31) \<le> i" "i < 2 ^ 31" using num2int_range by (simp_all add: i_def)
  have "uint (word_of_int i :: u32) < int LJ_MAX_ASIZE \<longleftrightarrow> 0 \<le> i \<and> i < int LJ_MAX_ASIZE"
    using inarray_iff [of "\<lparr>t_array = replicate LJ_MAX_ASIZE TNil, t_node = [], t_freetop = 0, t_nomm = 0, t_colo = 0\<rparr>" i] r
    by (simp add: inarray_def)
  moreover have "i > 2 \<longleftrightarrow> nat i > 2" by linarith
  then have "(if i > 2 then lj_fls (nat i - 1) else 0) = ibin (nat i)" by (simp add: ibin_def)
  ultimately show ?thesis using TNum
    by (simp add: countint_def array_int_def int_key_def Let_def flip: i_def)
qed (simp_all add: countint_def array_int_def int_key_def)

lemma array_int_small: "array_int k = Some i \<Longrightarrow> i < LJ_MAX_ASIZE \<and> int_key k = Some (int i)"
  by (auto simp: array_int_def split: option.splits if_splits)

lemma ibin_small: "i < LJ_MAX_ASIZE \<Longrightarrow> ibin i < LJ_MAX_ABITS - 1"
  using ibin_le [of i 26] by (simp add: LJ_MAX_ASIZE_def LJ_MAX_ABITS_def)

definition counted :: "nat list \<Rightarrow> nat list \<Rightarrow> nat list \<Rightarrow> bool" where
  "counted bins bins' ks \<longleftrightarrow> length bins' = LJ_MAX_ABITS \<and>
     (\<forall>c < LJ_MAX_ABITS. bins' ! c = bins ! c + length (filter (\<lambda>i. ibin i = c) ks))"

lemma counted_append: "counted bins bins' ks \<Longrightarrow> counted bins' bins'' ks' \<Longrightarrow> counted bins bins'' (ks @ ks')"
  by (simp add: counted_def)

lemma counted_one:
  assumes "length bins = LJ_MAX_ABITS" "i < LJ_MAX_ASIZE"
  shows "counted bins (bins[ibin i := bins ! ibin i + 1]) [i]"
  using assms ibin_small [OF assms(2)] by (auto simp: counted_def nth_list_update)

definition array_ints :: "tvalue list \<Rightarrow> nat list" where
  "array_ints ks = List.map_filter array_int ks"

lemma array_ints_Nil [simp]: "array_ints [] = []"
  by (simp add: array_ints_def List.map_filter_def)

lemma array_ints_Cons: "array_ints (k # ks) = array_ints [k] @ array_ints ks"
  by (simp add: array_ints_def List.map_filter_def)

lemma array_ints_one: "array_ints [k] = (case array_int k of Some i \<Rightarrow> [i] | None \<Rightarrow> [])"
  by (simp add: array_ints_def List.map_filter_def split: option.split)

lemma countint_counts:
  assumes "length bins = LJ_MAX_ABITS"
  shows "\<exists>bins'. countint k bins = (length (array_ints [k]), bins') \<and> counted bins bins' (array_ints [k])"
proof (cases "array_int k")
  case None
  then show ?thesis using assms by (simp add: countint_eq counted_def array_ints_one)
next
  case (Some i)
  then show ?thesis using counted_one [OF assms, of i] array_int_small [OF Some] by (simp add: countint_eq array_ints_one)
qed

lemma counthash_counts:
  fixes nds :: "node list"
  assumes "length bins = LJ_MAX_ABITS"
  defines "live \<equiv> filter (\<lambda>nd. n_val nd \<noteq> TNil) nds"
  shows "\<exists>bins'. counthash nds bins = (length live, length (array_ints (map n_key live)), bins') \<and>
    counted bins bins' (array_ints (map n_key live))"
  unfolding live_def using assms(1)
proof (induction nds arbitrary: bins)
  case Nil
  then show ?case by (simp add: counted_def)
next
  case (Cons nd nds)
  show ?case
  proof (cases "n_val nd = TNil")
    case True
    then show ?thesis using Cons by simp
  next
    case False
    obtain b1 where b1: "countint (n_key nd) bins = (length (array_ints [n_key nd]), b1)"
      "counted bins b1 (array_ints [n_key nd])"
      using countint_counts [OF Cons.prems] by blast
    then have "length b1 = LJ_MAX_ABITS" by (simp add: counted_def)
    then obtain b2 where b2: "counthash nds b1 = (length (filter (\<lambda>nd. n_val nd \<noteq> TNil) nds),
        length (array_ints (map n_key (filter (\<lambda>nd. n_val nd \<noteq> TNil) nds))), b2)"
      "counted b1 b2 (array_ints (map n_key (filter (\<lambda>nd. n_val nd \<noteq> TNil) nds)))"
      using Cons.IH by blast
    have "array_ints (map n_key (filter (\<lambda>nd. n_val nd \<noteq> TNil) (nd # nds))) =
        array_ints [n_key nd] @ array_ints (map n_key (filter (\<lambda>nd. n_val nd \<noteq> TNil) nds))"
      using False array_ints_Cons [of "n_key nd" "map n_key (filter (\<lambda>nd. n_val nd \<noteq> TNil) nds)"] by simp
    then show ?thesis using False b1(1) b2(1) counted_append [OF b1(2) b2(2)] by simp
  qed
qed

lemma countarray_counts:
  assumes "length bins = LJ_MAX_ABITS" "asize t \<le> LJ_MAX_ASIZE"
  shows "\<exists>bins'. countarray t bins = (card (used_slots (t_array t)), bins') \<and>
    counted bins bins' (sorted_list_of_set (used_slots (t_array t)))"
proof (cases "t_array t = []")
  case True
  then show ?thesis using assms(1) by (simp add: countarray_def counted_def used_slots_def)
next
  case False
  let ?S = "used_slots (t_array t)"
  have len: "length (filter (\<lambda>i. ibin i = c) (sorted_list_of_set ?S)) = card {j \<in> ?S. ibin j = c}" for c
  proof -
    have "card (set (filter (\<lambda>i. ibin i = c) (sorted_list_of_set ?S))) = length (filter (\<lambda>i. ibin i = c) (sorted_list_of_set ?S))"
      by (rule distinct_card) simp
    moreover have "set (filter (\<lambda>i. ibin i = c) (sorted_list_of_set ?S)) = {j \<in> ?S. ibin j = c}" by simp
    ultimately show ?thesis by simp
  qed
  have "{j \<in> ?S. 0 \<le> j} = ?S" by simp
  moreover have "countarray t bins = countarray_loop (t_array t) 0 0 0 bins" using False by (simp add: countarray_def)
  moreover obtain bins' where "countarray_loop (t_array t) 0 0 0 bins = (0 + card {j \<in> ?S. 0 \<le> j}, bins')" "length bins' = LJ_MAX_ABITS"
    "\<forall>c < LJ_MAX_ABITS. bins' ! c = bins ! c + (if 0 \<le> c then card {j \<in> ?S. ibin j = c} else 0)"
    using countarray_loop_counts [OF False assms(2) _ assms(1), of 0 0 0] by auto
  ultimately show ?thesis by (intro exI [of _ bins']) (simp add: counted_def len)
qed

text \<open>\<open>bestasize\<close> counts the keys below the size that it chooses, which is a size that is allowed.\<close>

lemma bestasize_loop_best:
  assumes "\<forall>c < LJ_MAX_ABITS. bins ! c = length (filter (\<lambda>i. ibin i = c) ks)" "\<forall>i \<in> set ks. i < LJ_MAX_ASIZE" "nn = length ks"
    "acc = length (filter (\<lambda>i. ibin i < b) ks)" "na = length (filter (\<lambda>i. i < sz) ks)" "sz \<le> LJ_MAX_ASIZE"
  shows "\<exists>sz'. bestasize_loop bins nn b acc na sz = (length (filter (\<lambda>i. i < sz') ks), sz') \<and> sz' \<le> LJ_MAX_ASIZE"
  using assms
proof (induction bins nn b acc na sz rule: bestasize_loop.induct)
  case (1 bins nn b acc na sz)
  show ?case
  proof (cases "2 * nn > 2 ^ b \<and> acc \<noteq> nn")
    case False
    then show ?thesis using 1(8,9) by (auto simp: bestasize_loop.simps [of bins nn b])
  next
    case go: True
    have b: "b < LJ_MAX_ABITS - 1"
    proof (rule ccontr)
      assume "\<not> b < LJ_MAX_ABITS - 1"
      then have "ibin i < b" if "i \<in> set ks" for i using ibin_small [of i] 1(5) that by force
      then have "filter (\<lambda>i. ibin i < b) ks = ks" by simp
      then show False using go 1(6,7) by simp
    qed
    have "length (filter (\<lambda>i. ibin i < b + 1) ks) = length (filter (\<lambda>i. ibin i < b) ks) + length (filter (\<lambda>i. ibin i = b) ks)"
      by (induction ks) (auto simp: less_Suc_eq)
    then have acc: "acc + bins ! b = length (filter (\<lambda>i. ibin i < b + 1) ks)" using 1(4,7) b by simp
    have "ibin i < b + 1 \<longleftrightarrow> i < 2 * 2 ^ b + 1" for i using ibin_le [of i b] by auto
    then have na: "acc + bins ! b = length (filter (\<lambda>i. i < 2 * 2 ^ b + 1) ks)" using acc by simp
    have "(2 :: nat) ^ b \<le> 2 ^ 26" using b by (intro power_increasing) (simp_all add: LJ_MAX_ABITS_def)
    then have sz: "2 * 2 ^ b + 1 \<le> LJ_MAX_ASIZE" by (simp add: LJ_MAX_ASIZE_def LJ_MAX_ABITS_def)
    consider (none) "\<not> bins ! b > 0" | (more) "bins ! b > 0" "2 * (acc + bins ! b) > 2 ^ b" | (sparse) "bins ! b > 0" "\<not> 2 * (acc + bins ! b) > 2 ^ b" by blast
    then show ?thesis
    proof cases
      case none
      then have "acc = length (filter (\<lambda>i. ibin i < b + 1) ks)" using acc by simp
      from "1.IH"(3) [OF go none "1.prems"(1-3) this "1.prems"(5,6)] show ?thesis
        using go none by (simp add: bestasize_loop.simps [of bins nn b])
    next
      case more
      from "1.IH"(1) [OF go more(1) refl more(2) "1.prems"(1-3) acc na sz] show ?thesis
        using go more by (simp add: bestasize_loop.simps [of bins nn b] Let_def)
    next
      case sparse
      from "1.IH"(2) [OF go sparse(1) refl sparse(2) "1.prems"(1-3) acc "1.prems"(5,6)] show ?thesis
        using go sparse by (simp add: bestasize_loop.simps [of bins nn b] Let_def)
    qed
  qed
qed

subsection \<open>Making room\<close>

lemma hsize2hbits_bounds:
  assumes "0 < s"
  shows "0 < hsize2hbits s" "s \<le> 2 ^ hsize2hbits s" "s \<le> 2 ^ LJ_MAX_HBITS \<Longrightarrow> hsize2hbits s \<le> LJ_MAX_HBITS"
proof -
  consider "s = 1" | "1 < s" using assms by linarith
  then have "0 < hsize2hbits s \<and> s \<le> 2 ^ hsize2hbits s \<and> (s \<le> 2 ^ LJ_MAX_HBITS \<longrightarrow> hsize2hbits s \<le> LJ_MAX_HBITS)"
  proof cases
    case 2
    then have l: "2 ^ lj_fls (s - 1) \<le> s - 1" "s - 1 < 2 ^ Suc (lj_fls (s - 1))" using lj_fls_bounds [of "s - 1"] by simp_all
    have "lj_fls (s - 1) < LJ_MAX_HBITS" if "s \<le> 2 ^ LJ_MAX_HBITS"
    proof -
      have "(2 :: nat) ^ lj_fls (s - 1) < 2 ^ LJ_MAX_HBITS" using l(1) that 2 by linarith
      then show ?thesis by (simp only: power_strict_increasing_iff one_less_numeral_iff semiring_norm(76))
    qed
    then show ?thesis using 2 l(2) by (auto simp: hsize2hbits_def)
  qed (simp add: hsize2hbits_def LJ_MAX_HBITS_def)
  then show "0 < hsize2hbits s" "s \<le> 2 ^ hsize2hbits s" "s \<le> 2 ^ LJ_MAX_HBITS \<Longrightarrow> hsize2hbits s \<le> LJ_MAX_HBITS" by blast+
qed

text \<open>The number of keys with a value.\<close>

definition live_size :: "gctab \<Rightarrow> nat" where
  "live_size t = card (used_slots (t_array t)) + length (hash_entries t)"

text \<open>Of the keys that \<open>rehashtab\<close> counts, those below the new array size stay out of the hash part.\<close>

lemma array_entries_card: "length (array_entries t sz) = card {j \<in> used_slots (t_array t). sz \<le> j}"
proof -
  have "length (array_entries t sz) = length (filter (\<lambda>i. t_array t ! i \<noteq> TNil) [sz..<asize t])"
    by (simp add: array_entries_def filter_map comp_def)
  also have "\<dots> = card (set (filter (\<lambda>i. t_array t ! i \<noteq> TNil) [sz..<asize t]))" by (rule distinct_card [symmetric]) simp
  also have "set (filter (\<lambda>i. t_array t ! i \<noteq> TNil) [sz..<asize t]) = {j \<in> used_slots (t_array t). sz \<le> j}" by (auto simp: used_slots_def)
  finally show ?thesis .
qed

definition in_part :: "nat \<Rightarrow> tvalue \<Rightarrow> bool" where
  "in_part sz k \<longleftrightarrow> (case int_key k of Some i \<Rightarrow> 0 \<le> i \<and> i < int sz | None \<Rightarrow> False)"

lemma array_ints_part:
  assumes "sz \<le> LJ_MAX_ASIZE"
  shows "length (filter (\<lambda>i. i < sz) (array_ints ks)) = length (filter (in_part sz) ks)"
proof (induction ks)
  case (Cons k ks)
  have "length (filter (\<lambda>i. i < sz) (array_ints [k])) = (if in_part sz k then 1 else 0)"
    using assms by (auto simp: array_ints_one array_int_def in_part_def split: option.split)
  then show ?case using Cons by (simp add: array_ints_Cons [of k ks])
qed simp

lemma hash_load_count:
  "hash_load t sz + card {j \<in> used_slots (t_array t). j < sz} + length (filter (in_part sz) (map fst (hash_entries t))) = live_size t"
proof -
  have "card (used_slots (t_array t)) = card {j \<in> used_slots (t_array t). sz \<le> j} + card {j \<in> used_slots (t_array t). j < sz}"
    by (subst card_Un_disjoint [symmetric]) (auto intro: arg_cong [where f = card])
  moreover have "length (hash_entries t) = length (filter (\<lambda>e. \<not> in_part sz (fst e)) (hash_entries t)) + length (filter (in_part sz) (map fst (hash_entries t)))"
    using sum_length_filter_compl [of "\<lambda>e. in_part sz (fst e)" "hash_entries t"] by (simp add: filter_map comp_def)
  moreover have "(case int_key k of Some i \<Rightarrow> i < 0 \<or> int sz \<le> i | None \<Rightarrow> True) = (\<not> in_part sz k)" for k
    by (auto simp: in_part_def split: option.split)
  ultimately show ?thesis by (simp add: live_size_def hash_load_def array_entries_card)
qed

lemma rehash_sizes:
  assumes "asize t \<le> LJ_MAX_ASIZE"
  shows "\<exists>sz total. sz \<le> LJ_MAX_ASIZE \<and> total = hash_load t sz + (if in_part sz ek then 0 else 1) \<and>
    rehashtab SH oom nk t ek = resizetab SH oom nk t sz (hsize2hbits total)"
proof -
  define hk where "hk = map n_key (filter (\<lambda>nd. n_val nd \<noteq> TNil) (t_node t))"
  define ks where "ks = (sorted_list_of_set (used_slots (t_array t)) @ array_ints hk) @ array_ints [ek]"
  let ?b0 = "replicate LJ_MAX_ABITS (0 :: nat)"
  obtain b1 where b1: "countarray t ?b0 = (card (used_slots (t_array t)), b1)" "counted ?b0 b1 (sorted_list_of_set (used_slots (t_array t)))"
    using countarray_counts [OF _ assms, of ?b0] by auto
  moreover obtain b2 where b2: "counthash (t_node t) b1 = (length (hash_entries t), length (array_ints hk), b2)" "counted b1 b2 (array_ints hk)"
    using counthash_counts [of b1 "t_node t"] b1(2) by (auto simp: hk_def hash_entries_def counted_def)
  moreover obtain b3 where b3: "countint ek b2 = (length (array_ints [ek]), b3)" "counted b2 b3 (array_ints [ek])"
    using countint_counts [of b2 ek] b2(2) by (auto simp: counted_def)
  ultimately have c: "counted ?b0 b3 ks" unfolding ks_def using counted_append by blast
  have small: "\<forall>i \<in> set ks. i < LJ_MAX_ASIZE"
    using assms array_int_small by (auto simp: ks_def used_slots_def array_ints_def List.map_filter_def)
  obtain sz where sz: "bestasize b3 (length ks) = (length (filter (\<lambda>i. i < sz) ks), sz)" "sz \<le> LJ_MAX_ASIZE"
    using bestasize_loop_best [of b3 ks "length ks" 0 0 0 0] c small by (auto simp: bestasize_def counted_def)
  have "length ks = card (used_slots (t_array t)) + length (array_ints hk) + length (array_ints [ek])"
    by (simp add: ks_def)
  then have run: "rehashtab SH oom nk t ek = resizetab SH oom nk t sz
      (hsize2hbits (1 + card (used_slots (t_array t)) + length (hash_entries t) - length (filter (\<lambda>i. i < sz) ks)))"
    using b1(1) b2(1) b3(1) sz(1) by (simp add: rehashtab_def Let_def)
  have "map fst (hash_entries t) = hk" by (simp add: hk_def hash_entries_def comp_def)
  moreover have "length (filter (\<lambda>i. i < sz) (sorted_list_of_set (used_slots (t_array t)))) = card {j \<in> used_slots (t_array t). j < sz}"
  proof -
    have "card (set (filter (\<lambda>i. i < sz) (sorted_list_of_set (used_slots (t_array t))))) = length (filter (\<lambda>i. i < sz) (sorted_list_of_set (used_slots (t_array t))))"
      by (rule distinct_card) simp
    moreover have "set (filter (\<lambda>i. i < sz) (sorted_list_of_set (used_slots (t_array t)))) = {j \<in> used_slots (t_array t). j < sz}" by auto
    ultimately show ?thesis by simp
  qed
  ultimately have "length (filter (\<lambda>i. i < sz) ks) = card {j \<in> used_slots (t_array t). j < sz} +
      length (filter (in_part sz) (map fst (hash_entries t))) + (if in_part sz ek then 1 else 0)"
    using array_ints_part [OF sz(2), of hk] array_ints_part [OF sz(2), of "[ek]"] by (simp add: ks_def)
  then have "1 + card (used_slots (t_array t)) + length (hash_entries t) - length (filter (\<lambda>i. i < sz) ks) = hash_load t sz + (if in_part sz ek then 0 else 1)"
    using hash_load_count [of t sz] unfolding live_size_def by (cases "in_part sz ek"; simp)
  then have "rehashtab SH oom nk t ek = resizetab SH oom nk t sz (hsize2hbits (hash_load t sz + (if in_part sz ek then 0 else 1)))"
    by (simp only: run)
  then show ?thesis using sz(2) by blast
qed

lemma rehashtab_room:
  assumes ok: "tab_ok SH t" and oom: "\<And>n. \<not> oom n" and few: "live_size t < 2 ^ LJ_MAX_HBITS"
  shows "\<exists>u. rehashtab SH oom (lj_tab_newkey SH oom (Suc d)) t ek = Some (Inr (), u) \<and> tab_ok SH u \<and> tab_abs u = tab_abs t \<and>
    (akey u ek = None \<longrightarrow> 0 < room u)"
proof -
  obtain sz total where s: "sz \<le> LJ_MAX_ASIZE" "total = hash_load t sz + (if in_part sz ek then 0 else 1)"
    "rehashtab SH oom (lj_tab_newkey SH oom (Suc d)) t ek = resizetab SH oom (lj_tab_newkey SH oom (Suc d)) t sz (hsize2hbits total)"
    using rehash_sizes [OF tab_okD(1) [OF ok], of ek SH oom "lj_tab_newkey SH oom (Suc d)"] by (elim exE conjE)
  have "total \<le> hash_load t sz + 1" using s(2) by simp
  then have le: "total \<le> 2 ^ LJ_MAX_HBITS" using few hash_load_count [of t sz] by linarith
  have "hsize2hbits total \<le> LJ_MAX_HBITS \<and> total \<le> (if hsize2hbits total = 0 then 0 else 2 ^ hsize2hbits total)"
  proof (cases "total = 0")
    case True
    then have "hsize2hbits total = 0" by (simp add: hsize2hbits_def)
    with True show ?thesis by simp
  next
    case False
    then have p: "0 < total" by simp
    show ?thesis using hsize2hbits_bounds(1,2) [OF p] hsize2hbits_bounds(3) [OF p le] by simp
  qed
  then have hb: "hsize2hbits total \<le> LJ_MAX_HBITS" "total \<le> (if hsize2hbits total = 0 then 0 else 2 ^ hsize2hbits total)"
    by blast+
  then have "hash_load t sz \<le> (if hsize2hbits total = 0 then 0 else 2 ^ hsize2hbits total)" using s(2) by linarith
  from resizetab_keeps [where oom = oom and d = d, OF ok s(1) hb(1) oom this] obtain u where
    u: "resizetab SH oom (lj_tab_newkey SH oom (Suc d)) t sz (hsize2hbits total) = Some (Inr (), u)" "tab_ok SH u" "tab_abs u = tab_abs t"
      "asize u = sz" "(if hsize2hbits total = 0 then 0 else 2 ^ hsize2hbits total) \<le> room u + hash_load t sz"
    by blast
  have "akey u ek = None \<longleftrightarrow> \<not> in_part sz ek"
    by (auto simp: akey_resized [OF s(1) u(4)] in_part_def split: option.split)
  then have "akey u ek = None \<longrightarrow> 0 < room u" using s(2) hb(2) u(5) by auto
  then show ?thesis using u(1-3) s(3) by (intro exI [of _ u]) simp
qed

subsection \<open>Storing a value\<close>

text \<open>
  \<open>lua_rawset\<close> on a table with fewer than \<open>2 ^ LJ_MAX_HBITS\<close> live keys and memory left: it ends, no call of
  \<open>lj_tab_newkey\<close> within \<open>rehashtab\<close> resizes the table again, and the result is the updated map.
\<close>

lemma tab_store_updates:
  assumes ok: "tab_ok SH t" and k: "good_key k" and oom: "\<And>n. \<not> oom n" and few: "live_size t < 2 ^ LJ_MAX_HBITS"
  shows "\<exists>u. tab_store SH oom t k v = Some (Inr (), u) \<and> tab_ok SH u \<and> (\<forall>x. tab_abs u x = (if norm_key x = norm_key k then v else tab_abs t x))"
proof -
  have fin: "\<exists>u. tab_store SH oom t k v = Some (Inr (), u) \<and> tab_ok SH u \<and> (\<forall>x. tab_abs u x = (if norm_key x = norm_key k then v else tab_abs t x))"
    if "lj_tab_set SH (lj_tab_newkey SH oom 2) t k = Some (Inr sl, t')" "stores SH t1 k v (put_slot sl v t')" "tab_abs t1 = tab_abs t" for sl t' t1
    using that by (auto simp: tab_store_def stores_def)
  have two: "(2 :: nat) = Suc (Suc 0)" by simp
  note o = tab_okD [OF ok]
  let ?t = "t\<lparr>t_nomm := 0\<rparr>"
  have hp: "hpart_ok SH ?t" using hpart_ok_cong [of ?t t] o(2) by simp
  have ak: "akey ?t x = akey t x" for x by (rule akey_cong) simp
  have okt: "tab_ok SH ?t" "tab_abs ?t = tab_abs t" using ok hp ak by (auto simp: tab_ok_def tab_abs_def fun_eq_iff split: option.split)
  show ?thesis
  proof (cases "akey t k")
    case (Some i)
    then show ?thesis using fin [OF set_at_array [OF Some] stores_array [OF ok Some] refl] by blast
  next
    case None
    obtain r where r: "located (t_node t) (norm_key k) r" and set: "lj_tab_set SH (lj_tab_newkey SH oom 2) t k =
        (case r of Some j \<Rightarrow> Some (Inr (NodeSlot j), ?t) | None \<Rightarrow> lj_tab_newkey SH oom 2 ?t (norm_key k))"
      using set_at_hash [OF o(2) k None] by blast
    show ?thesis
    proof (cases r)
      case (Some j)
      have "stores SH t k v (put_slot (NodeSlot j) v ?t)"
        using r Some by (intro stores_node [OF ok k None hp]) (auto simp: located_def room_def)
      then show ?thesis using fin [OF _ _ refl] set Some by simp
    next
      case new: None
      define m where "m = norm_key k"
      have m: "stored_key m" "good_key m" "norm_key m = norm_key k" using norm_stored [OF k] norm_good [OF k] by (simp_all add: m_def)
      have nk: "\<not> has_key (t_node ?t) m" using r new by (simp add: located_def m_def)
      show ?thesis
      proof (cases "find_free_node (t_node ?t) (t_freetop ?t) \<noteq> None \<or> n_val (t_node ?t ! hashkey SH ?t m) = TNil \<and> 0 < hmask ?t")
        case True
        obtain n t' where "lj_tab_newkey SH oom (Suc (Suc 0)) ?t m = Some (Inr (NodeSlot n), t')" and p: "placed SH ?t m n t'"
          using newkey_places [OF hp m(1) nk True] by blast
        then have "lj_tab_set SH (lj_tab_newkey SH oom 2) t k = Some (Inr (NodeSlot n), t')" using set new by (simp add: m_def two)
        moreover have "stores SH t k v (put_slot (NodeSlot n) v t')"
          using p by (intro stores_node [OF ok k None]) (auto simp: placed_def room_def m_def)
        ultimately show ?thesis by (rule fin) simp
      next
        case False
        have "live_size ?t < 2 ^ LJ_MAX_HBITS" using few by (simp add: live_size_def hash_entries_def)
        from rehashtab_room [where oom = oom and d = 0 and ek = m, OF okt(1) oom this]
        obtain u where u: "rehashtab SH oom (lj_tab_newkey SH oom (Suc 0)) ?t m = Some (Inr (), u)" "tab_ok SH u" "tab_abs u = tab_abs ?t"
          "akey u m = None \<longrightarrow> 0 < room u" by (elim exE conjE)
        have "\<exists>sl t'. lj_tab_set SH (lj_tab_newkey SH oom (Suc 0)) u m = Some (Inr sl, t') \<and> (\<forall>v. stores SH u m v (put_slot sl v t'))"
          by (rule stores_put [OF u(2) m(2)]) (simp add: u(4))
        then obtain sl t' where s: "lj_tab_set SH (lj_tab_newkey SH oom (Suc 0)) u m = Some (Inr sl, t')" "\<forall>v. stores SH u m v (put_slot sl v t')"
          by (elim exE conjE)
        have "lj_tab_newkey SH oom (Suc (Suc 0)) ?t m = lj_tab_set SH (lj_tab_newkey SH oom (Suc 0)) u m"
          using False u(1) by (subst lj_tab_newkey.simps(2)) (simp add: Let_def del: lj_tab_newkey.simps)
        then have "lj_tab_set SH (lj_tab_newkey SH oom 2) t k = Some (Inr sl, t')" using set new s(1) by (simp add: m_def two)
        moreover have "stores SH u k v (put_slot sl v t')" using s(2) m(3) akey_norm [of u k] by (simp add: stores_def m_def)
        ultimately show ?thesis by (rule fin) (simp add: u(3) okt(2))
      qed
    qed
  qed
qed

text \<open>The live keys are those that the map gives a value; storing adds one at most.\<close>

definition live_keys :: "gctab \<Rightarrow> tvalue set" where
  "live_keys t = {k. stored_key k \<and> tab_abs t k \<noteq> TNil}"

abbreviation int_of :: "nat \<Rightarrow> tvalue" where "int_of i \<equiv> TNum (dbl_of_int (int i))"

lemma int_of_key:
  assumes "i < 2 ^ 31"
  shows "int_key (int_of i) = Some (int i)" "stored_key (int_of i)"
  using int_key_dbl_of_int [of "int i"] dbl_of_int_stored(1) [of "int i"] assms by simp_all

lemma akey_int_of:
  assumes "asize t \<le> LJ_MAX_ASIZE" "i < 2 ^ 31"
  shows "akey t (int_of i) = (if i < asize t then Some i else None)"
  using assms by (simp add: akey_resized [OF assms(1) refl] int_of_key)

lemma live_keys_parts:
  assumes "tab_ok SH t"
  shows "live_keys t = int_of ` used_slots (t_array t) \<union> fst ` set (hash_entries t)"
    "inj_on int_of (used_slots (t_array t))" "inj_on fst (set (hash_entries t))"
    "int_of ` used_slots (t_array t) \<inter> fst ` set (hash_entries t) = {}"
proof -
  note o = tab_okD [OF assms]
  have small: "i < 2 ^ 31" if "i < asize t" for i using that o(1) by (simp add: LJ_MAX_ASIZE_def LJ_MAX_ABITS_def)
  note a = akey_int_of [OF o(1) small]
  have slot: "akey t (int_of i) = Some i" "int_of i \<in> live_keys t" if "i \<in> used_slots (t_array t)" for i
    using that a [of i] int_of_key(2) [OF small [of i]] by (auto simp: used_slots_def live_keys_def tab_abs_simps)
  have entry: "akey t (fst e) = None" "fst e \<in> live_keys t" if "e \<in> set (hash_entries t)" for e
    using hash_entry [OF o(2) that] o(3) stored_keyD(2) by (auto simp: live_keys_def tab_abs_simps)
  have "k \<in> int_of ` used_slots (t_array t) \<union> fst ` set (hash_entries t)" if "k \<in> live_keys t" for k
  proof (cases "akey t k")
    case (Some i)
    then show ?thesis
      using that akey_Some [OF Some o(1)] stored_keyD(2) [of k] by (auto simp: live_keys_def used_slots_def tab_abs_simps)
  next
    case None
    then show ?thesis
      using that hash_entry_of [OF o(2), of k] stored_keyD(2) [of k] by (force simp: live_keys_def tab_abs_simps)
  qed
  then show "live_keys t = int_of ` used_slots (t_array t) \<union> fst ` set (hash_entries t)"
    using slot(2) entry(2) by blast
  show "inj_on int_of (used_slots (t_array t))"
  proof (rule inj_onI)
    fix i j
    assume ij: "i \<in> used_slots (t_array t)" "j \<in> used_slots (t_array t)" "int_of i = int_of j"
    from slot(1) [OF ij(1)] have "akey t (int_of j) = Some i" unfolding ij(3) .
    with slot(1) [OF ij(2)] show "i = j" by (simp only: option.inject)
  qed
  show "inj_on fst (set (hash_entries t))"
  proof (rule inj_onI)
    fix x y
    assume "x \<in> set (hash_entries t)" "y \<in> set (hash_entries t)" "fst x = fst y"
    then have "snd x = snd y" using hash_entry(3) [OF o(2), of x] hash_entry(3) [OF o(2), of y] by simp
    with \<open>fst x = fst y\<close> show "x = y" by (rule prod_eqI)
  qed
  show "int_of ` used_slots (t_array t) \<inter> fst ` set (hash_entries t) = {}"
  proof -
    have "akey t k \<noteq> None" if "k \<in> int_of ` used_slots (t_array t)" for k using that slot(1) by (elim imageE) simp
    moreover have "akey t k = None" if "k \<in> fst ` set (hash_entries t)" for k using that entry(1) by (elim imageE) simp
    ultimately show ?thesis by blast
  qed
qed

lemma live_card:
  assumes "tab_ok SH t"
  shows "finite (live_keys t)" "live_size t = card (live_keys t)"
proof -
  note p = live_keys_parts [OF assms]
  show "finite (live_keys t)" by (simp add: p(1))
  have "distinct (map (\<lambda>e. norm_key (fst e)) (hash_entries t))" by (rule distinct_hash_entries [OF tab_okD(2) [OF assms]])
  then have "distinct (hash_entries t)" by (simp add: distinct_map)
  then have "length (hash_entries t) = card (set (hash_entries t))" by (simp add: distinct_card)
  then show "live_size t = card (live_keys t)"
    using p(4) by (simp add: live_size_def p(1) card_Un_disjoint card_image [OF p(2)] card_image [OF p(3)])
qed

lemma live_stored:
  assumes "tab_ok SH t" "tab_ok SH u" "\<forall>x. tab_abs u x = (if norm_key x = norm_key k then v else tab_abs t x)"
  shows "live_size u \<le> Suc (live_size t)"
proof -
  have "live_keys u \<subseteq> insert (norm_key k) (live_keys t)"
    using assms(3) stored_keyD(2) by (auto simp: live_keys_def split: if_splits)
  then have "card (live_keys u) \<le> card (insert (norm_key k) (live_keys t))"
    using live_card(1) [OF assms(1)] by (intro card_mono) simp_all
  then show ?thesis
    using live_card [OF assms(1)] live_card(2) [OF assms(2)] by (simp add: card_insert_if split: if_splits)
qed

text \<open>A new table is the empty map.\<close>

lemma new_table:
  assumes "lj_tab_new oom asz hb = Inr t"
  shows "tab_ok SH t" "tab_abs t k = TNil" "live_size t = 0"
proof -
  have n: "t_array t = replicate asz TNil \<and> asz \<le> LJ_MAX_ASIZE \<and> hb \<le> LJ_MAX_HBITS \<and>
    t_node t = (if hb = 0 then [nilnode] else replicate (2 ^ hb) nilnode) \<and> t_freetop t = (if hb = 0 then 0 else 2 ^ hb)"
  proof -
    have "LJ_MAX_COLOSIZE \<le> LJ_MAX_ASIZE" by (simp add: LJ_MAX_COLOSIZE_def LJ_MAX_ASIZE_def LJ_MAX_ABITS_def)
    then show ?thesis
      using assms by (cases "hb = 0"; cases "hb > LJ_MAX_HBITS") (auto simp: lj_tab_new_def newhpart_def Let_def split: if_splits)
  qed
  then have n: "t_array t = replicate asz TNil" "asz \<le> LJ_MAX_ASIZE" "hb \<le> LJ_MAX_HBITS"
    "t_node t = (if hb = 0 then [nilnode] else replicate (2 ^ hb) nilnode)" "t_freetop t = (if hb = 0 then 0 else 2 ^ hb)"
    by blast+
  note f = fresh_hpart [OF n(3-5)]
  have "akey t (n_key (t_node t ! j)) = None" if "j < length (t_node t)" for j
  proof -
    have "n_key (t_node t ! j) = TNil" using that by (intro f(4)) (auto simp: has_key_def)
    then show ?thesis by (simp add: akey_def int_key_def)
  qed
  then show ok: "tab_ok SH t" using n f(1) by (simp add: tab_ok_def)
  show abs: "tab_abs t k = TNil" for k
  proof (cases "akey t k")
    case (Some i)
    then show ?thesis using akey_Some(1) [OF Some] n by (simp add: tab_abs_simps)
  qed (simp add: tab_abs_simps f(2))
  show "live_size t = 0" using live_card [OF ok] abs by (simp add: live_keys_def)
qed

text \<open>A sequence of stores.\<close>

primrec tab_stores :: "(u32 \<Rightarrow> u32) \<Rightarrow> (nat \<Rightarrow> bool) \<Rightarrow> (tvalue \<times> tvalue) list \<Rightarrow> gctab \<Rightarrow> unit tab_res" where
  "tab_stores SH oom [] t = Some (Inr (), t)"
| "tab_stores SH oom (e # es) t =
     do { (r, t) \<leftarrow> tab_store SH oom t (fst e) (snd e);
          case r of Inl err \<Rightarrow> Some (Inl err, t) | Inr _ \<Rightarrow> tab_stores SH oom es t }"

text \<open>The value that the last store to a key has left.\<close>

definition last_value :: "(tvalue \<times> tvalue) list \<Rightarrow> tvalue \<Rightarrow> tvalue option" where
  "last_value es k = map_of (rev (map (\<lambda>e. (norm_key (fst e), snd e)) es)) (norm_key k)"

lemma tab_stores_update:
  assumes "tab_ok SH t" "\<forall>e \<in> set es. good_key (fst e)" "\<And>n. \<not> oom n" "live_size t + length es \<le> 2 ^ LJ_MAX_HBITS"
  shows "\<exists>u. tab_stores SH oom es t = Some (Inr (), u) \<and> tab_ok SH u \<and>
    (\<forall>x. tab_abs u x = (case last_value es x of Some v \<Rightarrow> v | None \<Rightarrow> tab_abs t x))"
  using assms
proof (induction es arbitrary: t)
  case Nil
  then show ?case by (simp add: last_value_def)
next
  case (Cons e es)
  have "live_size t < 2 ^ LJ_MAX_HBITS" "good_key (fst e)" using Cons.prems(2,4) by simp_all
  then obtain t1 where t1: "tab_store SH oom t (fst e) (snd e) = Some (Inr (), t1)" "tab_ok SH t1"
    "\<forall>x. tab_abs t1 x = (if norm_key x = norm_key (fst e) then snd e else tab_abs t x)"
    using tab_store_updates [where oom = oom, OF Cons.prems(1) _ Cons.prems(3)] by blast
  have "live_size t1 + length es \<le> 2 ^ LJ_MAX_HBITS" using live_stored [OF Cons.prems(1) t1(2,3)] Cons.prems(4) by simp
  then obtain u where u: "tab_stores SH oom es t1 = Some (Inr (), u)" "tab_ok SH u"
    "\<forall>x. tab_abs u x = (case last_value es x of Some v \<Rightarrow> v | None \<Rightarrow> tab_abs t1 x)"
    using Cons.IH [OF t1(2) _ Cons.prems(3)] Cons.prems(2) by auto
  have "tab_abs u x = (case last_value (e # es) x of Some v \<Rightarrow> v | None \<Rightarrow> tab_abs t x)" for x
    using u(3) t1(3) by (auto simp: last_value_def map_add_def split: option.splits)
  then show ?case using t1(1) u(1,2) by auto
qed

end
