(* ===== verification/LjTabWalk.thy ===== *)
theory LjTabWalk
  imports LjTabRehash
begin

text \<open>
  The length of a table and the traversal of its entries.
\<close>

subsection \<open>Length\<close>

text \<open>Whether the table has a value for an integer that is converted to \<open>int32_t\<close>.\<close>

definition int_present :: "gctab \<Rightarrow> nat \<Rightarrow> bool option" where
  "int_present t j =
     do { tv \<leftarrow> lj_tab_getint t (sint (of_nat j :: u32));
          Some (case tv of None \<Rightarrow> False | Some sl \<Rightarrow> slot_val t sl \<noteq> TNil) }"

partial_function (option) linear_search :: "gctab \<Rightarrow> nat \<Rightarrow> nat option" where
  "linear_search t i =
     do { p \<leftarrow> int_present t i;
          if p then linear_search t ((i + 1) mod 2 ^ 32) else Some (i - 1) }"

partial_function (option) binary_search :: "gctab \<Rightarrow> nat \<Rightarrow> nat \<Rightarrow> nat option" where
  "binary_search t i j =
     (if j - i > 1 then
        let m = (i + j) div 2 in
        do { p \<leftarrow> int_present t m;
             if p then binary_search t m j else binary_search t i m }
      else Some i)"

partial_function (option) unbound_loop :: "gctab \<Rightarrow> nat \<Rightarrow> nat \<Rightarrow> nat option" where
  "unbound_loop t i j =
     do { p \<leftarrow> int_present t j;
          if p then
            let i = j; j = j * 2 in
            if j > 2 ^ 31 - 1 - 2 then linear_search t 1 else unbound_loop t i j
          else binary_search t i j }"

declare linear_search.simps [code] binary_search.simps [code] unbound_loop.simps [code]

definition unbound_search :: "gctab \<Rightarrow> nat \<Rightarrow> nat option" where
  "unbound_search t j = unbound_loop t j (j + 1)"

text \<open>The search in the array part.\<close>

function array_search :: "tvalue list \<Rightarrow> nat \<Rightarrow> nat \<Rightarrow> nat" where
  "array_search array i j =
     (if j - i > 1 then
        let m = (i + j) div 2 in
        if array ! (m - 1) = TNil then array_search array i m else array_search array m j
      else i - 1)"
  by pat_completeness auto
termination
  by (relation "measure (\<lambda>(array, i, j). j - i)") auto

declare array_search.simps [simp del]

definition lj_tab_len :: "gctab \<Rightarrow> nat option" where
  "lj_tab_len t =
     (let j = asize t in
      if j > 1 \<and> t_array t ! (j - 1) = TNil then Some (array_search (t_array t) 1 j)
      else
        let j = (if j > 0 then j - 1 else j) in
        if hmask t = 0 then Some j else unbound_search t j)"

definition has_int :: "gctab \<Rightarrow> nat \<Rightarrow> bool" where "has_int t j \<longleftrightarrow> tab_abs t (int_of j) \<noteq> TNil"

lemma int_present_eq:
  assumes "tab_ok SH t" "j < 2 ^ 31"
  shows "int_present t j = Some (has_int t j)"
proof -
  note o = tab_okD [OF assms(1)]
  have s: "sint (of_nat j :: u32) = int j"
  proof -
    have "signed_take_bit 31 (int j) = int j" using assms(2) by (intro signed_take_bit_int_eq_self) simp_all
    then show ?thesis by (simp add: signed_of_nat)
  qed
  have "lj_tab_get SH t (int_of j) = do { sl \<leftarrow> lj_tab_getint t (int j); Some (case sl of None \<Rightarrow> TNil | Some sl \<Rightarrow> slot_val t sl) }"
    using num2int_dbl_of_int [of "int j"] dbl_of_int_number(1) [of "int j"] assms(2)
    by (simp add: lj_tab_get_def Let_def dbl_eq_iff)
  then have "do { sl \<leftarrow> lj_tab_getint t (int j); Some (case sl of None \<Rightarrow> TNil | Some sl \<Rightarrow> slot_val t sl) } = Some (tab_abs t (int_of j))"
    using get_reads [OF assms(1)] by simp
  then show ?thesis
    by (cases "lj_tab_getint t (int j)") (auto simp: int_present_def s has_int_def split: option.splits)
qed

text \<open>A border is zero or an index with a value, such that the next one has none.\<close>

definition border :: "gctab \<Rightarrow> nat \<Rightarrow> bool" where
  "border t n \<longleftrightarrow> (n = 0 \<or> has_int t n) \<and> \<not> has_int t (n + 1)"

lemma binary_search_border:
  assumes "tab_ok SH t" "i < j" "j < 2 ^ 31" "i = 0 \<or> has_int t i" "\<not> has_int t j"
  shows "\<exists>n. binary_search t i j = Some n \<and> border t n"
  using assms(2-5)
proof (induction "j - i" arbitrary: i j rule: less_induct)
  case less
  show ?case
  proof (cases "j - i > 1")
    case False
    then have "j = i + 1" using less.prems(1) by simp
    then show ?thesis using less.prems by (simp add: binary_search.simps [of t i] border_def)
  next
    case True
    define m where "m = (i + j) div 2"
    have m: "i < m" "m < j" using True by (auto simp: m_def)
    have p: "int_present t m = Some (has_int t m)" using int_present_eq [OF assms(1)] m(2) less.prems(2) by simp
    then have "binary_search t i j = (if has_int t m then binary_search t m j else binary_search t i m)"
      using True by (subst binary_search.simps) (simp flip: m_def)
    then show ?thesis using less.hyps [of j m] less.hyps [of m i] m less.prems by simp
  qed
qed

text \<open>The linear search ends since there are fewer live keys than integers.\<close>

lemma live_bound:
  assumes "tab_ok SH t"
  shows "live_size t < 2 ^ 28"
proof -
  note o = tab_okD [OF assms]
  have "card (used_slots (t_array t)) \<le> card {..<asize t}" by (intro card_mono) (auto simp: used_slots_def)
  then have a: "card (used_slots (t_array t)) \<le> 2 ^ 27 + 1" using o(1) by (simp add: LJ_MAX_ASIZE_def LJ_MAX_ABITS_def)
  obtain hb where hb: "hb \<le> LJ_MAX_HBITS" "length (t_node t) = 2 ^ hb" using hpart_okD(1) [OF o(2)] by blast
  have "length (hash_entries t) \<le> length (t_node t)" by (simp add: hash_entries_def)
  moreover have "(2 :: nat) ^ hb \<le> 2 ^ 26" using hb(1) by (intro power_increasing) (simp_all add: LJ_MAX_HBITS_def)
  ultimately show ?thesis using a hb(2) by (simp add: live_size_def)
qed

lemma some_int_absent:
  assumes "tab_ok SH t"
  shows "\<exists>j. 1 \<le> j \<and> j \<le> 2 ^ 28 \<and> \<not> has_int t j"
proof (rule ccontr)
  assume "\<nexists>j. 1 \<le> j \<and> j \<le> 2 ^ 28 \<and> \<not> has_int t j"
  then have all: "has_int t j" if "j \<in> {1..2 ^ 28}" for j using that by auto
  have "int_of ` {1..2 ^ 28} \<subseteq> live_keys t"
    using all int_of_key(2) by (auto simp: live_keys_def has_int_def)
  then have "card (int_of ` {1..2 ^ 28}) \<le> live_size t"
    using live_card [OF assms] by (metis card_mono)
  moreover have "inj_on int_of {1..2 ^ 28}"
  proof (rule inj_onI)
    fix i j :: nat
    assume ij: "i \<in> {1..2 ^ 28}" "j \<in> {1..2 ^ 28}" "int_of i = int_of j"
    have "int_key (int_of i) = Some (int i)" "int_key (int_of j) = Some (int j)" using ij(1,2) by (simp_all add: int_of_key)
    then have "Some (int i) = Some (int j)" unfolding ij(3) by (rule trans [OF sym])
    then show "i = j" by simp
  qed
  then have "card (int_of ` {1..2 ^ 28}) = 2 ^ 28" by (simp add: card_image)
  ultimately show False using live_bound [OF assms] by simp
qed

lemma linear_search_border:
  assumes "tab_ok SH t" "1 \<le> i" "i = 1 \<or> has_int t (i - 1)" "i \<le> b" "b \<le> 2 ^ 28" "\<not> has_int t b"
  shows "\<exists>n. linear_search t i = Some n \<and> border t n"
  using assms(2-4)
proof (induction "b - i" arbitrary: i)
  case 0
  then have "i = b" by simp
  then show ?case using 0 assms(5,6) int_present_eq [OF assms(1), of b]
    by (auto simp: linear_search.simps [of t b] border_def)
next
  case (Suc x)
  have p: "int_present t i = Some (has_int t i)" using int_present_eq [OF assms(1), of i] Suc.prems(3) assms(5) by simp
  show ?case
  proof (cases "has_int t i")
    case True
    have "i < b" using True assms(6) Suc.prems(3) by (cases "i = b") auto
    moreover have "(i + 1) mod 2 ^ 32 = i + 1" using Suc.prems(3) assms(5) by (intro mod_less) simp
    ultimately show ?thesis using Suc.hyps(1) [of "i + 1"] Suc.hyps(2) True p by (simp add: linear_search.simps [of t i])
  next
    case False
    then show ?thesis using p Suc.prems by (auto simp: linear_search.simps [of t i] border_def)
  qed
qed

lemma unbound_loop_border:
  assumes "tab_ok SH t" "i < j" "j < 2 ^ 31" "i = 0 \<or> has_int t i"
  shows "\<exists>n. unbound_loop t i j = Some n \<and> border t n"
  using assms(2-4)
proof (induction "2 ^ 31 - j" arbitrary: i j rule: less_induct)
  case less
  have p: "int_present t j = Some (has_int t j)" using int_present_eq [OF assms(1)] less.prems(2) by simp
  show ?case
  proof (cases "has_int t j")
    case False
    then show ?thesis using p binary_search_border [OF assms(1) less.prems] by (simp add: unbound_loop.simps [of t i])
  next
    case True
    show ?thesis
    proof (cases "j * 2 > 2 ^ 31 - 1 - 2")
      case big: True
      obtain b where "1 \<le> b" "b \<le> 2 ^ 28" "\<not> has_int t b" using some_int_absent [OF assms(1)] by blast
      then show ?thesis using linear_search_border [OF assms(1), of 1 b] True p big by (simp add: unbound_loop.simps [of t i])
    next
      case False
      then have "\<exists>n. unbound_loop t j (j * 2) = Some n \<and> border t n"
        using True less.prems by (intro less.hyps) simp_all
      then show ?thesis using True False p by (simp add: unbound_loop.simps [of t i])
    qed
  qed
qed

lemma array_search_border:
  assumes "i < j" "j \<le> length array" "1 \<le> i" "i = 1 \<or> array ! (i - 1) \<noteq> TNil" "array ! (j - 1) = TNil"
  shows "array_search array i j + 1 < length array \<and> (array_search array i j = 0 \<or> array ! array_search array i j \<noteq> TNil) \<and>
    array ! (array_search array i j + 1) = TNil"
  using assms
proof (induction array i j rule: array_search.induct)
  case (1 array i j)
  show ?case
  proof (cases "j - i > 1")
    case False
    then have j: "j = i + 1" using 1(3) by simp
    have "array_search array i j = i - 1" using False by (simp add: array_search.simps [of array i j])
    then show ?thesis using 1(4-7) j by auto
  next
    case True
    define m where "m = (i + j) div 2"
    have m: "i < m" "m < j" using True by (auto simp: m_def)
    then show ?thesis using True 1 by (simp add: array_search.simps [of array i j] flip: m_def)
  qed
qed

theorem tab_len_border:
  assumes "tab_ok SH t"
  shows "\<exists>n. lj_tab_len t = Some n \<and> border t n"
proof -
  note o = tab_okD [OF assms]
  have small: "asize t < 2 ^ 31" using o(1) by (simp add: LJ_MAX_ASIZE_def LJ_MAX_ABITS_def)
  have arr: "has_int t j \<longleftrightarrow> t_array t ! j \<noteq> TNil" if "j < asize t" for j
    using that small akey_int_of [OF o(1), of j] by (simp add: has_int_def tab_abs_simps)
  show ?thesis
  proof (cases "asize t > 1 \<and> t_array t ! (asize t - 1) = TNil")
    case True
    then show ?thesis using array_search_border [of 1 "asize t" "t_array t"] arr
      by (auto simp: lj_tab_len_def border_def)
  next
    case False
    define j where "j = (if asize t > 0 then asize t - 1 else asize t)"
    have j: "j < 2 ^ 31 - 1" "j = 0 \<or> has_int t j" using small False o(1) arr [of j]
      by (auto simp: j_def LJ_MAX_ASIZE_def LJ_MAX_ABITS_def)
    have len: "lj_tab_len t = (if hmask t = 0 then Some j else unbound_search t j)"
      unfolding lj_tab_len_def Let_def j_def if_not_P [OF False] by (rule refl)
    show ?thesis
    proof (cases "hmask t = 0")
      case True
      have "akey t (int_of (j + 1)) = None" using akey_int_of [OF o(1), of "j + 1"] j(1) by (auto simp: j_def)
      moreover have "hmap (t_node t) k = TNil" for k
        using hpart_okD(5) [OF o(2) True] by (simp add: hmap_def nilnode_def)
      ultimately have "\<not> has_int t (j + 1)" by (simp add: has_int_def tab_abs_simps)
      then show ?thesis using len True j(2) by (simp add: border_def)
    next
      case False
      then show ?thesis using len unbound_loop_border [OF assms, of j "j + 1"] j by (simp add: unbound_search_def)
    qed
  qed
qed

subsection \<open>Traversal\<close>

datatype next_error = InvalidKey

text \<open>
  The index of a key: array slots come first, then the nodes; a \<open>nil\<close> key comes before all. A NaN with
  the high word \<open>0xfffe7fff\<close> is the control variable of a specialised loop.
\<close>

definition keyindex :: "(u32 \<Rightarrow> u32) \<Rightarrow> gctab \<Rightarrow> tvalue \<Rightarrow> (next_error + u32) option" where
  "keyindex SH t key =
     (case akey t key of
        Some k \<Rightarrow> Some (Inr (of_nat k))
      | None \<Rightarrow>
          if key \<noteq> TNil then
            do { r \<leftarrow> chain_find (\<lambda>k. lj_obj_equal k key) (t_node t) (hashkey SH t key);
                 Some (case r of
                   Some n \<Rightarrow> Inr (of_nat (asize t) + of_nat n)
                 | None \<Rightarrow>
                     (case key of
                        TNum d \<Rightarrow> if ucast (drop_bit 32 d) = (0xfffe7fff :: u32) then Inr (ucast d - 1) else Inl InvalidKey
                      | _ \<Rightarrow> Inl InvalidKey)) }
          else Some (Inr (- 1)))"

definition lj_tab_next :: "(u32 \<Rightarrow> u32) \<Rightarrow> gctab \<Rightarrow> tvalue \<Rightarrow> (next_error + (tvalue \<times> tvalue) option) option" where
  "lj_tab_next SH t key =
     do { r \<leftarrow> keyindex SH t key;
          Some (case r of
            Inl e \<Rightarrow> Inl e
          | Inr i \<Rightarrow>
              let i = unat (i + 1) in
              case find (\<lambda>i. t_array t ! i \<noteq> TNil) [i..<asize t] of
                Some i \<Rightarrow> Inr (Some (TNum (dbl_of_int (int i)), t_array t ! i))
              | None \<Rightarrow>
                  (case find (\<lambda>i. n_val (t_node t ! i) \<noteq> TNil) [max i (asize t) - asize t..<hmask t + 1] of
                     Some i \<Rightarrow> Inr (Some (n_key (t_node t ! i), n_val (t_node t ! i)))
                   | None \<Rightarrow> Inr None)) }"

text \<open>A loop over a table: the keys that \<open>next\<close> gives one after the other, as long as there are any.\<close>

primrec traverse :: "(u32 \<Rightarrow> u32) \<Rightarrow> gctab \<Rightarrow> nat \<Rightarrow> tvalue \<Rightarrow> (next_error + (tvalue \<times> tvalue) list) option" where
  "traverse SH t 0 key = None"
| "traverse SH t (Suc n) key =
     do { r \<leftarrow> lj_tab_next SH t key;
          case r of
            Inl e \<Rightarrow> Some (Inl e)
          | Inr None \<Rightarrow> Some (Inr [])
          | Inr (Some kv) \<Rightarrow> do { r \<leftarrow> traverse SH t n (fst kv); Some (map_sum id ((#) kv) r) } }"

text \<open>The entries by their index, slots before nodes.\<close>

definition item :: "gctab \<Rightarrow> nat \<Rightarrow> tvalue \<times> tvalue" where
  "item t p = (if p < asize t then (int_of p, t_array t ! p)
     else (n_key (t_node t ! (p - asize t)), n_val (t_node t ! (p - asize t))))"

definition items :: "gctab \<Rightarrow> nat" where "items t = asize t + length (t_node t)"

definition live_items :: "gctab \<Rightarrow> nat \<Rightarrow> nat list" where
  "live_items t i = filter (\<lambda>p. snd (item t p) \<noteq> TNil) [i..<items t]"

lemma find_append: "find P (xs @ ys) = (case find P xs of Some x \<Rightarrow> Some x | None \<Rightarrow> find P ys)"
  by (induction xs) simp_all

lemma find_map: "find P (map f xs) = map_option f (find (P \<circ> f) xs)"
  by (induction xs) simp_all

lemma find_filter: "find P xs = (case filter P xs of [] \<Rightarrow> None | x # _ \<Rightarrow> Some x)"
  by (induction xs) simp_all

lemma filter_upt_Cons: "filter P [i..<n] = p # ps \<Longrightarrow> i \<le> p \<and> p < n \<and> P p \<and> ps = filter P [Suc p..<n]"
proof (induction "n - i" arbitrary: i)
  case (Suc x)
  then have i: "i < n" by simp
  then have u: "[i..<n] = i # [Suc i..<n]" by (rule upt_conv_Cons)
  show ?case
  proof (cases "P i")
    case True
    then show ?thesis using Suc.prems i unfolding u by auto
  next
    case False
    have "x = n - Suc i" using Suc.hyps(2) by simp
    then show ?thesis using Suc.hyps(1) [of "Suc i"] False Suc.prems unfolding u by auto
  qed
qed simp

lemma map_add_upt_from: "map (\<lambda>j. j + n) [a..<b] = [a + n..<b + n]"
  by (rule nth_equalityI) (simp_all add: add.commute)

lemma next_item:
  assumes "hpart_ok SH t" "i \<le> items t"
  shows "(case find (\<lambda>i. t_array t ! i \<noteq> TNil) [i..<asize t] of
      Some i \<Rightarrow> Inr (Some (int_of i, t_array t ! i))
    | None \<Rightarrow> (case find (\<lambda>i. n_val (t_node t ! i) \<noteq> TNil) [max i (asize t) - asize t..<hmask t + 1] of
         Some i \<Rightarrow> Inr (Some (n_key (t_node t ! i), n_val (t_node t ! i)))
       | None \<Rightarrow> Inr None)) =
    Inr (case live_items t i of [] \<Rightarrow> None | p # _ \<Rightarrow> Some (item t p))"
proof -
  let ?P = "\<lambda>p. snd (item t p) \<noteq> TNil"
  obtain hb where "length (t_node t) = 2 ^ hb" using hpart_okD(1) [OF assms(1)] by blast
  then have n: "hmask t + 1 = length (t_node t)" by (simp add: hmask_def)
  have split: "[i..<items t] = [i..<asize t] @ map (\<lambda>j. j + asize t) [max i (asize t) - asize t..<length (t_node t)]"
  proof -
    have "map (\<lambda>j. j + asize t) [max i (asize t) - asize t..<length (t_node t)] = [max i (asize t)..<items t]"
      by (simp add: map_add_upt_from items_def add.commute)
    moreover have "[i..<items t] = [i..<asize t] @ [max i (asize t)..<items t]"
      using upt_add_eq_append [of i "asize t" "length (t_node t)"] by (cases "i \<le> asize t") (simp_all add: items_def)
    ultimately show ?thesis by simp
  qed
  have a: "find ?P [i..<asize t] = find (\<lambda>i. t_array t ! i \<noteq> TNil) [i..<asize t]"
    by (rule find_cong) (simp_all add: item_def)
  have b: "find ?P (map (\<lambda>j. j + asize t) js) = map_option (\<lambda>j. j + asize t) (find (\<lambda>i. n_val (t_node t ! i) \<noteq> TNil) js)" for js
    unfolding find_map by (rule arg_cong [where f = "map_option _"], rule find_cong) (simp_all add: item_def)
  have "(case live_items t i of [] \<Rightarrow> None | p # _ \<Rightarrow> Some (item t p)) = map_option (item t) (find ?P [i..<items t])"
    by (simp add: find_filter [of ?P] live_items_def split: list.split)
  also have "\<dots> = map_option (item t) (case find (\<lambda>i. t_array t ! i \<noteq> TNil) [i..<asize t] of Some x \<Rightarrow> Some x
      | None \<Rightarrow> map_option (\<lambda>j. j + asize t) (find (\<lambda>i. n_val (t_node t ! i) \<noteq> TNil) [max i (asize t) - asize t..<hmask t + 1]))"
    unfolding split find_append a b n ..
  finally have next_live: "(case live_items t i of [] \<Rightarrow> None | p # _ \<Rightarrow> Some (item t p)) =
      map_option (item t) (case find (\<lambda>i. t_array t ! i \<noteq> TNil) [i..<asize t] of Some x \<Rightarrow> Some x
      | None \<Rightarrow> map_option (\<lambda>j. j + asize t) (find (\<lambda>i. n_val (t_node t ! i) \<noteq> TNil) [max i (asize t) - asize t..<hmask t + 1]))" .
  show ?thesis
  proof (cases "find (\<lambda>i. t_array t ! i \<noteq> TNil) [i..<asize t]")
    case (Some p)
    then have "p \<in> set [i..<asize t]" unfolding find_Some_iff by (metis nth_mem)
    then show ?thesis using next_live Some by (simp add: item_def)
  next
    case None
    then show ?thesis using next_live
      by (cases "find (\<lambda>i. n_val (t_node t ! i) \<noteq> TNil) [max i (asize t) - asize t..<hmask t + 1]") (simp_all add: item_def del: upt_Suc Suc_eq_plus1 add_Suc_right)
  qed
qed

lemma keyindex_item:
  assumes "tab_ok SH t" "p < items t" "snd (item t p) \<noteq> TNil"
  shows "keyindex SH t (fst (item t p)) = Some (Inr (of_nat p))"
proof (cases "p < asize t")
  case True
  note o = tab_okD [OF assms(1)]
  have "p < 2 ^ 31" using True o(1) by (simp add: LJ_MAX_ASIZE_def LJ_MAX_ABITS_def)
  then show ?thesis using True akey_int_of [OF o(1)] by (simp add: keyindex_def item_def)
next
  case False
  note o = tab_okD [OF assms(1)] and h = hpart_okD(2) [OF tab_okD(2) [OF assms(1)]]
  define j where "j = p - asize t"
  have j: "j < length (t_node t)" "n_val (t_node t ! j) \<noteq> TNil" "fst (item t p) = n_key (t_node t ! j)"
    using False assms(2,3) by (auto simp: item_def items_def j_def)
  have nn: "n_key (t_node t ! j) \<noteq> TNil" using hash_okD(4) [OF h j(1)] j(2) by blast
  note st = hash_okD(2) [OF h j(1) nn]
  have ak: "akey t (n_key (t_node t ! j)) = None" using j(1) by (intro o(3)) (auto simp: has_key_def)
  obtain r where r: "chain_find (\<lambda>x. lj_obj_equal x (n_key (t_node t ! j))) (t_node t) (hashkey SH t (n_key (t_node t ! j))) = Some r"
    "located (t_node t) (n_key (t_node t ! j)) r"
    using find_any [OF o(2) stored_keyD(1) [OF st]] stored_keyD(2) [OF st] by auto
  have "has_key (t_node t) (n_key (t_node t ! j))" using j(1) by (auto simp: has_key_def)
  then obtain j' where j': "r = Some j'" "j' < length (t_node t)" "n_key (t_node t ! j') = n_key (t_node t ! j)"
    using r(2) by (cases r) (auto simp: located_def)
  have "j = j'" using hash_okD(5) [OF h j(1) j'(2) nn] j'(3) by simp
  then have "keyindex SH t (n_key (t_node t ! j)) = Some (Inr (of_nat (asize t) + of_nat j))"
    using ak nn r(1) j'(1) by (simp add: keyindex_def)
  moreover have "of_nat (asize t) + of_nat j = (of_nat p :: u32)" using False by (simp add: j_def)
  ultimately show ?thesis by (simp add: j(3))
qed

lemma items_small:
  assumes "tab_ok SH t"
  shows "items t < 2 ^ 28"
proof -
  note o = tab_okD [OF assms]
  obtain hb where hb: "hb \<le> LJ_MAX_HBITS" "length (t_node t) = 2 ^ hb" using hpart_okD(1) [OF o(2)] by blast
  moreover have "(2 :: nat) ^ hb \<le> 2 ^ 26" using hb(1) by (intro power_increasing) (simp_all add: LJ_MAX_HBITS_def)
  ultimately show ?thesis using o(1) by (simp add: items_def LJ_MAX_ASIZE_def LJ_MAX_ABITS_def)
qed

lemma traverse_from:
  assumes "tab_ok SH t" "keyindex SH t key = Some (Inr ix)" "unat (ix + 1) \<le> items t" "length (live_items t (unat (ix + 1))) < n"
  shows "traverse SH t n key = Some (Inr (map (item t) (live_items t (unat (ix + 1)))))"
  using assms(2-4)
proof (induction n arbitrary: key ix)
  case (Suc n)
  define i where "i = unat (ix + 1)"
  have "lj_tab_next SH t key = Some (Inr (case live_items t i of [] \<Rightarrow> None | p # _ \<Rightarrow> Some (item t p)))"
    using Suc.prems(1) next_item [OF tab_okD(2) [OF assms(1)], of i] Suc.prems(2) by (simp add: lj_tab_next_def Let_def flip: i_def)
  then show ?case
  proof (cases "live_items t i")
    case Nil
    then show ?thesis using \<open>lj_tab_next SH t key = _\<close> by (simp flip: i_def)
  next
    case (Cons p ps)
    then have p: "i \<le> p" "p < items t" "snd (item t p) \<noteq> TNil" "ps = live_items t (Suc p)"
      using filter_upt_Cons unfolding live_items_def by blast+
    have "unat (of_nat p + 1 :: u32) = Suc p"
    proof -
      have "of_nat p + 1 = (of_nat (Suc p) :: u32)" by simp
      moreover have "unat (of_nat (Suc p) :: u32) = Suc p" using p(2) items_small [OF assms(1)] by (simp only: unat_of_nat) simp
      ultimately show ?thesis by (simp only:)
    qed
    then have "traverse SH t n (fst (item t p)) = Some (Inr (map (item t) ps))"
      using Suc.IH [OF keyindex_item [OF assms(1) p(2,3)]] p(2,4) Suc.prems(3) Cons by (simp add: i_def)
    then show ?thesis using \<open>lj_tab_next SH t key = _\<close> Cons by (simp flip: i_def)
  qed
qed simp

lemma item_value:
  assumes "tab_ok SH t"
  shows "(\<exists>p < items t. item t p = (k, v) \<and> v \<noteq> TNil) \<longleftrightarrow> stored_key k \<and> tab_abs t k = v \<and> v \<noteq> TNil"
proof -
  note o = tab_okD [OF assms] and h = hpart_okD(2) [OF tab_okD(2) [OF assms]]
  have small: "p < asize t \<Longrightarrow> p < 2 ^ 31" for p using o(1) by (simp add: LJ_MAX_ASIZE_def LJ_MAX_ABITS_def)
  show ?thesis
  proof
    assume "\<exists>p < items t. item t p = (k, v) \<and> v \<noteq> TNil"
    then obtain p where p: "p < items t" "item t p = (k, v)" "v \<noteq> TNil" by blast
    show "stored_key k \<and> tab_abs t k = v \<and> v \<noteq> TNil"
    proof (cases "p < asize t")
      case True
      then show ?thesis using p small int_of_key(2) akey_int_of [OF o(1)] by (auto simp: item_def tab_abs_simps)
    next
      case False
      define j where "j = p - asize t"
      have j: "j < length (t_node t)" "n_val (t_node t ! j) = v" "n_key (t_node t ! j) = k"
        using False p by (auto simp: item_def items_def j_def)
      have nn: "k \<noteq> TNil" using hash_okD(4) [OF h j(1)] j(2,3) p(3) by blast
      have "akey t k = None" using j(1,3) by (intro o(3)) (auto simp: has_key_def)
      moreover have "stored_key k" using hash_okD(2) [OF h j(1)] j(3) nn by simp
      moreover have "hmap (t_node t) k = v" using hmap_key [OF h j(1)] j(2,3) nn by simp
      ultimately show ?thesis using p(3) stored_keyD(2) by (simp add: tab_abs_simps)
    qed
  next
    assume k: "stored_key k \<and> tab_abs t k = v \<and> v \<noteq> TNil"
    show "\<exists>p < items t. item t p = (k, v) \<and> v \<noteq> TNil"
    proof (cases "akey t k")
      case (Some i)
      note a = akey_Some [OF Some o(1)]
      have "k = int_of i" using a(3) k stored_keyD(2) by simp
      then show ?thesis using a(1) Some k by (intro exI [of _ i]) (auto simp: item_def items_def tab_abs_simps)
    next
      case None
      then have v: "hmap (t_node t) k = v" using k stored_keyD(2) [of k] by (simp add: tab_abs_simps)
      then obtain j where j: "j < length (t_node t)" "n_key (t_node t ! j) = k"
        using k hmap_no_key [of "t_node t" k] by (auto simp: has_key_def)
      then have "n_val (t_node t ! j) = v" using hmap_key [OF h j(1)] stored_not_nil k v by simp
      then show ?thesis using j k by (intro exI [of _ "asize t + j"]) (simp add: item_def items_def)
    qed
  qed
qed

theorem traverse_all:
  assumes "tab_ok SH t" "items t < n"
  shows "\<exists>es. traverse SH t n TNil = Some (Inr es) \<and> distinct (map fst es) \<and>
    (\<forall>k v. (k, v) \<in> set es \<longleftrightarrow> stored_key k \<and> v \<noteq> TNil \<and> lj_tab_get SH t k = Some v)"
proof (intro exI conjI allI)
  let ?es = "map (item t) (live_items t 0)"
  have z: "unat (- 1 + 1 :: u32) = 0" by simp
  have "length (live_items t 0) \<le> items t" unfolding live_items_def by (rule order_trans [OF length_filter_le]) simp
  then show "traverse SH t n TNil = Some (Inr ?es)"
    using traverse_from [OF assms(1), of TNil "- 1" n] assms(2) unfolding z by (simp add: keyindex_def akey_def int_key_def)
  have live: "p \<in> set (live_items t 0) \<longleftrightarrow> p < items t \<and> snd (item t p) \<noteq> TNil" for p by (auto simp: live_items_def)
  have "inj_on (\<lambda>p. fst (item t p)) (set (live_items t 0))"
  proof (rule inj_onI)
    fix p q
    assume pq: "p \<in> set (live_items t 0)" "q \<in> set (live_items t 0)" "fst (item t p) = fst (item t q)"
    then have "of_nat p = (of_nat q :: u32)"
      using keyindex_item [OF assms(1), of p] keyindex_item [OF assms(1), of q] live by simp
    then have "unat (of_nat p :: u32) = unat (of_nat q :: u32)" by simp
    moreover have "unat (of_nat p :: u32) = p" "unat (of_nat q :: u32) = q"
      using pq(1,2) items_small [OF assms(1)] live by (auto simp: unat_of_nat)
    ultimately show "p = q" by simp
  qed
  then show "distinct (map fst ?es)" by (simp add: distinct_map comp_def live_items_def)
  show "(k, v) \<in> set ?es \<longleftrightarrow> stored_key k \<and> v \<noteq> TNil \<and> lj_tab_get SH t k = Some v" for k v
  proof -
    have "(k, v) \<in> set ?es \<longleftrightarrow> (\<exists>p. p \<in> set (live_items t 0) \<and> (k, v) = item t p)" by (simp add: image_iff Bex_def)
    also have "\<dots> \<longleftrightarrow> (\<exists>p < items t. item t p = (k, v) \<and> v \<noteq> TNil)" unfolding live by (metis snd_conv)
    finally show ?thesis unfolding item_value [OF assms(1)] get_reads [OF assms(1)] by auto
  qed
qed

subsection \<open>Tables made by the operations\<close>

lemma stored_table:
  assumes "lj_tab_new oom asz hb = Inr t" "\<forall>e \<in> set es. good_key (fst e)" "\<forall>n. \<not> oom n" "length es \<le> 2 ^ LJ_MAX_HBITS"
  shows "\<exists>u. tab_stores SH oom es t = Some (Inr (), u) \<and> tab_ok SH u \<and>
    (\<forall>k. lj_tab_get SH u k = Some (case last_value es k of Some v \<Rightarrow> v | None \<Rightarrow> TNil))"
proof -
  note n = new_table [OF assms(1)]
  have "\<exists>u. tab_stores SH oom es t = Some (Inr (), u) \<and> tab_ok SH u \<and>
      (\<forall>x. tab_abs u x = (case last_value es x of Some v \<Rightarrow> v | None \<Rightarrow> tab_abs t x))"
    by (rule tab_stores_update [OF n(1) assms(2)]) (use assms(3,4) n(3) in simp_all)
  then obtain u where u: "tab_stores SH oom es t = Some (Inr (), u)" "tab_ok SH u"
    "\<forall>x. tab_abs u x = (case last_value es x of Some v \<Rightarrow> v | None \<Rightarrow> tab_abs t x)"
    by blast
  then show ?thesis using get_reads [OF u(2)] n(2) by (auto split: option.split)
qed

lemma stored_table_ok:
  assumes "lj_tab_new oom asz hb = Inr t" "\<forall>e \<in> set es. good_key (fst e)" "\<forall>n. \<not> oom n" "length es \<le> 2 ^ LJ_MAX_HBITS"
    "tab_stores SH oom es t = Some (Inr (), u)"
  shows "tab_ok SH u"
  using stored_table [OF assms(1-4), of SH] assms(5) by auto

text \<open>A table used by the witnesses.\<close>

definition small_stores :: "(tvalue \<times> tvalue) list" where
  "small_stores = [(TStr 7, TBool True), (TNum 0, TStr 7), (TRef 5 6, TNil)]"

definition empty_table :: gctab where
  "empty_table = \<lparr>t_array = [], t_node = [nilnode], t_freetop = 0, t_nomm = - 1, t_colo = 0\<rparr>"

lemma small_table:
  "lj_tab_new (\<lambda>_. False) 0 0 = Inr empty_table" "\<forall>e \<in> set small_stores. good_key (fst e)" "length small_stores \<le> 2 ^ LJ_MAX_HBITS"
  by (simp_all add: lj_tab_new_def empty_table_def small_stores_def dbl_isnan_def dbl_exp_uint LJ_MAX_HBITS_def)

text \<open>
  C3: a table keeps what is stored in it. After any sequence of raw stores into a new table, with memory
  left and at most \<open>2 ^ 26\<close> stores of valid keys, every lookup ends and gives the value that was stored last for
  the key, or \<open>nil\<close>. The table is resized on the way, as often as its hash part fills up; integers move between
  the array part and the hash part, and colliding nodes between free nodes.
\<close>

theorem table_reads_back_stores:
  assumes "lj_tab_new oom asz hb = Inr t" "\<forall>e \<in> set es. good_key (fst e)" "\<forall>n. \<not> oom n" "length es \<le> 2 ^ LJ_MAX_HBITS"
  shows "\<exists>u. tab_stores SH oom es t = Some (Inr (), u) \<and>
    (\<forall>k. lj_tab_get SH u k = Some (case last_value es k of Some v \<Rightarrow> v | None \<Rightarrow> TNil))"
  using stored_table [OF assms] by blast

theorem table_reads_back_stores_witness:
  "\<exists>u. tab_stores id (\<lambda>_. False) small_stores empty_table = Some (Inr (), u) \<and> lj_tab_get id u (TStr 7) = Some (TBool True)"
  using table_reads_back_stores [OF small_table(1,2) _ small_table(3), of id]
  by (auto simp: last_value_def small_stores_def)

text \<open>
  C13: the length operator ends on such a table and gives a border: zero or an integer index that has a value,
  whose successor has none. It is found by doubling and halving over both parts of the table.
\<close>

theorem table_length_is_border:
  assumes "lj_tab_new oom asz hb = Inr t" "\<forall>e \<in> set es. good_key (fst e)" "\<forall>n. \<not> oom n" "length es \<le> 2 ^ LJ_MAX_HBITS"
    and "tab_stores SH oom es t = Some (Inr (), u)"
  shows "\<exists>n. lj_tab_len u = Some n \<and> (n = 0 \<or> lj_tab_get SH u (TNum (dbl_of_int (int n))) \<noteq> Some TNil) \<and>
    lj_tab_get SH u (TNum (dbl_of_int (int n + 1))) = Some TNil"
proof -
  note ok = stored_table_ok [OF assms]
  from tab_len_border [OF ok] show ?thesis
    unfolding get_reads [OF ok] border_def has_int_def by (simp add: add.commute)
qed

theorem table_length_is_border_witness:
  "\<exists>u n. tab_stores id (\<lambda>_. False) small_stores empty_table = Some (Inr (), u) \<and> lj_tab_len u = Some n"
proof -
  obtain u where u: "tab_stores id (\<lambda>_. False) small_stores empty_table = Some (Inr (), u)"
    using stored_table [OF small_table(1,2) _ small_table(3), of id] by auto
  from table_length_is_border [OF small_table(1,2) _ small_table(3) u] show ?thesis using u by auto
qed

text \<open>
  C12: a loop that calls \<open>next\<close> on such a table until it gives no key visits every key that has a value, once, with
  its value. The model of the loop has a bound on its steps; the number of slots and nodes is enough.
\<close>

theorem next_visits_every_entry_once:
  assumes "lj_tab_new oom asz hb = Inr t" "\<forall>e \<in> set es. good_key (fst e)" "\<forall>n. \<not> oom n" "length es \<le> 2 ^ LJ_MAX_HBITS"
    and "tab_stores SH oom es t = Some (Inr (), u)" "asize u + length (t_node u) < n"
  shows "\<exists>kvs. traverse SH u n TNil = Some (Inr kvs) \<and> distinct (map fst kvs) \<and>
    (\<forall>k v. (k, v) \<in> set kvs \<longleftrightarrow> stored_key k \<and> v \<noteq> TNil \<and> lj_tab_get SH u k = Some v)"
  using traverse_all [OF stored_table_ok [OF assms(1-5)]] assms(6) unfolding items_def by blast

theorem next_visits_every_entry_once_witness:
  "\<exists>u n kvs. tab_stores id (\<lambda>_. False) small_stores empty_table = Some (Inr (), u) \<and> traverse id u n TNil = Some (Inr kvs) \<and>
     (TStr 7, TBool True) \<in> set kvs"
proof -
  obtain u where u: "tab_stores id (\<lambda>_. False) small_stores empty_table = Some (Inr (), u)"
    "lj_tab_get id u (TStr 7) = Some (TBool True)"
    using stored_table [OF small_table(1,2) _ small_table(3), of id] by (auto simp: last_value_def small_stores_def)
  have "asize u + length (t_node u) < Suc (asize u + length (t_node u))" by simp
  from next_visits_every_entry_once [OF small_table(1,2) _ small_table(3) u(1) this]
  obtain kvs where "traverse id u (Suc (asize u + length (t_node u))) TNil = Some (Inr kvs)"
    "(TStr 7, TBool True) \<in> set kvs \<longleftrightarrow> stored_key (TStr 7) \<and> TBool True \<noteq> TNil \<and> lj_tab_get id u (TStr 7) = Some (TBool True)" by blast
  moreover have "stored_key (TStr 7)" by (simp add: stored_key_def)
  ultimately show ?thesis using u by blast
qed

end
