(* ===== verification/LjStr.thy ===== *)
theory LjStr
  imports LjTab
begin

text \<open>
  String objects of LuaJIT (\<open>lj_str.c\<close>): ordered comparison, interning in a hash table with chains, resizing of the
  table, and the sweep of the collector over it (\<open>lj_gc.c\<close>). This theory holds the definitions and the comparison of bytes.
\<close>

subsection \<open>Strings and the string table\<close>

text \<open>
  A string object is followed by its bytes and a zero. The objects of one hash chain are linked through
  \<open>nextgc\<close>. The table of strings has \<open>strmask + 1\<close> chains; the empty string is a part of the global state
  and in no chain.
\<close>

record gcstr =
  s_marked :: u8
  s_reserved :: u8
  s_hash :: u32
  s_len :: u32
  s_data :: "byte list"
  s_nextgc :: "u32 option"

datatype gc_state = GCSpause | GCSpropagate | GCSatomic | GCSsweepstring | GCSsweep | GCSfinalize

record global_State =
  g_strhash :: "u32 option list"
  g_strmask :: u32
  g_strnum :: u32
  g_strempty :: u32
  g_obj :: "u32 \<Rightarrow> gcstr option"
  g_currentwhite :: u8
  g_gcstate :: gc_state
  g_sweepstr :: u32

text \<open>
  What the code does not determine: the bytes behind an object and behind an argument, the address of an
  argument, which allocations fail and the address an object gets. An allocator is given the predicate of the
  addresses in use.
\<close>

record lj_env =
  e_junk :: "u32 \<Rightarrow> nat \<Rightarrow> byte"
  e_arg :: "nat \<Rightarrow> byte"
  e_addr :: u64
  e_oom :: "nat \<Rightarrow> bool"
  e_new :: "(u32 \<Rightarrow> bool) \<Rightarrow> nat \<Rightarrow> u32 option"

definition LJ_MAX_STR :: nat where "LJ_MAX_STR = 0x7fffff00"
definition LJ_MAX_STRTAB :: u32 where "LJ_MAX_STRTAB = 2 ^ 26"
definition LJ_MIN_STRTAB :: u32 where "LJ_MIN_STRTAB = 256"
definition LJ_PAGESIZE :: u64 where "LJ_PAGESIZE = 4096"
definition sizeof_GCstr :: nat where "sizeof_GCstr = 16"
definition sizeof_GCRef :: nat where "sizeof_GCRef = 4"

definition LJ_GC_WHITES :: u8 where "LJ_GC_WHITES = 0x03"
definition LJ_GC_COLORS :: u8 where "LJ_GC_COLORS = 0x07"
definition LJ_GC_FIXED :: u8 where "LJ_GC_FIXED = 0x20"

definition otherwhite :: "global_State \<Rightarrow> u8" where "otherwhite g = g_currentwhite g XOR LJ_GC_WHITES"
definition curwhite :: "global_State \<Rightarrow> u8" where "curwhite g = g_currentwhite g AND LJ_GC_WHITES"

definition isdead :: "global_State \<Rightarrow> gcstr \<Rightarrow> bool" where
  "isdead g s \<longleftrightarrow> s_marked s AND otherwhite g AND LJ_GC_WHITES \<noteq> 0"

definition flipwhite :: "gcstr \<Rightarrow> gcstr" where "flipwhite s = s\<lparr>s_marked := s_marked s XOR LJ_GC_WHITES\<rparr>"

definition makewhite :: "global_State \<Rightarrow> gcstr \<Rightarrow> gcstr" where
  "makewhite g s = s\<lparr>s_marked := (s_marked s AND NOT LJ_GC_COLORS) OR curwhite g\<rparr>"

subsection \<open>Words of bytes\<close>

text \<open>Memory is a function of the offset. Words are read as x86 and x64 do.\<close>

definition lj_getu32 :: "(nat \<Rightarrow> byte) \<Rightarrow> nat \<Rightarrow> u32" where
  "lj_getu32 m i = ucast (m i) OR push_bit 8 (ucast (m (i + 1))) OR push_bit 16 (ucast (m (i + 2))) OR push_bit 24 (ucast (m (i + 3)))"

definition lj_bswap :: "u32 \<Rightarrow> u32" where
  "lj_bswap x = push_bit 24 x OR push_bit 8 (x AND 0xff00) OR (drop_bit 8 x AND 0xff00) OR drop_bit 24 x"

definition strdata :: "(nat \<Rightarrow> byte) \<Rightarrow> byte list \<Rightarrow> nat \<Rightarrow> byte" where
  "strdata junk bs i = (if i < length bs then bs ! i else junk i)"

subsection \<open>Comparison\<close>

function str_cmp_loop :: "(nat \<Rightarrow> byte) \<Rightarrow> (nat \<Rightarrow> byte) \<Rightarrow> nat \<Rightarrow> nat \<Rightarrow> int option" where
  "str_cmp_loop a b n i =
     (if i < n then
        let va = lj_getu32 a i; vb = lj_getu32 b i in
        if va \<noteq> vb then
          let va = lj_bswap va; vb = lj_bswap vb; d = of_nat i - of_nat n :: u32 in
          if sint d \<ge> -3 then
            let k = unat (32 + push_bit 3 d); va = drop_bit k va; vb = drop_bit k vb in
            if va = vb then None else Some (if va < vb then -1 else 1)
          else Some (if va < vb then -1 else 1)
        else str_cmp_loop a b n (i + 4)
      else None)"
  by pat_completeness auto
termination by (relation "measure (\<lambda>(a, b, n, i). n - i)") auto

declare str_cmp_loop.simps [simp del]

definition lj_str_cmp :: "(nat \<Rightarrow> byte) \<Rightarrow> u32 \<Rightarrow> (nat \<Rightarrow> byte) \<Rightarrow> u32 \<Rightarrow> int" where
  "lj_str_cmp a alen b blen =
     (let n = (if alen > blen then blen else alen) in
      case str_cmp_loop a b (unat n) 0 of Some r \<Rightarrow> r | None \<Rightarrow> sint (alen - blen))"

text \<open>The result is zero for equal bytes; otherwise its value does not matter.\<close>

function str_fastcmp_loop :: "(nat \<Rightarrow> byte) \<Rightarrow> (nat \<Rightarrow> byte) \<Rightarrow> nat \<Rightarrow> nat \<Rightarrow> u32" where
  "str_fastcmp_loop a b len i =
     (let v = lj_getu32 a i XOR lj_getu32 b i in
      if v \<noteq> 0 then
        let d = of_nat i - of_nat len :: u32 in
        if sint d \<ge> -3 then push_bit (unat (32 + push_bit 3 d)) v else 1
      else if i + 4 < len then str_fastcmp_loop a b len (i + 4) else 0)"
  by pat_completeness auto
termination by (relation "measure (\<lambda>(a, b, n, i). n - i)") auto

declare str_fastcmp_loop.simps [simp del]

definition str_fastcmp :: "(nat \<Rightarrow> byte) \<Rightarrow> (nat \<Rightarrow> byte) \<Rightarrow> nat \<Rightarrow> u32" where
  "str_fastcmp a b len = str_fastcmp_loop a b len 0"

subsection \<open>Interning\<close>

definition str_hash :: "(nat \<Rightarrow> byte) \<Rightarrow> nat \<Rightarrow> u32" where
  "str_hash str len =
     (let h = of_nat len;
          (a, b, h) =
            (if len \<ge> 4 then
               let a = lj_getu32 str 0; h = h XOR lj_getu32 str (len - 4); b = lj_getu32 str (len div 2 - 2);
                   h = h XOR b; h = h - lj_rol b 14; b = b + lj_getu32 str (len div 4 - 1)
               in (a, b, h)
             else
               let a = ucast (str 0); h = h XOR ucast (str (len - 1)); b = ucast (str (len div 2));
                   h = h XOR b; h = h - lj_rol b 14
               in (a, b, h));
          a = a XOR h; a = a - lj_rol h 11;
          b = b XOR a; b = b - lj_rol a 25;
          h = h XOR b; h = h - lj_rol b 16
      in h)"

text \<open>A walk along a hash chain.\<close>

partial_function (option) str_find :: "(u32 \<Rightarrow> gcstr \<Rightarrow> bool) \<Rightarrow> (u32 \<Rightarrow> gcstr option) \<Rightarrow> u32 option \<Rightarrow> u32 option option" where
  "str_find P obj o1 =
     (case o1 of None \<Rightarrow> Some None
      | Some r \<Rightarrow> do { s \<leftarrow> obj r; if P r s then Some (Some r) else str_find P obj (s_nextgc s) })"

text \<open>Reinserting the strings of one chain into a new table.\<close>

partial_function (option) str_rechain ::
    "u32 \<Rightarrow> u32 option \<Rightarrow> u32 option list \<times> (u32 \<Rightarrow> gcstr option) \<Rightarrow> (u32 option list \<times> (u32 \<Rightarrow> gcstr option)) option" where
  "str_rechain newmask p st =
     (case p of None \<Rightarrow> Some st
      | Some r \<Rightarrow> do {
          s \<leftarrow> snd st r;
          let h = unat (s_hash s AND newmask);
          let nh = fst st;
          str_rechain newmask (s_nextgc s) (nh[h := Some r], (snd st)(r \<mapsto> s\<lparr>s_nextgc := nh ! h\<rparr>)) })"

declare str_find.simps [code] str_rechain.simps [code]

primrec str_rehash :: "u32 \<Rightarrow> u32 option list \<Rightarrow> u32 option list \<times> (u32 \<Rightarrow> gcstr option) \<Rightarrow> (u32 option list \<times> (u32 \<Rightarrow> gcstr option)) option" where
  "str_rehash newmask [] st = Some st"
| "str_rehash newmask (p # ps) st = do { st \<leftarrow> str_rechain newmask p st; str_rehash newmask ps st }"

text \<open>The old table is walked from its last chain to the first.\<close>

definition lj_str_resize :: "lj_env \<Rightarrow> u32 \<Rightarrow> (global_State, unit) act" where
  "lj_str_resize E newmask g =
     (if g_gcstate g = GCSsweepstring \<or> newmask \<ge> LJ_MAX_STRTAB - 1 then ret () g
      else if e_oom E ((unat newmask + 1) * sizeof_GCRef) then throw NoMemory g
      else do {
        (newhash, obj) \<leftarrow> str_rehash newmask (rev (g_strhash g)) (replicate (unat newmask + 1) None, g_obj g);
        ret () (g\<lparr>g_strhash := newhash, g_strmask := newmask, g_obj := obj\<rparr>) })"

definition lj_str_new :: "lj_env \<Rightarrow> byte list \<Rightarrow> (global_State, u32) act" where
  "lj_str_new E bs g =
     (let str = strdata (e_arg E) bs; len = length bs in
      if len \<ge> LJ_MAX_STR then throw StringOverflow g
      else if len = 0 then ret (g_strempty g) g
      else
        let h = str_hash str len;
            chain = g_strhash g ! unat (h AND g_strmask g);
            same = (\<lambda>r s. s_len s = of_nat len \<and>
              (if (e_addr E + of_nat len) AND (LJ_PAGESIZE - 1) \<le> LJ_PAGESIZE - 4
               then str_fastcmp str (strdata (e_junk E r) (s_data s)) len = 0
               else take len (s_data s) = bs)) in
        do {
          found \<leftarrow> str_find same (g_obj g) chain;
          case found of
            Some r \<Rightarrow> do {
              s \<leftarrow> g_obj g r;
              ret r (if isdead g s then g\<lparr>g_obj := (g_obj g)(r \<mapsto> flipwhite s)\<rparr> else g) }
          | None \<Rightarrow>
              case e_new E (\<lambda>r. g_obj g r \<noteq> None) (sizeof_GCstr + len + 1) of
                None \<Rightarrow> throw NoMemory g
              | Some r \<Rightarrow>
                  let s = \<lparr>s_marked = curwhite g, s_reserved = 0, s_hash = h, s_len = of_nat len, s_data = bs @ [0],
                           s_nextgc = chain\<rparr>;
                      n = g_strnum g;
                      g = g\<lparr>g_obj := (g_obj g)(r \<mapsto> s), g_strhash := (g_strhash g)[unat (h AND g_strmask g) := Some r],
                            g_strnum := n + 1\<rparr>
                  in if n > g_strmask g then andthen (lj_str_resize E (push_bit 1 (g_strmask g) + 1)) (\<lambda>_. ret r) g
                     else ret r g })"

subsection \<open>Collection\<close>

definition lj_str_free :: "u32 \<Rightarrow> global_State \<Rightarrow> global_State" where
  "lj_str_free r g = g\<lparr>g_strnum := g_strnum g - 1, g_obj := (g_obj g)(r := None)\<rparr>"

text \<open>
  \<open>gc_sweep\<close> on a chain of strings: \<open>p\<close> is where the reference to the next string is stored, a place
  of the table or the \<open>nextgc\<close> of a string.
\<close>

datatype gcref_at = InTable nat | InString u32

fun get_ref :: "global_State \<Rightarrow> gcref_at \<Rightarrow> u32 option" where
  "get_ref g (InTable i) = g_strhash g ! i"
| "get_ref g (InString r) = (case g_obj g r of None \<Rightarrow> None | Some s \<Rightarrow> s_nextgc s)"

fun set_ref :: "gcref_at \<Rightarrow> u32 option \<Rightarrow> global_State \<Rightarrow> global_State" where
  "set_ref (InTable i) x g = g\<lparr>g_strhash := (g_strhash g)[i := x]\<rparr>"
| "set_ref (InString r) x g = g\<lparr>g_obj := (g_obj g)(r := map_option (s_nextgc_update (\<lambda>_. x)) (g_obj g r))\<rparr>"

primrec gc_sweep :: "nat \<Rightarrow> gcref_at \<Rightarrow> global_State \<Rightarrow> (gcref_at \<times> global_State) option" where
  "gc_sweep 0 p g = Some (p, g)"
| "gc_sweep (Suc lim) p g =
     (case get_ref g p of None \<Rightarrow> Some (p, g)
      | Some r \<Rightarrow> do {
          s \<leftarrow> g_obj g r;
          if (s_marked s XOR LJ_GC_WHITES) AND otherwhite g \<noteq> 0
          then gc_sweep lim (InString r) (g\<lparr>g_obj := (g_obj g)(r \<mapsto> makewhite g s)\<rparr>)
          else gc_sweep lim p (lj_str_free r (set_ref p (s_nextgc s) g)) })"

definition LJ_MAX_MEM :: nat where "LJ_MAX_MEM = 0x7fffff00"

text \<open>One step of the collector in the phase that sweeps the strings.\<close>

definition sweep_strings :: "global_State \<Rightarrow> global_State option" where
  "sweep_strings g =
     do { let i = g_sweepstr g;
          (_, g) \<leftarrow> gc_sweep LJ_MAX_MEM (InTable (unat i)) (g\<lparr>g_sweepstr := i + 1\<rparr>);
          Some (if i + 1 > g_strmask g then g\<lparr>g_gcstate := GCSsweep\<rparr> else g) }"

subsection \<open>Comparing words of bytes\<close>

lemma byte_pos: "8 * k \<le> j \<Longrightarrow> j < 8 * k + 8 \<Longrightarrow> j div 8 = k \<and> j mod 8 = j - 8 * (k :: nat)"
  using div_mult_mod_eq [of j 8] by (metis add_diff_cancel_left' div_nat_eqI mult.commute mult_Suc_right minus_mult_div_eq_mod add.commute)

lemma byte_bits: "8 \<le> j \<Longrightarrow> \<not> bit (b :: byte) j"
  using bit_imp_le_length [of b j] by auto

lemma bit_getu32: "bit (lj_getu32 m i) j \<longleftrightarrow> j < 32 \<and> bit (m (i + j div 8)) (j mod 8)"
proof (cases "j < 32")
  case True
  then consider "j < 8" | "8 \<le> j" "j < 16" | "16 \<le> j" "j < 24" | "24 \<le> j" "j < 32" by linarith
  then show ?thesis
  proof cases
    case 1
    then show ?thesis by (simp add: lj_getu32_def bit_simps)
  next
    case 2
    then have "j div 8 = 1" "j mod 8 = j - 8" "j - 8 < 32" using byte_pos [of 1 j] by simp_all
    then show ?thesis using 2 by (auto simp: lj_getu32_def bit_simps byte_bits)
  next
    case 3
    then have "j div 8 = 2" "j mod 8 = j - 16" "j - 16 < 32" using byte_pos [of 2 j] by simp_all
    then show ?thesis using 3 by (auto simp: lj_getu32_def bit_simps byte_bits)
  next
    case 4
    then have "j div 8 = 3" "j mod 8 = j - 24" "j - 24 < 32" using byte_pos [of 3 j] by simp_all
    then show ?thesis using 4 by (auto simp: lj_getu32_def bit_simps byte_bits)
  qed
next
  case False
  then show ?thesis using bit_imp_le_length [of "lj_getu32 m i" j] by auto
qed

lemma getu32_cong:
  assumes "\<And>k. k < 4 \<Longrightarrow> a (i + k) = b (i + k)"
  shows "lj_getu32 a i = lj_getu32 b i"
proof (rule bit_word_eqI)
  fix j assume "j < LENGTH(32)"
  then have "j div 8 < 4" by (simp add: less_mult_imp_div_less)
  then show "bit (lj_getu32 a i) j = bit (lj_getu32 b i) j" using assms by (simp add: bit_getu32)
qed

lemma byte_eqI: "(\<And>j. j < 8 \<Longrightarrow> bit x j = bit y j) \<Longrightarrow> x = (y :: byte)"
  by (rule bit_word_eqI) simp

lemma getu32_eqD:
  assumes "lj_getu32 a i = lj_getu32 b i" "k < 4"
  shows "a (i + k) = b (i + k)"
proof (rule byte_eqI)
  fix j :: nat
  assume j: "j < 8"
  have "bit (lj_getu32 a i) (8 * k + j) = bit (lj_getu32 b i) (8 * k + j)" by (simp only: assms(1))
  moreover have "(8 * k + j) div 8 = k" "(8 * k + j) mod 8 = j" "8 * k + j < 32" using j assms(2) by simp_all
  ultimately show "bit (a (i + k)) j = bit (b (i + k)) j" unfolding bit_getu32 by simp
qed

text \<open>The value of \<open>k\<close> bytes, the first the most significant.\<close>

primrec be_value :: "(nat \<Rightarrow> byte) \<Rightarrow> nat \<Rightarrow> nat \<Rightarrow> nat" where
  "be_value m i 0 = 0"
| "be_value m i (Suc k) = be_value m i k * 256 + unat (m (i + k))"

lemma byte_less: "unat (b :: byte) < 256"
  using unsigned_less [of b] by simp

lemma unat_drop: "unat (drop_bit n w) = unat w div 2 ^ n" for w :: u32
proof -
  have "take_bit 32 (unat w) = unat w" using unsigned_less [of w] by (intro take_bit_nat_eq_self) simp
  then show ?thesis unfolding unsigned_drop_bit_eq by (simp add: drop_bit_eq_div)
qed

lemma digit_less:
  assumes "a < 256" "b < (256 :: nat)"
  shows "x * 256 + a < y * 256 + b \<longleftrightarrow> x < y \<or> x = y \<and> a < b"
proof (cases x y rule: linorder_cases)
  case less
  then have "Suc x * 256 \<le> y * 256" by (intro mult_le_mono1) simp
  then show ?thesis using less assms by simp
next
  case greater
  then have "Suc y * 256 \<le> x * 256" by (intro mult_le_mono1) simp
  then show ?thesis using greater assms by simp
qed simp

lemma digit_eq:
  assumes "a < 256" "b < (256 :: nat)"
  shows "x * 256 + a = y * 256 + b \<longleftrightarrow> x = y \<and> a = b"
  using digit_less [OF assms, of x y] digit_less [OF assms(2,1), of y x] by (auto simp: not_less_iff_gr_or_eq)

lemma be_value_eq: "be_value a i k = be_value b i k \<longleftrightarrow> (\<forall>j < k. a (i + j) = b (i + j))"
proof (induction k)
  case (Suc k)
  have "x * 256 + unat (u :: byte) = y * 256 + unat (v :: byte) \<longleftrightarrow> x = y \<and> u = v" for x y u v
    unfolding word_unat_eq_iff by (intro digit_eq byte_less)
  then show ?case using Suc.IH by (auto simp: less_Suc_eq)
qed simp

lemma be_value_less:
  "be_value a i k < be_value b i k \<longleftrightarrow> (\<exists>j < k. (\<forall>l < j. a (i + l) = b (i + l)) \<and> a (i + j) < b (i + j))"
proof (induction k)
  case (Suc k)
  have "x * 256 + unat (u :: byte) < y * 256 + unat (v :: byte) \<longleftrightarrow> x < y \<or> x = y \<and> u < v" for x y u v
    unfolding word_less_nat_alt by (intro digit_less byte_less)
  then have "be_value a i (Suc k) < be_value b i (Suc k) \<longleftrightarrow>
      be_value a i k < be_value b i k \<or> be_value a i k = be_value b i k \<and> a (i + k) < b (i + k)" by simp
  then show ?case unfolding Suc.IH be_value_eq by (auto simp: less_Suc_eq)
qed simp

lemma be_value_drop: "be_value m i (k + l) div 256 ^ l = be_value m i k"
proof (induction l)
  case (Suc l)
  have "be_value m i (k + Suc l) div 256 ^ Suc l = be_value m i (Suc (k + l)) div 256 div 256 ^ l"
    by (simp add: div_mult2_eq)
  also have "be_value m i (Suc (k + l)) div 256 = be_value m i (k + l)" using byte_less [of "m (i + (k + l))"] by simp
  finally show ?case using Suc.IH by simp
qed simp

lemma byte_mask1: "(0xff00 :: u32) = push_bit 8 (mask 8)"
  by (simp add: push_bit_eq_mult mask_eq_exp_minus_1)

lemma bit_bswap: "bit (lj_bswap x) j \<longleftrightarrow> j < 32 \<and> bit x (8 * (3 - j div 8) + j mod 8)"
proof (cases "j < 32")
  case True
  then consider "j < 8" | "8 \<le> j" "j < 16" | "16 \<le> j" "j < 24" | "24 \<le> j" "j < 32" by linarith
  then show ?thesis
  proof cases
    case 1
    then show ?thesis by (simp add: lj_bswap_def byte_mask1 bit_simps add.commute)
  next
    case 2
    then have "16 + (j - 8) = 8 + j" by simp
    then show ?thesis using 2 byte_pos [of 1 j] bit_imp_le_length [of x "24 + j"] by (auto simp: lj_bswap_def byte_mask1 bit_simps)
  next
    case 3
    then have "8 + (j - 16) = j - 8" by simp
    then show ?thesis using 3 byte_pos [of 2 j] bit_imp_le_length [of x "24 + j"] by (auto simp: lj_bswap_def byte_mask1 bit_simps)
  next
    case 4
    then show ?thesis using byte_pos [of 3 j] bit_imp_le_length [of x "24 + j"] by (auto simp: lj_bswap_def byte_mask1 bit_simps)
  qed
qed (use bit_imp_le_length [of "lj_bswap x" j] in auto)

lemma bswap_byte: "k < 4 \<Longrightarrow> unat (take_bit 8 (drop_bit (8 * k) (lj_bswap (lj_getu32 m i)))) = unat (m (i + (3 - k)))"
proof -
  assume k: "k < 4"
  have "take_bit 8 (drop_bit (8 * k) (lj_bswap (lj_getu32 m i))) = ucast (m (i + (3 - k)))"
  proof (rule bit_word_eqI)
    fix j assume "j < LENGTH(32)"
    show "bit (take_bit 8 (drop_bit (8 * k) (lj_bswap (lj_getu32 m i)))) j = bit (ucast (m (i + (3 - k))) :: u32) j"
    proof (cases "j < 8")
      case True
      have "8 * (3 - k) + j < 32" "(8 * (3 - k) + j) div 8 = 3 - k" "(8 * (3 - k) + j) mod 8 = j" "(8 * k + j) div 8 = k" "(8 * k + j) mod 8 = j" "8 * k + j < 32"
        using True k by simp_all
      then show ?thesis using True k by (simp add: bit_simps bit_bswap bit_getu32)
    qed (simp add: bit_simps byte_bits)
  qed
  then show ?thesis by (simp add: unat_ucast_up_id)
qed

lemma bswap_value: "unat (lj_bswap (lj_getu32 m i)) = be_value m i 4"
proof -
  define w where "w = unat (lj_bswap (lj_getu32 m i))"
  have b: "w div 256 ^ k mod 256 = unat (m (i + (3 - k)))" if "k < 4" for k
    using bswap_byte [OF that, of m i] unfolding unsigned_take_bit_eq unat_drop
    by (simp add: w_def take_bit_eq_mod power_mult)
  have "w < 2 ^ 32" using unsigned_less [of "lj_bswap (lj_getu32 m i)"] by (simp add: w_def)
  define v1 v2 v3 where "v1 = w div 256" and "v2 = v1 div 256" and "v3 = v2 div 256"
  have v: "w div 256 ^ 2 = v2" "w div 256 ^ 3 = v3" by (simp_all add: v1_def v2_def v3_def flip: div_mult2_eq)
  have "v3 < 256" using \<open>w < 2 ^ 32\<close> by (simp flip: v(2))
  then have "v3 = unat (m i)" using b [of 3] v(2) by simp
  moreover have "v2 mod 256 = unat (m (Suc i))" using b [of 2] v(1) by simp
  then have "v2 = v3 * 256 + unat (m (Suc i))" using div_mult_mod_eq [of v2 256] by (simp add: v3_def)
  moreover have "v1 mod 256 = unat (m (Suc (Suc i)))" using b [of 1] by (simp add: v1_def)
  then have "v1 = v2 * 256 + unat (m (Suc (Suc i)))" using div_mult_mod_eq [of v1 256] by (simp add: v2_def)
  moreover have "w mod 256 = unat (m (i + 3))" using b [of 0] by simp
  then have "w = v1 * 256 + unat (m (i + 3))" using div_mult_mod_eq [of w 256] by (simp add: v1_def)
  ultimately have "w = ((unat (m i) * 256 + unat (m (Suc i))) * 256 + unat (m (Suc (Suc i)))) * 256 + unat (m (i + 3))" by (simp only:)
  moreover have "be_value m i (Suc 3) = \<dots>" "be_value m i 3 = be_value m i (Suc (Suc (Suc 0)))" by (simp_all add: numeral_3_eq_3)
  ultimately show ?thesis by (simp add: w_def)
qed

lemma bswap_drop: "q \<le> 4 \<Longrightarrow> unat (drop_bit (8 * (4 - q)) (lj_bswap (lj_getu32 m i))) = be_value m i q"
  using be_value_drop [of m i q "4 - q"] unfolding unat_drop by (simp add: bswap_value power_mult)


subsection \<open>The comparisons are those of the bytes\<close>

lemma sint_of_int_small: "- (2 ^ 31) \<le> z \<Longrightarrow> z < 2 ^ 31 \<Longrightarrow> sint (of_int z :: u32) = z"
  by (simp add: signed_of_int signed_take_bit_int_eq_self)

lemma tail_distance:
  assumes "i < n" "n < 2 ^ 31"
  shows "sint (of_nat i - of_nat n :: u32) = int i - int n"
    "n - i \<le> 3 \<Longrightarrow> unat (32 + push_bit 3 (of_nat i - of_nat n) :: u32) = 8 * (4 - (n - i))"
proof -
  have d: "(of_nat i - of_nat n :: u32) = of_int (int i - int n)" by simp
  have r: "- (2 ^ 31) \<le> int i - int n" "int i - int n < 2 ^ 31" using assms by simp_all
  show "sint (of_nat i - of_nat n :: u32) = int i - int n"
    unfolding d using r by (rule sint_of_int_small)
  assume q: "n - i \<le> 3"
  have "(32 + push_bit 3 (of_nat i - of_nat n) :: u32) = of_int (32 + 8 * (int i - int n))"
    by (simp add: push_bit_eq_mult algebra_simps)
  also have "32 + 8 * (int i - int n) = int (8 * (4 - (n - i)))" using assms(1) q by (simp add: of_nat_diff)
  finally have "(32 + push_bit 3 (of_nat i - of_nat n) :: u32) = of_nat (8 * (4 - (n - i)))" by (simp only: of_int_of_nat_eq)
  then show "unat (32 + push_bit 3 (of_nat i - of_nat n) :: u32) = 8 * (4 - (n - i))"
    by (simp only:) (rule unat_of_nat_less, simp)
qed

text \<open>The first byte in which two memories differ.\<close>

definition first_diff :: "(nat \<Rightarrow> byte) \<Rightarrow> (nat \<Rightarrow> byte) \<Rightarrow> nat \<Rightarrow> nat \<Rightarrow> bool" where
  "first_diff a b n j \<longleftrightarrow> j < n \<and> (\<forall>l < j. a l = b l) \<and> a j \<noteq> b j"

lemma be_value_diff:
  assumes "be_value a i k \<noteq> be_value b i k" "\<forall>l < i. a l = b l" "i + k \<le> n"
  shows "\<exists>j. first_diff a b n j \<and> (be_value a i k < be_value b i k \<longleftrightarrow> a j < b j)"
proof -
  have ex: "\<exists>j. first_diff a b n j \<and> a j < b j" if lt: "be_value a i k < be_value b i k" and eq: "\<forall>l < i. a l = b l" for a b
  proof -
    obtain j where j: "j < k" "\<forall>l < j. a (i + l) = b (i + l)" "a (i + j) < b (i + j)" using lt be_value_less by blast
    have "a l = b l" if "l < i + j" for l
      using eq j(2) that by (cases "l < i") (auto dest: spec [of _ "l - i"])
    then show ?thesis using j assms(3) by (intro exI [of _ "i + j"]) (auto simp: first_diff_def)
  qed
  have sym: "first_diff a b n j \<longleftrightarrow> first_diff b a n j" for j by (auto simp: first_diff_def)
  show ?thesis
  proof (cases "be_value a i k < be_value b i k")
    case True
    then show ?thesis using ex assms(2) by blast
  next
    case False
    then have "be_value b i k < be_value a i k" using assms(1) by simp
    then obtain j where "first_diff b a n j" "b j < a j" using ex [of b a] assms(2) by metis
    then show ?thesis using False sym by (metis less_asym)
  qed
qed

lemma str_cmp_loop_diff:
  assumes "n < 2 ^ 31" "\<forall>l < i. l < n \<longrightarrow> a l = b l"
  shows "case str_cmp_loop a b n i of None \<Rightarrow> \<forall>l < n. a l = b l
    | Some r \<Rightarrow> \<exists>j. first_diff a b n j \<and> r = (if a j < b j then -1 else 1)"
  using assms(2)
proof (induction "n - i" arbitrary: i rule: less_induct)
  case less
  show ?case
  proof (cases "i < n")
    case False
    then show ?thesis using less.prems by (simp add: str_cmp_loop.simps)
  next
    case i: True
    then have before: "\<forall>l < i. a l = b l" using less.prems by simp
    define va vb where "va = lj_bswap (lj_getu32 a i)" and "vb = lj_bswap (lj_getu32 b i)"
    have val: "unat va = be_value a i 4" "unat vb = be_value b i 4" by (simp_all add: va_def vb_def bswap_value)
    show ?thesis
    proof (cases "lj_getu32 a i = lj_getu32 b i")
      case True
      then have "\<forall>l < i + 4. l < n \<longrightarrow> a l = b l"
        using before getu32_eqD [OF True, of "l - i" for l] by (metis add.commute le_add_diff_inverse2 less_diff_conv2 not_le)
      then show ?thesis using less.hyps [of "i + 4"] i True by (simp add: str_cmp_loop.simps [of a b n i])
    next
      case diff: False
      then have ne: "va \<noteq> vb"
        using be_value_eq [of a i 4 b] getu32_cong [of a i b] val by metis
      note t = tail_distance [OF i assms(1)]
      show ?thesis
      proof (cases "n - i \<le> 3")
        case True
        define q where "q = n - i"
        have q: "q \<le> 4" "i + q = n" "q \<le> 3" using True i by (simp_all add: q_def)
        define wa wb where "wa = drop_bit (8 * (4 - q)) va" and "wb = drop_bit (8 * (4 - q)) vb"
        have w: "unat wa = be_value a i q" "unat wb = be_value b i q"
          using bswap_drop [OF q(1)] by (simp_all add: wa_def wb_def va_def vb_def)
        have run: "str_cmp_loop a b n i = (if wa = wb then None else Some (if wa < wb then -1 else 1))"
        proof -
          have "-3 \<le> int i - int n" using True i by linarith
          then show ?thesis using i diff t True by (simp add: str_cmp_loop.simps [of a b n i] Let_def wa_def wb_def va_def vb_def q_def)
        qed
        show ?thesis
        proof (cases "wa = wb")
          case True
          then have "\<forall>j < q. a (i + j) = b (i + j)" using w be_value_eq by metis
          then have "\<forall>l < n. a l = b l" using before q(2) by (metis add_diff_inverse_nat nat_add_left_cancel_less)
          then show ?thesis using run True by simp
        next
          case False
          then have "be_value a i q \<noteq> be_value b i q" using w by (simp add: word_unat_eq_iff)
          then show ?thesis using be_value_diff [OF _ before, of q n] q(2) run False w by (auto simp: word_less_nat_alt)
        qed
      next
        case False
        then have "i + 4 \<le> n" "\<not> -3 \<le> int i - int n" by simp_all
        moreover have "be_value a i 4 \<noteq> be_value b i 4" using ne val by (simp add: word_unat_eq_iff)
        moreover have "str_cmp_loop a b n i = Some (if va < vb then -1 else 1)"
          using i diff t \<open>\<not> -3 \<le> int i - int n\<close> by (simp add: str_cmp_loop.simps [of a b n i] Let_def va_def vb_def)
        ultimately show ?thesis using be_value_diff [OF _ before, of 4 n] val by (auto simp: word_less_nat_alt)
      qed
    qed
  qed
qed

lemma fastcmp_loop_eq:
  assumes "n < 2 ^ 31" "i < n" "\<forall>l < i. a l = b l"
  shows "str_fastcmp_loop a b n i = 0 \<longleftrightarrow> (\<forall>l < n. a l = b l)"
  using assms(2,3)
proof (induction "n - i" arbitrary: i rule: less_induct)
  case less
  define v where "v = lj_getu32 a i XOR lj_getu32 b i"
  note t = tail_distance [OF less.prems(1) assms(1)]
  have bitv: "bit v j \<longleftrightarrow> j < 32 \<and> bit (a (i + j div 8)) (j mod 8) \<noteq> bit (b (i + j div 8)) (j mod 8)" for j
    by (auto simp: v_def bit_simps bit_getu32)
  have v0: "v = 0 \<longleftrightarrow> lj_getu32 a i = lj_getu32 b i"
  proof
    assume z: "v = 0"
    have "bit (lj_getu32 a i) j = bit (lj_getu32 b i) j" for j
    proof -
      have "\<not> bit v j" by (simp add: z)
      then show ?thesis by (simp add: v_def bit_xor_iff)
    qed
    then show "lj_getu32 a i = lj_getu32 b i" by (intro bit_eqI) simp
  qed (simp add: v_def)
  have after: "\<forall>l < i + 4. a l = b l" if "v = 0"
  proof (intro allI impI)
    fix l assume l: "l < i + 4"
    have eq: "lj_getu32 a i = lj_getu32 b i" using that v0 by simp
    show "a l = b l" using l less.prems(2) getu32_eqD [OF eq, of "l - i"] by (cases "l < i") auto
  qed
  show ?case
  proof (cases "v = 0")
    case True
    show ?thesis
    proof (cases "i + 4 < n")
      case more: True
      then have "str_fastcmp_loop a b n i = str_fastcmp_loop a b n (i + 4)"
        using True by (simp add: str_fastcmp_loop.simps [of a b n i] v_def)
      then show ?thesis using less.hyps [OF _ more after [OF True]] less.prems(1) by simp
    next
      case False
      then have "str_fastcmp_loop a b n i = 0" using True by (simp add: str_fastcmp_loop.simps [of a b n i] v_def)
      then show ?thesis using after [OF True] False by auto
    qed
  next
    case False
    show ?thesis
    proof (cases "n - i \<le> 3")
      case tail: True
      define q where "q = n - i"
      have q: "q \<le> 3" "i + q = n" "0 < q" using tail less.prems(1) by (simp_all add: q_def)
      have run: "str_fastcmp_loop a b n i = push_bit (8 * (4 - q)) v"
      proof -
        have "-3 \<le> int i - int n" using tail less.prems(1) by linarith
        then show ?thesis using False t tail less.prems(1) by (simp add: str_fastcmp_loop.simps [of a b n i] Let_def v_def q_def)
      qed
      have "push_bit (8 * (4 - q)) v = 0 \<longleftrightarrow> (\<forall>j < 8 * q. \<not> bit v j)"
      proof -
        have "push_bit (8 * (4 - q)) v = 0 \<longleftrightarrow> (\<forall>k < 32. \<not> bit (push_bit (8 * (4 - q)) v) k)"
          by (auto simp: bit_eq_iff dest: bit_imp_le_length)
        also have "\<dots> \<longleftrightarrow> (\<forall>j < 8 * q. \<not> bit v j)"
        proof safe
          fix j assume "\<forall>k < 32. \<not> bit (push_bit (8 * (4 - q)) v) k" "j < 8 * q" "bit v j"
          moreover have "8 * (4 - q) + j < 32" using \<open>j < 8 * q\<close> q(1) by simp
          ultimately show False by (auto simp: bit_simps dest!: spec [of _ "8 * (4 - q) + j"])
        next
          fix k :: nat assume "\<forall>j < 8 * q. \<not> bit v j" "k < 32" "bit (push_bit (8 * (4 - q)) v) k"
          then show False using q(1) by (auto simp: bit_simps dest!: spec [of _ "k - 8 * (4 - q)"])
        qed
        finally show ?thesis .
      qed
      also have "\<dots> \<longleftrightarrow> (\<forall>l < q. a (i + l) = b (i + l))"
      proof safe
        fix l assume z: "\<forall>j < 8 * q. \<not> bit v j" and l: "l < q"
        show "a (i + l) = b (i + l)"
        proof (rule byte_eqI)
          fix j :: nat assume j: "j < 8"
          have "8 * l + j < 8 * q" "8 * l + j < 32" "(8 * l + j) div 8 = l" "(8 * l + j) mod 8 = j" using j l q(1) by simp_all
          then show "bit (a (i + l)) j = bit (b (i + l)) j" using z bitv [of "8 * l + j"] by simp
        qed
      next
        fix j assume z: "\<forall>l < q. a (i + l) = b (i + l)" "j < 8 * q" "bit v j"
        then have "j div 8 < q" by (simp add: less_mult_imp_div_less mult.commute)
        then show False using z bitv by simp
      qed
      also have "\<dots> \<longleftrightarrow> (\<forall>l < n. a l = b l)"
        using less.prems(2) q(2) by (metis add_diff_inverse_nat nat_add_left_cancel_less)
      finally show ?thesis by (simp only: run)
    next
      case far: False
      then have run: "str_fastcmp_loop a b n i = 1"
        using False t less.prems(1) by (simp add: str_fastcmp_loop.simps [of a b n i] Let_def v_def)
      have "\<exists>k < 4. a (i + k) \<noteq> b (i + k)" using False v0 getu32_cong [of a i b] by blast
      then obtain k where "k < 4" "a (i + k) \<noteq> b (i + k)" by blast
      moreover have "i + k < n" using far \<open>k < 4\<close> by simp
      ultimately show ?thesis using run by auto
    qed
  qed
qed

lemma lexordp_first_diff:
  assumes "j < length xs" "j < length ys" "\<forall>l < j. xs ! l = ys ! l" "xs ! j \<noteq> (ys ! j :: 'a::linorder)"
  shows "ord_class.lexordp xs ys \<longleftrightarrow> xs ! j < ys ! j"
  using assms
proof (induction j arbitrary: xs ys)
  case 0
  then show ?case by (cases xs; cases ys) auto
next
  case (Suc j)
  then obtain x xs' y ys' where xy: "xs = x # xs'" "ys = y # ys'" by (cases xs; cases ys) auto
  have "x = y" using Suc.prems(3) xy by fastforce
  moreover have "\<forall>l < j. xs' ! l = ys' ! l" using Suc.prems(3) xy by fastforce
  ultimately show ?case using Suc.IH [of xs' ys'] Suc.prems xy by simp
qed

lemma lexordp_prefix:
  assumes "\<forall>l < min (length xs) (length ys). xs ! l = (ys ! l :: 'a::linorder)"
  shows "ord_class.lexordp xs ys \<longleftrightarrow> length xs < length ys"
  using assms
proof (induction xs arbitrary: ys)
  case Nil
  then show ?case by (cases ys) auto
next
  case (Cons x xs)
  show ?case
  proof (cases ys)
    case (Cons y ys')
    have "x = y" using Cons.prems \<open>ys = _\<close> by fastforce
    moreover have "\<forall>l < min (length xs) (length ys'). xs ! l = ys' ! l" using Cons.prems \<open>ys = _\<close> by fastforce
    ultimately show ?thesis using Cons.IH \<open>ys = _\<close> by simp
  qed simp
qed

lemma sint_length_diff:
  assumes "m < 2 ^ 31" "n < 2 ^ 31"
  shows "sint (of_nat m - of_nat n :: u32) = int m - int n"
proof -
  have d: "(of_nat m - of_nat n :: u32) = of_int (int m - int n)" by simp
  show ?thesis unfolding d using assms by (intro sint_of_int_small) simp_all
qed

theorem lj_str_cmp_order:
  fixes ja jb :: "nat \<Rightarrow> byte"
  assumes "length xs < 2 ^ 31" "length ys < 2 ^ 31"
  defines "r \<equiv> lj_str_cmp (strdata ja xs) (of_nat (length xs)) (strdata jb ys) (of_nat (length ys))"
  shows "(r < 0 \<longleftrightarrow> ord_class.lexordp xs ys) \<and> (r = 0 \<longleftrightarrow> xs = ys)"
proof -
  define n where "n = min (length xs) (length ys)"
  have len: "unat (of_nat (length xs) :: u32) = length xs" "unat (of_nat (length ys) :: u32) = length ys"
    using assms by (simp_all add: unat_of_nat_less)
  have n: "unat (if (of_nat (length xs) :: u32) > of_nat (length ys) then of_nat (length ys) else of_nat (length xs) :: u32) = n" "n < 2 ^ 31"
    using assms len by (auto simp: n_def word_less_nat_alt)
  have at: "strdata ja xs l = xs ! l" "strdata jb ys l = ys ! l" if "l < n" for l
    using that by (simp_all add: strdata_def n_def)
  have rr: "r = (case str_cmp_loop (strdata ja xs) (strdata jb ys) n 0 of Some r \<Rightarrow> r | None \<Rightarrow> int (length xs) - int (length ys))"
    unfolding r_def lj_str_cmp_def Let_def n(1) sint_length_diff [OF assms(1,2)] ..
  have loop: "case str_cmp_loop (strdata ja xs) (strdata jb ys) n 0 of None \<Rightarrow> \<forall>l < n. strdata ja xs l = strdata jb ys l
    | Some r \<Rightarrow> \<exists>j. first_diff (strdata ja xs) (strdata jb ys) n j \<and> r = (if strdata ja xs j < strdata jb ys j then -1 else 1)"
    by (rule str_cmp_loop_diff [OF n(2)]) simp
  show ?thesis
  proof (cases "str_cmp_loop (strdata ja xs) (strdata jb ys) n 0")
    case None
    then have "\<forall>l < n. xs ! l = ys ! l" using loop at by simp
    then have "ord_class.lexordp xs ys \<longleftrightarrow> length xs < length ys" "length xs = length ys \<Longrightarrow> xs = ys"
      using lexordp_prefix [of xs ys] by (simp_all add: n_def list_eq_iff_nth_eq)
    then show ?thesis using None rr by auto
  next
    case (Some r')
    then obtain j where j: "first_diff (strdata ja xs) (strdata jb ys) n j" "r' = (if strdata ja xs j < strdata jb ys j then -1 else 1)"
      using loop by auto
    then have d: "j < length xs" "j < length ys" "\<forall>l < j. xs ! l = ys ! l" "xs ! j \<noteq> ys ! j"
      using at unfolding first_diff_def by (auto simp: n_def)
    have "xs \<noteq> ys" using d(4) by blast
    then show ?thesis using lexordp_first_diff [OF d] j Some rr at d(1,2) by (auto simp: n_def)
  qed
qed

lemma str_fastcmp_eq:
  assumes "0 < n" "n < 2 ^ 31"
  shows "str_fastcmp a b n = 0 \<longleftrightarrow> (\<forall>l < n. a l = b l)"
  unfolding str_fastcmp_def using assms by (intro fastcmp_loop_eq) simp_all

text \<open>The hash reads the bytes of the string only.\<close>

lemma str_hash_cong:
  assumes "\<And>l. l < n \<Longrightarrow> a l = b l" "0 < n"
  shows "str_hash a n = str_hash b n"
proof (cases "4 \<le> n")
  case True
  have "lj_getu32 a i = lj_getu32 b i" if "i + 4 \<le> n" for i using that assms(1) by (intro getu32_cong) simp
  moreover have "0 + 4 \<le> n" "n - 4 + 4 \<le> n" "n div 2 - 2 + 4 \<le> n" "n div 4 - 1 + 4 \<le> n" using True by simp_all
  ultimately have "lj_getu32 a 0 = lj_getu32 b 0" "lj_getu32 a (n - 4) = lj_getu32 b (n - 4)"
    "lj_getu32 a (n div 2 - 2) = lj_getu32 b (n div 2 - 2)" "lj_getu32 a (n div 4 - 1) = lj_getu32 b (n div 4 - 1)" by blast+
  then show ?thesis using True by (simp add: str_hash_def)
next
  case False
  have "a 0 = b 0" "a (n - 1) = b (n - 1)" "a (n div 2) = b (n div 2)" using assms by simp_all
  then show ?thesis using False by (simp add: str_hash_def)
qed

end
