(* ===== verification/LjStrTab.thy ===== *)
theory LjStrTab
  imports LjStr "HOL-Library.Multiset"
begin

text \<open>
  The string table of LuaJIT: the invariant of its hash chains, and that interning, resizing and the sweep of the
  collector keep it. Equal bytes have one object, as long as it is alive.
\<close>

subsection \<open>The table of strings\<close>

definition str_bytes :: "gcstr \<Rightarrow> byte list" where "str_bytes s = butlast (s_data s)"

definition hash_of :: "byte list \<Rightarrow> u32" where "hash_of bs = str_hash (strdata (\<lambda>_. 0) bs) (length bs)"

definition str_obj_ok :: "gcstr \<Rightarrow> bool" where
  "str_obj_ok s \<longleftrightarrow> s_data s = str_bytes s @ [0] \<and> s_len s = of_nat (length (str_bytes s)) \<and> length (str_bytes s) < LJ_MAX_STR \<and>
     (str_bytes s \<noteq> [] \<longrightarrow> s_hash s = hash_of (str_bytes s)) \<and> s_marked s AND LJ_GC_WHITES \<noteq> LJ_GC_WHITES"

text \<open>The strings of a chain, first to last.\<close>

fun str_chain :: "(u32 \<Rightarrow> gcstr option) \<Rightarrow> u32 option \<Rightarrow> u32 list \<Rightarrow> bool" where
  "str_chain obj p [] \<longleftrightarrow> p = None"
| "str_chain obj p (r # rs) \<longleftrightarrow> p = Some r \<and> (\<exists>s. obj r = Some s \<and> str_chain obj (s_nextgc s) rs)"

definition chained :: "u32 \<Rightarrow> u32 option list \<Rightarrow> (u32 \<Rightarrow> gcstr option) \<Rightarrow> u32 list list \<Rightarrow> bool" where
  "chained mk tb obj css \<longleftrightarrow> length tb = unat mk + 1 \<and> length css = unat mk + 1 \<and>
     (\<forall>i \<le> unat mk. str_chain obj (tb ! i) (css ! i) \<and> (\<forall>r \<in> set (css ! i). \<exists>s. obj r = Some s \<and> unat (s_hash s AND mk) = i))"

lemma chainedD:
  assumes "chained mk tb obj css"
  shows "length tb = unat mk + 1" "length css = unat mk + 1"
    "i \<le> unat mk \<Longrightarrow> str_chain obj (tb ! i) (css ! i)"
    "i \<le> unat mk \<Longrightarrow> r \<in> set (css ! i) \<Longrightarrow> \<exists>s. obj r = Some s \<and> unat (s_hash s AND mk) = i"
  using assms by (auto simp: chained_def)

lemma chained_mem: "chained mk tb obj css \<Longrightarrow> r \<in> set (concat css) \<longleftrightarrow> (\<exists>i \<le> unat mk. r \<in> set (css ! i))"
proof -
  assume "chained mk tb obj css"
  then have "set css = (\<lambda>i. css ! i) ` {..unat mk}" by (auto simp: chained_def set_conv_nth less_Suc_eq_le)
  then show ?thesis by (auto simp: Bex_def)
qed

lemma str_chain_cong: "\<forall>r \<in> set rs. obj' r = obj r \<Longrightarrow> str_chain obj' p rs = str_chain obj p rs"
  by (induction rs arbitrary: p) auto

lemma str_find_chain:
  "str_chain obj p rs \<Longrightarrow> str_find P obj p = Some (find (\<lambda>r. P r (the (obj r))) rs)"
  by (induction rs arbitrary: p) (auto simp: str_find.simps)

lemma hash_index: "unat (h AND mk :: u32) \<le> unat mk"
  using word_and_le1 [of h mk] by (simp add: word_le_nat_alt and.commute)

lemma mset_concat_update:
  "i < length css \<Longrightarrow> mset (concat (css[i := r # css ! i])) = add_mset r (mset (concat css))"
proof (induction css arbitrary: i)
  case (Cons c css)
  then show ?case by (cases i) auto
qed simp

text \<open>A string that is put in front of its chain.\<close>

lemma chained_insert:
  assumes ok: "chained mk tb obj css" and r: "r \<notin> set (concat css)" and i: "i = unat (s_hash s AND mk)" and n: "s_nextgc s = tb ! i"
  shows "chained mk (tb[i := Some r]) (obj(r \<mapsto> s)) (css[i := r # css ! i])"
proof -
  note c = chainedD [OF ok]
  have im: "i \<le> unat mk" using hash_index i by simp
  have notin: "r \<notin> set (css ! j)" if "j \<le> unat mk" for j using r that chained_mem [OF ok] by blast
  have ch: "str_chain (obj(r \<mapsto> s)) (tb ! j) (css ! j)" if "j \<le> unat mk" for j
    using c(3) [OF that] notin [OF that] by (subst str_chain_cong [of _ _ obj]) auto
  show ?thesis
    unfolding chained_def
  proof (intro conjI allI impI ballI)
    fix j assume j: "j \<le> unat mk"
    show "str_chain (obj(r \<mapsto> s)) (tb[i := Some r] ! j) (css[i := r # css ! i] ! j)"
      using ch [OF j] ch [OF im] n c(1,2) im j by (cases "j = i") simp_all
    fix x assume "x \<in> set (css[i := r # css ! i] ! j)"
    then have "x = r \<and> j = i \<or> x \<in> set (css ! j)" using c(2) im j by (cases "j = i") auto
    then show "\<exists>t. (obj(r \<mapsto> s)) x = Some t \<and> unat (s_hash t AND mk) = j"
      using c(4) [OF j] notin [OF j] i by (auto split: if_splits)
  qed (use c in simp_all)
qed

definition same_but_next :: "(u32 \<Rightarrow> gcstr option) \<Rightarrow> (u32 \<Rightarrow> gcstr option) \<Rightarrow> bool" where
  "same_but_next obj obj' \<longleftrightarrow> (\<forall>r. case obj r of None \<Rightarrow> obj' r = None | Some s \<Rightarrow> \<exists>x. obj' r = Some (s\<lparr>s_nextgc := x\<rparr>))"

lemma same_but_next_refl: "same_but_next obj obj"
proof -
  have "\<exists>x. s = s\<lparr>s_nextgc := x\<rparr>" for s by (intro exI [of _ "s_nextgc s"]) simp
  then show ?thesis by (auto simp: same_but_next_def split: option.split)
qed

lemma same_but_next_trans: "same_but_next a b \<Longrightarrow> same_but_next b c \<Longrightarrow> same_but_next a c"
  unfolding same_but_next_def by (force split: option.splits)

lemma same_but_next_upd: "obj r = Some s \<Longrightarrow> same_but_next obj (obj(r \<mapsto> s\<lparr>s_nextgc := x\<rparr>))"
  using same_but_next_refl [of obj] by (auto simp: same_but_next_def split: option.splits)

lemma str_rechain_chained:
  assumes "str_chain obj p rs" "distinct rs" "set rs \<inter> set (concat css) = {}" "chained mk tb obj css"
  shows "\<exists>tb' obj' css'. str_rechain mk p (tb, obj) = Some (tb', obj') \<and> chained mk tb' obj' css' \<and>
    mset (concat css') = mset (concat css) + mset rs \<and> same_but_next obj obj' \<and> (\<forall>r. r \<notin> set rs \<longrightarrow> obj' r = obj r)"
  using assms
proof (induction rs arbitrary: p obj tb css)
  case Nil
  then show ?case using same_but_next_refl by (auto simp: str_rechain.simps)
next
  case (Cons r rs)
  then obtain s where s: "p = Some r" "obj r = Some s" "str_chain obj (s_nextgc s) rs" by auto
  define i where "i = unat (s_hash s AND mk)"
  define s' where "s' = s\<lparr>s_nextgc := tb ! i\<rparr>"
  define css1 where "css1 = css[i := r # css ! i]"
  have i: "i < length css" using hash_index chainedD(2) [OF Cons.prems(4)] by (simp add: i_def less_Suc_eq_le)
  have m: "mset (concat css1) = add_mset r (mset (concat css))" unfolding css1_def by (rule mset_concat_update [OF i])
  then have st: "set (concat css1) = insert r (set (concat css))" by (metis set_mset_add_mset_insert set_mset_mset)
  have c1: "chained mk (tb[i := Some r]) (obj(r \<mapsto> s')) css1"
    unfolding css1_def using Cons.prems(3,4) by (intro chained_insert) (auto simp: s'_def i_def)
  have rest: "str_chain (obj(r \<mapsto> s')) (s_nextgc s) rs" using s(3) Cons.prems(2) by (subst str_chain_cong [of _ _ obj]) auto
  have "distinct rs" "set rs \<inter> set (concat css1) = {}" using Cons.prems(2,3) unfolding st by auto
  from Cons.IH [OF rest this c1]
  obtain tb' obj' css' where ih: "str_rechain mk (s_nextgc s) (tb[i := Some r], obj(r \<mapsto> s')) = Some (tb', obj')"
    "chained mk tb' obj' css'" "mset (concat css') = mset (concat css1) + mset rs" "same_but_next (obj(r \<mapsto> s')) obj'"
    "\<forall>x. x \<notin> set rs \<longrightarrow> obj' x = (obj(r \<mapsto> s')) x"
    by (elim exE conjE)
  have "str_rechain mk p (tb, obj) = Some (tb', obj')"
    using s ih(1) by (subst str_rechain.simps) (simp add: i_def s'_def)
  moreover have "same_but_next obj obj'" 
    using same_but_next_trans [OF _ ih(4)] same_but_next_upd [where obj = obj and r = r and s = s] s(2) unfolding s'_def by blast
  ultimately show ?case using ih(2,3,5) m by (intro exI [of _ tb'] exI [of _ obj'] exI [of _ css']) auto
qed

lemma list_all2_mp: "list_all2 P xs ys \<Longrightarrow> (\<And>x y. y \<in> set ys \<Longrightarrow> P x y \<Longrightarrow> Q x y) \<Longrightarrow> list_all2 Q xs ys"
  by (auto simp: list_all2_conv_all_nth)

lemma str_rehash_chained:
  assumes "list_all2 (str_chain obj) ps rss" "distinct (concat rss)" "set (concat rss) \<inter> set (concat css) = {}" "chained mk tb obj css"
  shows "\<exists>tb' obj' css'. str_rehash mk ps (tb, obj) = Some (tb', obj') \<and> chained mk tb' obj' css' \<and>
    mset (concat css') = mset (concat css) + mset (concat rss) \<and> same_but_next obj obj'"
  using assms
proof (induction ps arbitrary: rss obj tb css)
  case Nil
  then show ?case using same_but_next_refl by auto
next
  case (Cons p ps)
  then obtain rs rss' where rss: "rss = rs # rss'" "str_chain obj p rs" "list_all2 (str_chain obj) ps rss'" by (auto simp: list_all2_Cons1)
  have "distinct rs" "set rs \<inter> set (concat css) = {}" using Cons.prems(2,3) rss(1) by auto
  from str_rechain_chained [OF rss(2) this Cons.prems(4)]
  obtain tb1 obj1 css1 where r: "str_rechain mk p (tb, obj) = Some (tb1, obj1)" "chained mk tb1 obj1 css1"
    "mset (concat css1) = mset (concat css) + mset rs" "same_but_next obj obj1" "\<forall>r. r \<notin> set rs \<longrightarrow> obj1 r = obj r"
    by (elim exE conjE)
  have st: "set (concat css1) = set (concat css) \<union> set rs" using arg_cong [OF r(3), of set_mset] by simp
  have dj: "set rs \<inter> set (concat rss') = {}" using Cons.prems(2) rss(1) by simp
  have "list_all2 (str_chain obj1) ps rss'"
    using rss(3)
  proof (rule list_all2_mp)
    fix q qs assume "qs \<in> set rss'" "str_chain obj q qs"
    moreover have "\<forall>x \<in> set qs. obj1 x = obj x" using \<open>qs \<in> set rss'\<close> r(5) dj by auto
    ultimately show "str_chain obj1 q qs" using str_chain_cong by blast
  qed
  then obtain tb' obj' css' where "str_rehash mk ps (tb1, obj1) = Some (tb', obj')" "chained mk tb' obj' css'"
    "mset (concat css') = mset (concat css1) + mset (concat rss')" "same_but_next obj1 obj'"
    using Cons.IH [OF _ _ _ r(2), of rss'] Cons.prems(2,3) rss(1) dj st by fastforce
  then show ?case using r rss(1) same_but_next_trans by fastforce
qed


subsection \<open>The invariant\<close>

definition str_inv :: "u32 list list \<Rightarrow> global_State \<Rightarrow> bool" where
  "str_inv css g \<longleftrightarrow>
     chained (g_strmask g) (g_strhash g) (g_obj g) css \<and>
     distinct (concat css) \<and>
     g_strempty g \<notin> set (concat css) \<and>
     dom (g_obj g) = insert (g_strempty g) (set (concat css)) \<and>
     (\<exists>s. g_obj g (g_strempty g) = Some s \<and> str_bytes s = []) \<and>
     (\<forall>r s. g_obj g r = Some s \<longrightarrow> str_obj_ok s \<and> (r \<noteq> g_strempty g \<longrightarrow> str_bytes s \<noteq> [])) \<and>
     (\<forall>r r' s s'. g_obj g r = Some s \<longrightarrow> g_obj g r' = Some s' \<longrightarrow> str_bytes s = str_bytes s' \<longrightarrow> r = r') \<and>
     g_strnum g = of_nat (length (concat css)) \<and>
     (g_currentwhite g = 0x21 \<or> g_currentwhite g = 0x22)"

definition str_ok :: "global_State \<Rightarrow> bool" where "str_ok g \<longleftrightarrow> (\<exists>css. str_inv css g)"

text \<open>The bytes of a string, and that no string of \<open>g\<close> is lost or changed.\<close>

definition str_text :: "global_State \<Rightarrow> u32 \<Rightarrow> byte list option" where
  "str_text g r = map_option str_bytes (g_obj g r)"

definition keeps :: "global_State \<Rightarrow> global_State \<Rightarrow> bool" where
  "keeps g g' \<longleftrightarrow> g_strempty g' = g_strempty g \<and> g_currentwhite g' = g_currentwhite g \<and> g_gcstate g' = g_gcstate g \<and> g_sweepstr g' = g_sweepstr g \<and>
     (\<forall>r s. g_obj g r = Some s \<longrightarrow> (\<exists>s'. g_obj g' r = Some s' \<and> str_bytes s' = str_bytes s \<and> s_hash s' = s_hash s \<and>
        (s_marked s' = s_marked s \<or> isdead g s \<and> s_marked s' = s_marked s XOR LJ_GC_WHITES)))"

lemma str_invD:
  assumes "str_inv css g"
  shows "chained (g_strmask g) (g_strhash g) (g_obj g) css" "distinct (concat css)" "g_strempty g \<notin> set (concat css)"
    "dom (g_obj g) = insert (g_strempty g) (set (concat css))" "\<exists>s. g_obj g (g_strempty g) = Some s \<and> str_bytes s = []"
    "g_obj g r = Some s \<Longrightarrow> str_obj_ok s" "g_obj g r = Some s \<Longrightarrow> r \<noteq> g_strempty g \<Longrightarrow> str_bytes s \<noteq> []"
    "g_obj g r = Some s \<Longrightarrow> g_obj g r' = Some s' \<Longrightarrow> str_bytes s = str_bytes s' \<Longrightarrow> r = r'"
    "g_strnum g = of_nat (length (concat css))" "g_currentwhite g = 0x21 \<or> g_currentwhite g = 0x22"
  using assms unfolding str_inv_def by blast+

lemma same_but_next_obj:
  assumes "same_but_next obj obj'"
  shows "obj r = Some s \<Longrightarrow> \<exists>x. obj' r = Some (s\<lparr>s_nextgc := x\<rparr>)" "obj' r = Some s' \<Longrightarrow> \<exists>s x. obj r = Some s \<and> s' = s\<lparr>s_nextgc := x\<rparr>"
    "dom obj' = dom obj"
proof -
  have c: "case obj r of None \<Rightarrow> obj' r = None | Some s \<Rightarrow> \<exists>x. obj' r = Some (s\<lparr>s_nextgc := x\<rparr>)" for r
    using assms by (simp add: same_but_next_def)
  show "obj r = Some s \<Longrightarrow> \<exists>x. obj' r = Some (s\<lparr>s_nextgc := x\<rparr>)" using c [of r] by simp
  show "obj' r = Some s' \<Longrightarrow> \<exists>s x. obj r = Some s \<and> s' = s\<lparr>s_nextgc := x\<rparr>" using c [of r] by (auto split: option.splits)
  show "dom obj' = dom obj"
  proof (rule set_eqI)
    fix r show "r \<in> dom obj' \<longleftrightarrow> r \<in> dom obj" using c [of r] by (auto simp: domIff split: option.splits)
  qed
qed

lemma str_bytes_next [simp]: "str_bytes (s\<lparr>s_nextgc := x\<rparr>) = str_bytes s" "str_bytes (s\<lparr>s_marked := m\<rparr>) = str_bytes s"
  by (simp_all add: str_bytes_def)

lemma str_obj_ok_next [simp]: "str_obj_ok (s\<lparr>s_nextgc := x\<rparr>) = str_obj_ok s"
  by (simp add: str_obj_ok_def)

lemma isdead_next [simp]: "isdead g (s\<lparr>s_nextgc := x\<rparr>) = isdead g s"
  by (simp add: isdead_def)

lemma keeps_refl: "keeps g g"
  by (simp add: keeps_def)

lemma lj_str_resize_ok:
  assumes "str_ok g"
  shows "\<exists>res g'. lj_str_resize E mk g = Some (res, g') \<and> str_ok g' \<and> keeps g g' \<and> same_but_next (g_obj g) (g_obj g') \<and> (res = Inr () \<or> res = Inl NoMemory)"
proof -
  obtain css where inv: "str_inv css g" using assms by (auto simp: str_ok_def)
  note i = str_invD [OF inv]
  note ch = chainedD [OF i(1)]
  show ?thesis
  proof (cases "g_gcstate g = GCSsweepstring \<or> mk \<ge> LJ_MAX_STRTAB - 1 \<or> e_oom E ((unat mk + 1) * sizeof_GCRef)")
    case True
    then show ?thesis using assms same_but_next_refl by (auto simp: lj_str_resize_def keeps_refl ret_def throw_def)
  next
    case False
    define n where "n = unat mk + 1"
    have nth': "replicate n x ! i = x" if "i \<le> unat mk" for i and x :: "u32 list" using that by (intro nth_replicate) (simp add: n_def)
    have nth: "replicate n x ! i = x" if "i \<le> unat mk" for i and x :: "u32 option" using that by (intro nth_replicate) (simp add: n_def)
    have "length (replicate n (None :: u32 option)) = unat mk + 1" "length (replicate n ([] :: u32 list)) = unat mk + 1" by (simp_all only: length_replicate n_def)
    then have fresh: "chained mk (replicate n None) (g_obj g) (replicate n [])" unfolding chained_def using nth nth' by simp
    have "list_all2 (str_chain (g_obj g)) (rev (g_strhash g)) (rev css)"
      unfolding list_all2_rev using ch by (auto simp: list_all2_conv_all_nth less_Suc_eq_le)
    moreover have mr: "mset (concat (rev css)) = mset (concat css)" by (induction css) simp_all
    then have "distinct (concat (rev css))" using i(2) mset_eq_imp_distinct_iff by blast
    moreover have "set (concat (rev css)) \<inter> set (concat (replicate n [])) = {}" by simp
    ultimately obtain tb' obj' css' where r: "str_rehash mk (rev (g_strhash g)) (replicate n None, g_obj g) = Some (tb', obj')"
      "chained mk tb' obj' css'" "mset (concat css') = mset (concat (replicate n [])) + mset (concat (rev css))" "same_but_next (g_obj g) obj'"
      using str_rehash_chained [OF _ _ _ fresh] by blast
    have m: "mset (concat css') = mset (concat css)" using r(3) mr by simp
    have sd: "set (concat css') = set (concat css)" "distinct (concat css') = distinct (concat css)" "length (concat css') = length (concat css)"
      using arg_cong [OF m, of set_mset] mset_eq_imp_distinct_iff [OF m] mset_eq_length [OF m] by simp_all
    define g' where "g' = g\<lparr>g_strhash := tb', g_strmask := mk, g_obj := obj'\<rparr>"
    note so = same_but_next_obj [OF r(4)]
    have "str_inv css' g'"
      unfolding str_inv_def
    proof (intro conjI allI impI)
      show "\<exists>s. g_obj g' (g_strempty g') = Some s \<and> str_bytes s = []" using i(5) so(1) by (fastforce simp: g'_def)
      fix r s assume s: "g_obj g' r = Some s"
      then obtain s0 x where s0: "g_obj g r = Some s0" "s = s0\<lparr>s_nextgc := x\<rparr>" using so(2) by (fastforce simp: g'_def)
      then show "str_obj_ok s" using i(6) by simp
      show "str_bytes s \<noteq> []" if "r \<noteq> g_strempty g'" using i(7) [OF s0(1)] that s0(2) by (simp add: g'_def)
      fix r' s' assume "g_obj g' r' = Some s'" "str_bytes s = str_bytes s'"
      moreover then obtain s1 x where "g_obj g r' = Some s1" "s' = s1\<lparr>s_nextgc := x\<rparr>" using so(2) by (fastforce simp: g'_def)
      ultimately show "r = r'" using i(8) [OF s0(1)] s0(2) by simp
    qed (use r(2) sd so(3) i in \<open>simp_all add: g'_def\<close>)
    then have "str_ok g'" by (auto simp: str_ok_def)
    moreover have "keeps g g'" using so(1) by (fastforce simp: keeps_def g'_def)
    moreover have "lj_str_resize E mk g = Some (Inr (), g')" using False r(1) by (simp add: lj_str_resize_def n_def g'_def ret_def)
    ultimately show ?thesis using r(4) by (auto simp: g'_def)
  qed
qed

subsection \<open>Colours\<close>

lemma bit_3_int: "bit (3 :: int) n \<longleftrightarrow> n = 0 \<or> n = 1"
proof -
  have m: "(3 :: int) = mask 2" by (simp add: mask_eq_exp_minus_1)
  show ?thesis unfolding m bit_mask_iff by (auto simp: less_2_cases_iff)
qed

lemma bit_3: "bit (3 :: u8) n \<longleftrightarrow> n = 0 \<or> n = 1"
  by (auto simp: bit_3_int)

lemma and_bits:
  fixes m :: u8
  shows "m AND 2 = 0 \<longleftrightarrow> \<not> bit m 1" "m AND 1 = 0 \<longleftrightarrow> \<not> bit m 0" "m AND 3 = 3 \<longleftrightarrow> bit m 0 \<and> bit m 1"
proof -
  show "m AND 2 = 0 \<longleftrightarrow> \<not> bit m 1" using and_exp_eq_0_iff_not_bit [of m 1] by simp
  show "m AND 1 = 0 \<longleftrightarrow> \<not> bit m 0" using and_exp_eq_0_iff_not_bit [of m 0] by simp
  show "m AND 3 = 3 \<longleftrightarrow> bit m 0 \<and> bit m 1"
  proof
    assume "m AND 3 = 3"
    then have "bit (m AND 3) j = bit (3 :: u8) j" for j by simp
    from this [of 0] this [of 1] show "bit m 0 \<and> bit m 1" unfolding bit_and_iff bit_3 by simp
  next
    assume b: "bit m 0 \<and> bit m 1"
    show "m AND 3 = 3"
    proof (rule bit_word_eqI)
      fix n show "bit (m AND 3) n = bit (3 :: u8) n" using b unfolding bit_and_iff bit_3 by blast
    qed
  qed
qed

definition dead_bit :: "global_State \<Rightarrow> nat" where "dead_bit g = (if g_currentwhite g = 0x21 then 1 else 0)"

lemma otherwhite_cases:
  assumes "g_currentwhite g = 0x21 \<or> g_currentwhite g = 0x22"
  shows "otherwhite g = push_bit (dead_bit g) 1 OR 0x20" "curwhite g = push_bit (1 - dead_bit g) 1"
  using assms by (auto simp: otherwhite_def curwhite_def dead_bit_def LJ_GC_WHITES_def)

lemma isdead_bit:
  assumes "g_currentwhite g = 0x21 \<or> g_currentwhite g = 0x22"
  shows "isdead g s \<longleftrightarrow> bit (s_marked s) (dead_bit g)"
  using assms by (auto simp: isdead_def otherwhite_def dead_bit_def LJ_GC_WHITES_def and.assoc and_bits)

lemma flipwhite_alive:
  assumes "g_currentwhite g = 0x21 \<or> g_currentwhite g = 0x22" "isdead g s" "s_marked s AND LJ_GC_WHITES \<noteq> LJ_GC_WHITES"
  shows "\<not> isdead g (flipwhite s)" "s_marked (flipwhite s) AND LJ_GC_WHITES \<noteq> LJ_GC_WHITES"
  using assms by (auto simp: isdead_bit flipwhite_def LJ_GC_WHITES_def and_bits bit_xor_iff bit_3_int dead_bit_def split: if_splits)

lemma swept_dead:
  assumes "g_currentwhite g = 0x21 \<or> g_currentwhite g = 0x22" "(s_marked s XOR LJ_GC_WHITES) AND otherwhite g = 0"
  shows "isdead g s"
proof -
  have "bit ((s_marked s XOR LJ_GC_WHITES) AND otherwhite g) (dead_bit g) = False" unfolding assms(2) by simp
  then have "bit (s_marked s XOR LJ_GC_WHITES) (dead_bit g) = False"
    using otherwhite_cases(1) [OF assms(1)] by (auto simp: bit_and_iff bit_or_iff bit_simps dead_bit_def)
  then show ?thesis using isdead_bit [OF assms(1)] by (auto simp: bit_xor_iff LJ_GC_WHITES_def bit_3_int dead_bit_def)
qed

lemma curwhite_alive:
  assumes "g_currentwhite g = 0x21 \<or> g_currentwhite g = 0x22" "bit m 0 = bit (curwhite g) 0" "bit m 1 = bit (curwhite g) 1"
  shows "\<not> isdead g (s\<lparr>s_marked := m\<rparr>)" "m AND LJ_GC_WHITES \<noteq> LJ_GC_WHITES"
  using assms by (auto simp: isdead_bit LJ_GC_WHITES_def and_bits otherwhite_cases dead_bit_def bit_simps curwhite_def bit_and_iff bit_3_int)

lemma makewhite_alive:
  assumes "g_currentwhite g = 0x21 \<or> g_currentwhite g = 0x22"
  shows "\<not> isdead g (makewhite g s)" "s_marked (makewhite g s) AND LJ_GC_WHITES \<noteq> LJ_GC_WHITES"
proof -
  have "bit (s_marked s AND NOT LJ_GC_COLORS) 0 = False" "bit (s_marked s AND NOT LJ_GC_COLORS) 1 = False"
    by (simp_all add: LJ_GC_COLORS_def bit_simps)
  then show "\<not> isdead g (makewhite g s)" "s_marked (makewhite g s) AND LJ_GC_WHITES \<noteq> LJ_GC_WHITES"
    unfolding makewhite_def using curwhite_alive [OF assms] by (simp_all add: bit_or_iff)
qed

subsection \<open>Interning\<close>

definition alloc_ok :: "lj_env \<Rightarrow> bool" where
  "alloc_ok E \<longleftrightarrow> (\<forall>used n r. e_new E used n = Some r \<longrightarrow> \<not> used r)"

definition alive :: "global_State \<Rightarrow> u32 \<Rightarrow> bool" where
  "alive g r \<longleftrightarrow> (\<exists>s. g_obj g r = Some s \<and> (r = g_strempty g \<or> \<not> isdead g s))"

definition same_string :: "lj_env \<Rightarrow> byte list \<Rightarrow> u32 \<Rightarrow> gcstr \<Rightarrow> bool" where
  "same_string E bs r s \<longleftrightarrow> s_len s = of_nat (length bs) \<and>
     (if (e_addr E + of_nat (length bs)) AND (LJ_PAGESIZE - 1) \<le> LJ_PAGESIZE - 4
      then str_fastcmp (strdata (e_arg E) bs) (strdata (e_junk E r) (s_data s)) (length bs) = 0
      else take (length bs) (s_data s) = bs)"

lemma same_string_iff:
  assumes "str_obj_ok s" "bs \<noteq> []" "length bs < LJ_MAX_STR"
  shows "same_string E bs r s \<longleftrightarrow> str_bytes s = bs"
proof -
  have s: "s_data s = str_bytes s @ [0]" "s_len s = of_nat (length (str_bytes s))" "length (str_bytes s) < LJ_MAX_STR"
    using assms(1) by (auto simp: str_obj_ok_def)
  have "(of_nat (length (str_bytes s)) :: u32) = of_nat (length bs) \<longleftrightarrow> length (str_bytes s) = length bs"
  proof
    assume "(of_nat (length (str_bytes s)) :: u32) = of_nat (length bs)"
    then have "unat (of_nat (length (str_bytes s)) :: u32) = unat (of_nat (length bs) :: u32)" by simp
    then show "length (str_bytes s) = length bs" using s(3) assms(3) by (simp add: unat_of_nat_less LJ_MAX_STR_def)
  qed simp
  then have len: "s_len s = of_nat (length bs) \<longleftrightarrow> length (str_bytes s) = length bs" using s(2) by simp
  have "str_fastcmp (strdata (e_arg E) bs) (strdata (e_junk E r) (s_data s)) (length bs) = 0 \<longleftrightarrow> str_bytes s = bs"
    if l: "length (str_bytes s) = length bs"
  proof -
    have at: "strdata (e_arg E) bs j = bs ! j" "strdata (e_junk E r) (s_data s) j = str_bytes s ! j" if "j < length bs" for j
      using that s(1) l by (simp_all add: strdata_def nth_append)
    have "length bs < 2 ^ 31" using assms(3) by (simp add: LJ_MAX_STR_def)
    then have "str_fastcmp (strdata (e_arg E) bs) (strdata (e_junk E r) (s_data s)) (length bs) = 0 \<longleftrightarrow>
        (\<forall>j < length bs. strdata (e_arg E) bs j = strdata (e_junk E r) (s_data s) j)"
      using assms(2) by (intro str_fastcmp_eq) simp_all
    also have "\<dots> \<longleftrightarrow> (\<forall>j < length bs. bs ! j = str_bytes s ! j)" using at by simp
    also have "\<dots> \<longleftrightarrow> str_bytes s = bs" using l by (metis nth_equalityI)
    finally show ?thesis .
  qed
  moreover have "take (length bs) (s_data s) = bs \<longleftrightarrow> str_bytes s = bs" if "length (str_bytes s) = length bs"
    using that s(1) by simp
  ultimately show ?thesis using len by (auto simp: same_string_def)
qed

lemma hash_of_arg: "bs \<noteq> [] \<Longrightarrow> str_hash (strdata junk bs) (length bs) = hash_of bs"
  unfolding hash_of_def by (rule str_hash_cong) (auto simp: strdata_def)

lemma lj_str_new_search:
  assumes "str_inv css g" "bs \<noteq> []" "length bs < LJ_MAX_STR"
  shows "\<exists>found. str_find (same_string E bs) (g_obj g) (g_strhash g ! unat (hash_of bs AND g_strmask g)) = Some found \<and>
    (\<forall>r. found = Some r \<longrightarrow> str_text g r = Some bs \<and> r \<in> set (concat css)) \<and> (found = None \<longrightarrow> (\<forall>r. str_text g r \<noteq> Some bs))"
proof -
  note i = str_invD [OF assms(1)]
  note ch = chainedD [OF i(1)]
  define k where "k = unat (hash_of bs AND g_strmask g)"
  have k: "k \<le> unat (g_strmask g)" unfolding k_def by (rule hash_index)
  have member: "same_string E bs r (the (g_obj g r)) \<longleftrightarrow> str_text g r = Some bs" if "r \<in> set (concat css)" for r
  proof -
    have "r \<in> dom (g_obj g)" using i(4) that by simp
    then obtain s where s: "g_obj g r = Some s" by blast
    show ?thesis using same_string_iff [OF i(6) [OF s] assms(2,3)] s by (simp add: str_text_def)
  qed
  have inchain: "r \<in> set (css ! k)" if tx: "str_text g r = Some bs" for r
  proof -
    obtain s where s: "g_obj g r = Some s" "str_bytes s = bs" using tx unfolding str_text_def by (cases "g_obj g r") auto
    then have "r \<noteq> g_strempty g" using i(5) assms(2) by auto
    then have "r \<in> set (concat css)" using i(4) s(1) by (metis domI insertE)
    then obtain j where j: "j \<le> unat (g_strmask g)" "r \<in> set (css ! j)" using chained_mem [OF i(1)] by blast
    have "unat (s_hash s AND g_strmask g) = j" using ch(4) [OF j] s(1) by simp
    moreover have "s_hash s = hash_of bs" using i(6) [OF s(1)] s(2) assms(2) by (simp add: str_obj_ok_def)
    ultimately show ?thesis using j(2) by (simp add: k_def)
  qed
  have sub: "r \<in> set (css ! k) \<Longrightarrow> r \<in> set (concat css)" for r using chained_mem [OF i(1)] k by blast
  have "str_find (same_string E bs) (g_obj g) (g_strhash g ! k) = Some (find (\<lambda>r. same_string E bs r (the (g_obj g r))) (css ! k))"
    by (rule str_find_chain [OF ch(3) [OF k]])
  moreover have "str_text g r = Some bs \<and> r \<in> set (concat css)"
    if f: "find (\<lambda>r. same_string E bs r (the (g_obj g r))) (css ! k) = Some r" for r
  proof -
    have "same_string E bs r (the (g_obj g r))" "r \<in> set (css ! k)" using f unfolding find_Some_iff by auto
    then show ?thesis using member sub by blast
  qed
  moreover have "str_text g r \<noteq> Some bs" if f: "find (\<lambda>r. same_string E bs r (the (g_obj g r))) (css ! k) = None" for r
  proof
    assume "str_text g r = Some bs"
    then have "r \<in> set (css ! k)" "same_string E bs r (the (g_obj g r))" using inchain member sub by blast+
    then show False using f unfolding find_None_iff by blast
  qed
  ultimately show ?thesis by (auto simp: k_def)
qed

lemma keepsD:
  assumes "keeps g g'" "g_obj g r = Some s"
  shows "\<exists>s'. g_obj g' r = Some s' \<and> str_bytes s' = str_bytes s \<and> s_hash s' = s_hash s \<and>
    (s_marked s' = s_marked s \<or> isdead g s \<and> s_marked s' = s_marked s XOR LJ_GC_WHITES)"
  using assms unfolding keeps_def by blast

lemma keeps_text: "keeps g g' \<Longrightarrow> str_text g r = Some bs \<Longrightarrow> str_text g' r = Some bs"
  using keepsD unfolding str_text_def by fastforce

lemma isdead_cong: "g_currentwhite g' = g_currentwhite g \<Longrightarrow> isdead g' s = isdead g s"
  by (simp add: isdead_def otherwhite_def)

lemma keeps_alive:
  assumes "keeps g g'" "alive g r"
  shows "alive g' r"
proof -
  obtain s where s: "g_obj g r = Some s" "r = g_strempty g \<or> \<not> isdead g s" using assms(2) by (auto simp: alive_def)
  obtain s' where "g_obj g' r = Some s'" "s_marked s' = s_marked s \<or> isdead g s \<and> s_marked s' = s_marked s XOR LJ_GC_WHITES"
    using keepsD [OF assms(1) s(1)] by blast
  moreover have "isdead g' x \<longleftrightarrow> isdead g x" for x using assms(1) by (intro isdead_cong) (simp add: keeps_def)
  moreover have "isdead g s' \<longleftrightarrow> isdead g s" if "s_marked s' = s_marked s" for s' using that by (simp add: isdead_def)
  moreover have "g_strempty g' = g_strempty g" using assms(1) by (simp add: keeps_def)
  ultimately have "g_obj g' r = Some s'" "r = g_strempty g' \<or> \<not> isdead g' s'" using s(2) by metis+
  then show ?thesis unfolding alive_def by blast
qed

text \<open>Objects that change their marks only.\<close>

lemma str_inv_objs:
  assumes inv: "str_inv css g" and ch: "chained (g_strmask g) (g_strhash g) obj css" and dom: "dom obj = dom (g_obj g)"
    and obj: "\<And>r t. obj r = Some t \<Longrightarrow> \<exists>u. g_obj g r = Some u \<and> str_bytes t = str_bytes u \<and> str_obj_ok t"
  shows "str_inv css (g\<lparr>g_obj := obj\<rparr>)"
proof -
  note i = str_invD [OF inv]
  have "\<exists>s. obj (g_strempty g) = Some s \<and> str_bytes s = []"
  proof -
    obtain e where e: "g_obj g (g_strempty g) = Some e" "str_bytes e = []" using i(5) by blast
    then have "g_strempty g \<in> dom obj" using dom by blast
    then obtain s where s: "obj (g_strempty g) = Some s" by blast
    then show ?thesis using obj [OF s] e by auto
  qed
  moreover have "r = r'" if "obj r = Some s" "obj r' = Some s'" "str_bytes s = str_bytes s'" for r r' s s'
    using obj [OF that(1)] obj [OF that(2)] that(3) i(8) by metis
  moreover have "str_obj_ok s \<and> (r \<noteq> g_strempty g \<longrightarrow> str_bytes s \<noteq> [])" if "obj r = Some s" for r s
    using obj [OF that] i(7) by metis
  ultimately show ?thesis unfolding str_inv_def using i ch dom by simp
qed

lemma str_inv_marks:
  assumes inv: "str_inv css g" and s: "g_obj g r = Some s" and m: "m AND LJ_GC_WHITES \<noteq> LJ_GC_WHITES"
  shows "str_inv css (g\<lparr>g_obj := (g_obj g)(r \<mapsto> s\<lparr>s_marked := m\<rparr>)\<rparr>)"
proof (rule str_inv_objs [OF inv])
  note i = str_invD [OF inv]
  let ?obj = "(g_obj g)(r \<mapsto> s\<lparr>s_marked := m\<rparr>)"
  have chain: "str_chain ?obj p rs = str_chain (g_obj g) p rs" for p rs
    using s by (induction rs arbitrary: p) auto
  have "\<exists>u. ?obj x = Some u \<and> unat (s_hash u AND g_strmask g) = j" if "g_obj g x = Some t" "unat (s_hash t AND g_strmask g) = j" for x t j
    using that s by auto
  then show "chained (g_strmask g) (g_strhash g) ?obj css"
    using chainedD [OF i(1)] unfolding chained_def chain by blast
  show "dom ?obj = dom (g_obj g)" using s by auto
  fix x t assume "?obj x = Some t"
  then show "\<exists>u. g_obj g x = Some u \<and> str_bytes t = str_bytes u \<and> str_obj_ok t"
    using s i(6) m by (auto simp: str_obj_ok_def split: if_splits)
qed

lemma keeps_flip:
  assumes "g_obj g r = Some s" "isdead g s"
  shows "keeps g (g\<lparr>g_obj := (g_obj g)(r \<mapsto> flipwhite s)\<rparr>)"
  using assms by (auto simp: keeps_def flipwhite_def)

text \<open>A new object.\<close>

definition new_str :: "u32 \<Rightarrow> byte list \<Rightarrow> global_State \<Rightarrow> gcstr" where
  "new_str r bs g = \<lparr>s_marked = curwhite g, s_reserved = 0, s_hash = hash_of bs, s_len = of_nat (length bs), s_data = bs @ [0],
     s_nextgc = g_strhash g ! unat (hash_of bs AND g_strmask g)\<rparr>"

definition with_str :: "u32 \<Rightarrow> byte list \<Rightarrow> global_State \<Rightarrow> global_State" where
  "with_str r bs g = g\<lparr>g_obj := (g_obj g)(r \<mapsto> new_str r bs g),
     g_strhash := (g_strhash g)[unat (hash_of bs AND g_strmask g) := Some r], g_strnum := g_strnum g + 1\<rparr>"

lemma with_str_ok:
  assumes inv: "str_inv css g" and bs: "bs \<noteq> []" "length bs < LJ_MAX_STR" and r: "g_obj g r = None" and new: "\<forall>q. str_text g q \<noteq> Some bs"
  shows "str_ok (with_str r bs g)" "keeps g (with_str r bs g)" "str_text (with_str r bs g) r = Some bs" "alive (with_str r bs g) r"
proof -
  note i = str_invD [OF inv]
  define k where "k = unat (hash_of bs AND g_strmask g)"
  define s where "s = new_str r bs g"
  define css' where "css' = css[k := r # css ! k]"
  have k: "k < length css" using hash_index chainedD(2) [OF i(1)] by (simp add: k_def less_Suc_eq_le)
  have rn: "r \<notin> set (concat css)" "r \<noteq> g_strempty g" using i(4) r by auto
  have m: "mset (concat css') = add_mset r (mset (concat css))" unfolding css'_def by (rule mset_concat_update [OF k])
  have c: "set (concat css') = insert r (set (concat css))" "distinct (concat css')" "length (concat css') = Suc (length (concat css))"
  proof -
    have m': "mset (concat css') = mset (r # concat css)" using m by simp
    show "set (concat css') = insert r (set (concat css))" using mset_eq_setD [OF m'] by simp
    show "distinct (concat css')" using mset_eq_imp_distinct_iff [OF m'] i(2) rn(1) by simp
    show "length (concat css') = Suc (length (concat css))" using mset_eq_length [OF m'] by simp
  qed
  have sb: "str_bytes s = bs" by (simp add: s_def new_str_def str_bytes_def)
  have w: "\<not> isdead g (s\<lparr>s_marked := curwhite g\<rparr>)" "curwhite g AND LJ_GC_WHITES \<noteq> LJ_GC_WHITES" by (rule curwhite_alive [OF i(10)]; simp)+
  have sok: "str_obj_ok s" using bs w(2) sb by (simp add: str_obj_ok_def) (simp add: s_def new_str_def)
  have ch: "chained (g_strmask g) ((g_strhash g)[k := Some r]) ((g_obj g)(r \<mapsto> s)) css'"
    unfolding css'_def by (rule chained_insert [OF i(1) rn(1)]) (simp_all add: s_def new_str_def k_def)
  have ne: "str_bytes u \<noteq> bs" if "g_obj g q = Some u" for q u using new that by (auto simp: str_text_def)
  define h where "h = with_str r bs g"
  have h: "g_obj h = (g_obj g)(r \<mapsto> s)" "g_strhash h = (g_strhash g)[k := Some r]" "g_strmask h = g_strmask g" "g_strempty h = g_strempty g"
    "g_strnum h = g_strnum g + 1" "g_currentwhite h = g_currentwhite g"
    by (simp_all add: h_def with_str_def s_def k_def)
  have "str_inv css' h"
    unfolding str_inv_def
  proof (intro conjI allI impI)
    show "chained (g_strmask h) (g_strhash h) (g_obj h) css'" using ch by (simp add: h)
    show "dom (g_obj h) = insert (g_strempty h) (set (concat css'))" unfolding h c(1) using i(4) by auto
    show "g_strempty h \<notin> set (concat css')" unfolding h c(1) using i(3) rn(2) by blast
    show "\<exists>s. g_obj h (g_strempty h) = Some s \<and> str_bytes s = []" using i(5) rn(2) by (auto simp: h)
    show "g_strnum h = of_nat (length (concat css'))" unfolding h c(3) i(9) by simp
    show "distinct (concat css')" by (rule c(2))
    show "g_currentwhite h = 0x21 \<or> g_currentwhite h = 0x22" using i(10) by (simp add: h)
    fix x t assume x: "g_obj h x = Some t"
    show "str_obj_ok t" using x sok i(6) by (auto simp: h split: if_splits)
    show "str_bytes t \<noteq> []" if "x \<noteq> g_strempty h" using x that sb bs i(7) by (auto simp: h split: if_splits)
    fix x' t' assume "g_obj h x' = Some t'" "str_bytes t = str_bytes t'"
    then show "x = x'" using x sb ne i(8) by (auto simp: h split: if_splits)
  qed
  then show "str_ok (with_str r bs g)" unfolding h_def str_ok_def by blast
  show "keeps g (with_str r bs g)" using r by (auto simp: keeps_def with_str_def)
  show "str_text (with_str r bs g) r = Some bs" using sb by (simp add: str_text_def with_str_def s_def)
  have "isdead (with_str r bs g) s = isdead g s" by (rule isdead_cong) (simp add: with_str_def)
  moreover have "s\<lparr>s_marked := curwhite g\<rparr> = s" by (simp add: s_def new_str_def)
  ultimately show "alive (with_str r bs g) r" using w(1) by (simp add: alive_def with_str_def s_def)
qed

lemma keeps_trans:
  assumes "keeps a b" "keeps b c" "same_but_next (g_obj b) (g_obj c)"
  shows "keeps a c"
proof -
  have "\<exists>s'. g_obj c r = Some s' \<and> str_bytes s' = str_bytes s \<and> s_hash s' = s_hash s \<and>
      (s_marked s' = s_marked s \<or> isdead a s \<and> s_marked s' = s_marked s XOR LJ_GC_WHITES)" if s: "g_obj a r = Some s" for r s
  proof -
    obtain t where t: "g_obj b r = Some t" "str_bytes t = str_bytes s" "s_hash t = s_hash s"
      "s_marked t = s_marked s \<or> isdead a s \<and> s_marked t = s_marked s XOR LJ_GC_WHITES" using keepsD [OF assms(1) s] by blast
    obtain x where "g_obj c r = Some (t\<lparr>s_nextgc := x\<rparr>)" using same_but_next_obj(1) [OF assms(3) t(1)] by blast
    then show ?thesis using t by simp
  qed
  then show ?thesis using assms(1,2) by (simp add: keeps_def)
qed

theorem lj_str_new_ok:
  assumes ok: "str_ok g" and al: "alloc_ok E"
  shows "\<exists>res g'. lj_str_new E bs g = Some (res, g') \<and> str_ok g' \<and> keeps g g' \<and>
    (case res of Inl e \<Rightarrow> e = NoMemory \<and> length bs < LJ_MAX_STR \<or> e = StringOverflow \<and> LJ_MAX_STR \<le> length bs
     | Inr r \<Rightarrow> length bs < LJ_MAX_STR \<and> str_text g' r = Some bs \<and> alive g' r)"
proof -
  obtain css where inv: "str_inv css g" using ok by (auto simp: str_ok_def)
  note i = str_invD [OF inv]
  consider (big) "LJ_MAX_STR \<le> length bs" | (none) "bs = []" "length bs < LJ_MAX_STR" | (some) "bs \<noteq> []" "length bs < LJ_MAX_STR" by fastforce
  then show ?thesis
  proof cases
    case big
    then show ?thesis using ok keeps_refl by (simp add: lj_str_new_def throw_def)
  next
    case none
    then show ?thesis using ok keeps_refl i(5) by (auto simp: lj_str_new_def ret_def str_text_def alive_def)
  next
    case some
    define chain where "chain = g_strhash g ! unat (hash_of bs AND g_strmask g)"
    obtain found where f: "str_find (same_string E bs) (g_obj g) chain = Some found"
      "\<And>r. found = Some r \<Longrightarrow> str_text g r = Some bs \<and> r \<in> set (concat css)" "found = None \<Longrightarrow> \<forall>r. str_text g r \<noteq> Some bs"
      using lj_str_new_search [OF inv some, of E] unfolding chain_def by blast
    have run: "lj_str_new E bs g = (case found of
        Some r \<Rightarrow> do { s \<leftarrow> g_obj g r; ret r (if isdead g s then g\<lparr>g_obj := (g_obj g)(r \<mapsto> flipwhite s)\<rparr> else g) }
      | None \<Rightarrow> (case e_new E (\<lambda>r. g_obj g r \<noteq> None) (sizeof_GCstr + length bs + 1) of None \<Rightarrow> throw NoMemory g
          | Some r \<Rightarrow> if g_strnum g > g_strmask g then andthen (lj_str_resize E (push_bit 1 (g_strmask g) + 1)) (\<lambda>_. ret r) (with_str r bs g)
              else ret r (with_str r bs g)))"
      using some f(1) hash_of_arg [OF some(1)] unfolding lj_str_new_def same_string_def [abs_def] chain_def
      by (cases found; cases "e_new E (\<lambda>r. g_obj g r \<noteq> None) (sizeof_GCstr + length bs + 1)") (simp_all add: Let_def with_str_def new_str_def)
    show ?thesis
    proof (cases found)
      case (Some r)
      then obtain s where s: "g_obj g r = Some s" "str_bytes s = bs" using f(2) unfolding str_text_def by (cases "g_obj g r") auto
      show ?thesis
      proof (cases "isdead g s")
        case True
        have fl: "\<not> isdead g (flipwhite s)" "s_marked (flipwhite s) AND LJ_GC_WHITES \<noteq> LJ_GC_WHITES"
          using flipwhite_alive [OF i(10) True] i(6) [OF s(1)] by (simp_all add: str_obj_ok_def)
        define g' where "g' = g\<lparr>g_obj := (g_obj g)(r \<mapsto> flipwhite s)\<rparr>"
        have "str_ok g'" unfolding g'_def flipwhite_def
          using str_inv_marks [OF inv s(1)] fl(2) by (auto simp: str_ok_def flipwhite_def)
        moreover have "keeps g g'" unfolding g'_def by (rule keeps_flip [OF s(1) True])
        moreover have "alive g' r" using fl(1) isdead_cong [of g' g] by (simp add: alive_def g'_def)
        moreover have "str_text g' r = Some bs" using s(2) by (simp add: str_text_def g'_def flipwhite_def)
        moreover have "lj_str_new E bs g = Some (Inr r, g')" using run Some s(1) True by (simp add: ret_def g'_def)
        ultimately show ?thesis using some by auto
      next
        case False
        then have "lj_str_new E bs g = Some (Inr r, g)" using run Some s(1) by (simp add: ret_def)
        moreover have "alive g r" using False s(1) by (simp add: alive_def)
        ultimately show ?thesis using some ok keeps_refl f(2) [OF Some] by auto
      qed
    next
      case None
      show ?thesis
      proof (cases "e_new E (\<lambda>r. g_obj g r \<noteq> None) (sizeof_GCstr + length bs + 1)")
        case None
        then show ?thesis using run \<open>found = None\<close> ok keeps_refl some by (simp add: throw_def)
      next
        case (Some r)
        then have r: "g_obj g r = None" using al unfolding alloc_ok_def by blast
        note w = with_str_ok [OF inv some r f(3) [OF None]]
        show ?thesis
        proof (cases "g_strnum g > g_strmask g")
          case True
          obtain res g' where z: "lj_str_resize E (push_bit 1 (g_strmask g) + 1) (with_str r bs g) = Some (res, g')" "str_ok g'"
            "keeps (with_str r bs g) g'" "same_but_next (g_obj (with_str r bs g)) (g_obj g')" "res = Inr () \<or> res = Inl NoMemory"
            using lj_str_resize_ok [OF w(1)] by blast
          have "keeps g g'" by (rule keeps_trans [OF w(2) z(3,4)])
          moreover have "str_text g' r = Some bs" "alive g' r" using keeps_text [OF z(3) w(3)] keeps_alive [OF z(3) w(4)] .
          ultimately show ?thesis using run None Some True z(1,2,5) some by (auto simp: andthen_def ret_def)
        next
          case False
          then show ?thesis using run None Some w some by (simp add: ret_def)
        qed
      qed
    qed
  qed
qed

subsection \<open>The sweep\<close>

fun str_seg :: "(u32 \<Rightarrow> gcstr option) \<Rightarrow> u32 option \<Rightarrow> u32 list \<Rightarrow> u32 option \<Rightarrow> bool" where
  "str_seg obj p [] q \<longleftrightarrow> p = q"
| "str_seg obj p (r # rs) q \<longleftrightarrow> p = Some r \<and> (\<exists>s. obj r = Some s \<and> str_seg obj (s_nextgc s) rs q)"

lemma str_chain_append: "str_chain obj p (as @ xs) \<longleftrightarrow> (\<exists>q. str_seg obj p as q \<and> str_chain obj q xs)"
  by (induction as arbitrary: p) auto

lemma str_seg_snoc: "str_seg obj p (as @ [a]) q \<longleftrightarrow> str_seg obj p as (Some a) \<and> (\<exists>s. obj a = Some s \<and> s_nextgc s = q)"
  by (induction as arbitrary: p) auto

lemma str_seg_cong: "\<forall>r \<in> set rs. obj' r = obj r \<Longrightarrow> str_seg obj' p rs q = str_seg obj p rs q"
  by (induction rs arbitrary: p) auto

lemma mset_concat_set:
  "i < length css \<Longrightarrow> mset (concat (css[i := ys])) + mset (css ! i) = mset (concat css) + mset ys"
proof (induction css arbitrary: i)
  case (Cons c css)
  then show ?case by (cases i) (auto simp: ac_simps)
qed simp

text \<open>The place that refers to the strings after \<open>pre\<close> in a chain.\<close>

definition ref_after :: "nat \<Rightarrow> u32 list \<Rightarrow> gcref_at" where
  "ref_after i pre = (if pre = [] then InTable i else InString (last pre))"

lemma get_ref_after:
  assumes "chained (g_strmask g) (g_strhash g) (g_obj g) css" "i \<le> unat (g_strmask g)" "css ! i = pre @ xs"
  shows "str_chain (g_obj g) (get_ref g (ref_after i pre)) xs" "str_seg (g_obj g) (g_strhash g ! i) pre (get_ref g (ref_after i pre))"
proof -
  have c: "str_chain (g_obj g) (g_strhash g ! i) (pre @ xs)" using chainedD(3) [OF assms(1,2)] assms(3) by simp
  have "str_chain (g_obj g) (get_ref g (ref_after i pre)) xs \<and> str_seg (g_obj g) (g_strhash g ! i) pre (get_ref g (ref_after i pre))"
  proof (cases pre rule: rev_cases)
    case Nil
    then show ?thesis using c by (simp add: ref_after_def)
  next
    case (snoc as a)
    then obtain q where q: "str_seg (g_obj g) (g_strhash g ! i) (as @ [a]) q" "str_chain (g_obj g) q xs"
      using c unfolding str_chain_append by blast
    then obtain s where "g_obj g a = Some s" "s_nextgc s = q" unfolding str_seg_snoc by blast
    then show ?thesis using q snoc by (simp add: ref_after_def)
  qed
  then show "str_chain (g_obj g) (get_ref g (ref_after i pre)) xs" "str_seg (g_obj g) (g_strhash g ! i) pre (get_ref g (ref_after i pre))" by blast+
qed

lemma chained_index:
  assumes "chained mk tb obj css" "i \<le> unat mk" "j \<le> unat mk" "r \<in> set (css ! i)" "r \<in> set (css ! j)"
  shows "i = j"
  using chainedD(4) [OF assms(1,2,4)] chainedD(4) [OF assms(1,3,5)] by auto

text \<open>Taking the string after \<open>pre\<close> out of its chain.\<close>

definition unlinked :: "nat \<Rightarrow> u32 list \<Rightarrow> u32 \<Rightarrow> gcstr \<Rightarrow> global_State \<Rightarrow> global_State" where
  "unlinked i pre r s g = lj_str_free r (set_ref (ref_after i pre) (s_nextgc s) g)"

lemma unlinked_simps:
  "g_strmask (unlinked i pre r s g) = g_strmask g" "g_strempty (unlinked i pre r s g) = g_strempty g"
  "g_currentwhite (unlinked i pre r s g) = g_currentwhite g" "g_gcstate (unlinked i pre r s g) = g_gcstate g"
  "g_strnum (unlinked i pre r s g) = g_strnum g - 1" "g_sweepstr (unlinked i pre r s g) = g_sweepstr g"
  "g_strhash (unlinked i pre r s g) = (if pre = [] then (g_strhash g)[i := s_nextgc s] else g_strhash g)"
  "g_obj (unlinked i pre r s g) = (if pre = [] then g_obj g else (g_obj g)(last pre := map_option (s_nextgc_update (\<lambda>_. s_nextgc s)) (g_obj g (last pre))))(r := None)"
  by (simp_all add: unlinked_def lj_str_free_def ref_after_def)

lemma unlinked_ok:
  assumes inv: "str_inv css g" and i: "i \<le> unat (g_strmask g)" and x: "css ! i = pre @ r # xs" and s: "g_obj g r = Some s"
  shows "str_inv (css[i := pre @ xs]) (unlinked i pre r s g)"
proof -
  note v = str_invD [OF inv]
  note ch = chainedD [OF v(1)]
  define h where "h = unlinked i pre r s g"
  define css' where "css' = css[i := pre @ xs]"
  have il: "i < length css" "i < length (g_strhash g)" using i ch(1,2) by simp_all
  have ri: "r \<in> set (css ! i)" by (simp add: x)
  have m: "mset (concat css) = mset (r # concat css')" using mset_concat_set [OF il(1), of "pre @ xs"] by (simp add: x css'_def)
  have d: "distinct (r # concat css')" using mset_eq_imp_distinct_iff [OF m] v(2) by simp
  have st: "set (concat css) = insert r (set (concat css'))" using mset_eq_setD [OF m] by simp
  have "css' ! i \<in> set css'" using il(1) by (simp add: css'_def set_update_memI)
  moreover have "css' ! i = pre @ xs" using il(1) by (simp add: css'_def)
  ultimately have in': "pre @ xs \<in> set css'" by simp
  have di: "distinct (pre @ xs)" "r \<notin> set (pre @ xs)"
  proof -
    show "distinct (pre @ xs)" using in' d by (simp only: distinct.simps distinct_concat_iff)
    show "r \<notin> set (pre @ xs)" using in' d by (auto simp only: distinct.simps set_concat)
  qed
  have oh: "g_obj h q = None \<longleftrightarrow> q = r \<or> g_obj g q = None" for q by (auto simp: h_def unlinked_simps)
  have ob: "\<exists>u y. g_obj g q = Some u \<and> t = u\<lparr>s_nextgc := y\<rparr> \<and> q \<noteq> r" if "g_obj h q = Some t" for q t
    using that same_but_next_obj(1) [OF same_but_next_refl, of "g_obj g" q]
    by (auto simp: h_def unlinked_simps split: if_splits)
  have same: "g_obj h q = g_obj g q" if "q \<noteq> r" "pre = [] \<or> q \<noteq> last pre" for q
    using that by (auto simp: h_def unlinked_simps)
  note g = get_ref_after [OF v(1) i x]
  have nx: "str_chain (g_obj g) (s_nextgc s) xs" using g(1) s by simp
  have xsame: "\<forall>q \<in> set xs. g_obj h q = g_obj g q"
  proof
    fix q assume q: "q \<in> set xs"
    have "q \<noteq> last pre" if "pre \<noteq> []" using q di(1) last_in_set [OF that] by auto
    moreover have "q \<noteq> r" using q di(2) by auto
    ultimately show "g_obj h q = g_obj g q" by (intro same) blast+
  qed
  have chi: "str_chain (g_obj h) (g_strhash h ! i) (pre @ xs)"
  proof (cases pre rule: rev_cases)
    case Nil
    then have "g_strhash h ! i = s_nextgc s" using il(2) by (simp add: h_def unlinked_simps)
    then show ?thesis using nx Nil str_chain_cong [OF xsame] by simp
  next
    case (snoc as a)
    have ha: "g_strhash h ! i = g_strhash g ! i" using snoc by (simp add: h_def unlinked_simps)
    obtain t where t: "str_seg (g_obj g) (g_strhash g ! i) as (Some a)" "g_obj g a = Some t" using g(2) unfolding snoc str_seg_snoc by blast
    have "\<forall>q \<in> set as. g_obj h q = g_obj g q" using di snoc by (intro ballI same) auto
    then have "str_seg (g_obj h) (g_strhash g ! i) as (Some a)" using t(1) by (simp only: str_seg_cong)
    moreover have "g_obj h a = Some (t\<lparr>s_nextgc := s_nextgc s\<rparr>)" using t(2) di snoc by (auto simp: h_def unlinked_simps)
    ultimately have "str_seg (g_obj h) (g_strhash h ! i) (as @ [a]) (s_nextgc s)" unfolding str_seg_snoc ha by simp
    then show ?thesis using nx str_chain_cong [OF xsame] unfolding str_chain_append snoc by blast
  qed
  have "chained (g_strmask h) (g_strhash h) (g_obj h) css'"
    unfolding chained_def
  proof (intro conjI allI impI ballI)
    show "length (g_strhash h) = unat (g_strmask h) + 1" "length css' = unat (g_strmask h) + 1"
      using ch(1,2) by (simp_all add: h_def unlinked_simps css'_def)
    fix j assume j0: "j \<le> unat (g_strmask h)"
    then have j: "j \<le> unat (g_strmask g)" by (simp add: h_def unlinked_simps)
    show "str_chain (g_obj h) (g_strhash h ! j) (css' ! j)"
    proof (cases "j = i")
      case True
      then show ?thesis using chi il(1) by (simp add: css'_def)
    next
      case False
      have "g_obj h q = g_obj g q" if "q \<in> set (css ! j)" for q
      proof (rule same)
        show "q \<noteq> r" using chained_index [OF v(1) j i that] ri False by blast
        show "pre = [] \<or> q \<noteq> last pre" using chained_index [OF v(1) j i that] False x by (metis Un_iff last_in_set set_append)
      qed
      then have "str_chain (g_obj h) (g_strhash g ! j) (css ! j)" using ch(3) [OF j] str_chain_cong by blast
      moreover have "g_strhash h ! j = g_strhash g ! j" using False by (simp add: h_def unlinked_simps)
      ultimately show ?thesis using False by (simp add: css'_def)
    qed
    fix q assume q: "q \<in> set (css' ! j)"
    then have qj: "q \<in> set (css ! j)" using il(1) x by (cases "j = i") (auto simp: css'_def)
    have "q \<noteq> r" using q d j0 il ch(2) j by (auto simp: css'_def dest!: nth_mem [of j] split: if_splits)
    then show "\<exists>t. g_obj h q = Some t \<and> unat (s_hash t AND g_strmask h) = j"
      using ch(4) [OF j qj] by (auto simp: h_def unlinked_simps)
  qed
  then have "str_inv css' h"
    unfolding str_inv_def
  proof (intro conjI allI impI)
    show "distinct (concat css')" "g_strempty h \<notin> set (concat css')" using d st v(3) by (simp_all add: h_def unlinked_simps)
    have "g_strempty g \<noteq> r" using v(3) st by auto
    then show "dom (g_obj h) = insert (g_strempty h) (set (concat css'))"
    proof -
      have "dom (g_obj h) = dom (g_obj g) - {r}" using oh by (simp only: dom_def) blast
      moreover have "r \<notin> set (concat css')" using d unfolding distinct.simps by blast
      moreover have "g_strempty h = g_strempty g" by (simp add: h_def unlinked_simps)
      ultimately show ?thesis unfolding v(4) st using \<open>g_strempty g \<noteq> r\<close> by (simp add: insert_Diff_if del: set_concat)
    qed
    have "\<not> (pre \<noteq> [] \<and> g_strempty g = last pre)" using v(3) st x il(1) by (metis UN_I Un_iff last_in_set nth_mem set_append set_concat)
    then show "\<exists>s. g_obj h (g_strempty h) = Some s \<and> str_bytes s = []"
      using v(5) same [OF \<open>g_strempty g \<noteq> r\<close>] by (auto simp: h_def unlinked_simps)
    show "g_strnum h = of_nat (length (concat css'))" using v(9) mset_eq_length [OF m] by (simp add: h_def unlinked_simps)
    show "g_currentwhite h = 0x21 \<or> g_currentwhite h = 0x22" using v(10) by (simp add: h_def unlinked_simps)
    fix q t assume t: "g_obj h q = Some t"
    then obtain u y where u: "g_obj g q = Some u" "t = u\<lparr>s_nextgc := y\<rparr>" using ob by blast
    show "str_obj_ok t" using v(6) [OF u(1)] u(2) by simp
    show "str_bytes t \<noteq> []" if "q \<noteq> g_strempty h" using v(7) [OF u(1)] u(2) that by (simp add: h_def unlinked_simps)
    fix q' t' assume "g_obj h q' = Some t'" "str_bytes t = str_bytes t'"
    moreover then obtain u' y' where "g_obj g q' = Some u'" "t' = u'\<lparr>s_nextgc := y'\<rparr>" using ob by blast
    ultimately show "q = q'" using v(8) [OF u(1)] u(2) by simp
  qed
  then show ?thesis by (simp add: h_def css'_def)
qed

text \<open>What is alive stays, in the same cycle of the collector.\<close>

definition survive :: "global_State \<Rightarrow> global_State \<Rightarrow> bool" where
  "survive g g' \<longleftrightarrow> g_strempty g' = g_strempty g \<and> g_currentwhite g' = g_currentwhite g \<and>
     (\<forall>r. alive g r \<longrightarrow> alive g' r \<and> str_text g' r = str_text g r)"

lemma survive_refl: "survive g g"
  by (simp add: survive_def)

lemma survive_trans: "survive a b \<Longrightarrow> survive b c \<Longrightarrow> survive a c"
  by (simp add: survive_def)

lemma keeps_survive: "keeps g g' \<Longrightarrow> survive g g'"
  using keeps_alive [of g g'] keeps_text [of g g'] by (auto simp: survive_def keeps_def alive_def str_text_def)

lemma survive_marks:
  assumes "g_obj g r = Some s" "\<not> isdead g (s\<lparr>s_marked := m\<rparr>)"
  shows "survive g (g\<lparr>g_obj := (g_obj g)(r \<mapsto> s\<lparr>s_marked := m\<rparr>)\<rparr>)"
proof -
  have d: "isdead (g\<lparr>g_obj := ob\<rparr>) x = isdead g x" for ob x by (rule isdead_cong) simp
  show ?thesis using assms by (auto simp: survive_def alive_def str_text_def d)
qed

lemma survive_unlinked:
  assumes "g_obj g r = Some s" "isdead g s" "r \<noteq> g_strempty g"
  shows "survive g (unlinked i pre r s g)"
proof -
  have d: "isdead (unlinked i pre r s g) x = isdead g x" for x by (rule isdead_cong) (simp add: unlinked_simps)
  have "alive (unlinked i pre r s g) q \<and> str_text (unlinked i pre r s g) q = str_text g q" if al: "alive g q" for q
  proof -
    obtain t where t: "g_obj g q = Some t" "q = g_strempty g \<or> \<not> isdead g t" using al by (auto simp: alive_def)
    then have "q \<noteq> r" using assms by auto
    then have "g_obj (unlinked i pre r s g) q = Some (t\<lparr>s_nextgc := if pre \<noteq> [] \<and> q = last pre then s_nextgc s else s_nextgc t\<rparr>)"
      using t(1) by (auto simp: unlinked_simps)
    then obtain y where "g_obj (unlinked i pre r s g) q = Some (t\<lparr>s_nextgc := y\<rparr>)" ..
    then show ?thesis using t d by (auto simp: alive_def str_text_def unlinked_simps)
  qed
  then show ?thesis by (simp add: survive_def unlinked_simps)
qed

lemma gc_sweep_ok:
  assumes "str_inv css g" "i \<le> unat (g_strmask g)" "css ! i = pre @ xs"
  shows "\<exists>p g'. gc_sweep lim (ref_after i pre) g = Some (p, g') \<and> str_ok g' \<and> survive g g' \<and>
    g_strmask g' = g_strmask g \<and> g_gcstate g' = g_gcstate g \<and> g_sweepstr g' = g_sweepstr g"
  using assms
proof (induction lim arbitrary: g css pre xs)
  case 0
  then show ?case using survive_refl by (auto simp: str_ok_def)
next
  case (Suc lim)
  note v = str_invD [OF Suc.prems(1)]
  note c = get_ref_after(1) [OF v(1) Suc.prems(2,3)]
  show ?case
  proof (cases xs)
    case Nil
    then show ?thesis using c Suc.prems(1) survive_refl by (auto simp: str_ok_def)
  next
    case (Cons r ys)
    then obtain s where s: "get_ref g (ref_after i pre) = Some r" "g_obj g r = Some s" using c by auto
    have rin: "r \<in> set (concat css)" using Suc.prems(2,3) Cons chained_mem [OF v(1)] by auto
    show ?thesis
    proof (cases "(s_marked s XOR LJ_GC_WHITES) AND otherwhite g \<noteq> 0")
      case True
      define m where "m = s_marked (makewhite g s)"
      have ms: "makewhite g s = s\<lparr>s_marked := m\<rparr>" by (simp add: m_def makewhite_def)
      define h where "h = g\<lparr>g_obj := (g_obj g)(r \<mapsto> s\<lparr>s_marked := m\<rparr>)\<rparr>"
      have al: "\<not> isdead g (s\<lparr>s_marked := m\<rparr>)" "m AND LJ_GC_WHITES \<noteq> LJ_GC_WHITES"
        using makewhite_alive [OF v(10), of s] by (simp_all add: ms)
      have inv: "str_inv css h" unfolding h_def by (rule str_inv_marks [OF Suc.prems(1) s(2) al(2)])
      have "survive g h" unfolding h_def by (rule survive_marks [OF s(2) al(1)])
      moreover have "gc_sweep (Suc lim) (ref_after i pre) g = gc_sweep lim (ref_after i (pre @ [r])) h"
        using s True ms by (simp add: h_def ref_after_def)
      moreover have "css ! i = (pre @ [r]) @ ys" "i \<le> unat (g_strmask h)" using Suc.prems(2,3) Cons by (simp_all add: h_def)
      moreover have "g_strmask h = g_strmask g" "g_gcstate h = g_gcstate g" "g_sweepstr h = g_sweepstr g" by (simp_all add: h_def)
      ultimately show ?thesis using Suc.IH [OF inv, of "pre @ [r]" ys] survive_trans [of g h] by metis
    next
      case False
      then have dead: "isdead g s" using swept_dead [OF v(10)] by simp
      define h where "h = unlinked i pre r s g"
      have x: "css ! i = pre @ r # ys" using Suc.prems(3) Cons by simp
      have inv: "str_inv (css[i := pre @ ys]) h" unfolding h_def by (rule unlinked_ok [OF Suc.prems(1,2) x s(2)])
      have "r \<noteq> g_strempty g" using v(3) rin by auto
      then have "survive g h" unfolding h_def by (rule survive_unlinked [OF s(2) dead])
      moreover have "gc_sweep (Suc lim) (ref_after i pre) g = gc_sweep lim (ref_after i pre) h"
        using s False by (simp add: h_def unlinked_def)
      moreover have "css[i := pre @ ys] ! i = pre @ ys" "i \<le> unat (g_strmask h)"
        using Suc.prems(2) chainedD(2) [OF v(1)] by (simp_all add: h_def unlinked_simps)
      moreover have "g_strmask h = g_strmask g" "g_gcstate h = g_gcstate g" "g_sweepstr h = g_sweepstr g" by (simp_all add: h_def unlinked_simps)
      ultimately show ?thesis using Suc.IH [OF inv, of pre ys] survive_trans [of g h] by metis
    qed
  qed
qed

text \<open>
  The steps of the collector as far as they touch the strings. The marking of other objects shows as
  \<open>gc_mark_str\<close> on the strings they refer to, at any time.
\<close>

definition gc_shrink :: "lj_env \<Rightarrow> (global_State, unit) act" where
  "gc_shrink E g =
     (if g_strnum g \<le> drop_bit 2 (g_strmask g) \<and> g_strmask g > LJ_MIN_STRTAB * 2 - 1
      then lj_str_resize E (drop_bit 1 (g_strmask g)) g else ret () g)"

definition gc_atomic :: "global_State \<Rightarrow> global_State" where
  "gc_atomic g = g\<lparr>g_currentwhite := otherwhite g,
     g_obj := (g_obj g)(g_strempty g := map_option (\<lambda>s. s\<lparr>s_marked := otherwhite g\<rparr>) (g_obj g (g_strempty g))),
     g_gcstate := GCSsweepstring, g_sweepstr := 0\<rparr>"

definition gc_onestep :: "lj_env \<Rightarrow> (global_State, unit) act" where
  "gc_onestep E g =
     (case g_gcstate g of
        GCSpause \<Rightarrow> ret () (g\<lparr>g_gcstate := GCSpropagate\<rparr>)
      | GCSpropagate \<Rightarrow> ret () (g\<lparr>g_gcstate := GCSatomic\<rparr>)
      | GCSatomic \<Rightarrow> ret () (gc_atomic g)
      | GCSsweepstring \<Rightarrow> do { g \<leftarrow> sweep_strings g; ret () g }
      | GCSsweep \<Rightarrow> andthen (gc_shrink E) (\<lambda>_. modify (\<lambda>g. g\<lparr>g_gcstate := GCSpause\<rparr>)) g
      | GCSfinalize \<Rightarrow> ret () (g\<lparr>g_gcstate := GCSpause\<rparr>))"

definition gc_mark_str :: "u32 \<Rightarrow> global_State \<Rightarrow> global_State" where
  "gc_mark_str r g = g\<lparr>g_obj := (g_obj g)(r := map_option (\<lambda>s. s\<lparr>s_marked := s_marked s AND NOT LJ_GC_WHITES\<rparr>) (g_obj g r))\<rparr>"

definition fixstring :: "u32 \<Rightarrow> global_State \<Rightarrow> global_State" where
  "fixstring r g = g\<lparr>g_obj := (g_obj g)(r := map_option (\<lambda>s. s\<lparr>s_marked := s_marked s OR LJ_GC_FIXED\<rparr>) (g_obj g r))\<rparr>"


text \<open>What may happen to the strings of a state.\<close>

datatype str_op = Intern "byte list" | MarkStr u32 | FixString u32 | GcStep

fun str_do :: "lj_env \<Rightarrow> str_op \<Rightarrow> global_State \<Rightarrow> global_State option" where
  "str_do E (Intern bs) g = map_option snd (lj_str_new E bs g)"
| "str_do E (MarkStr r) g = Some (gc_mark_str r g)"
| "str_do E (FixString r) g = Some (fixstring r g)"
| "str_do E GcStep g = map_option snd (gc_onestep E g)"

primrec str_run :: "lj_env \<Rightarrow> str_op list \<Rightarrow> global_State \<Rightarrow> global_State option" where
  "str_run E [] g = Some g"
| "str_run E (a # as) g = do { g \<leftarrow> str_do E a g; str_run E as g }"

definition gc_ok :: "global_State \<Rightarrow> bool" where
  "gc_ok g \<longleftrightarrow> str_ok g \<and> (g_gcstate g = GCSsweepstring \<longrightarrow> g_sweepstr g \<le> g_strmask g)"

lemma str_inv_irrelevant [simp]:
  "str_inv css (g\<lparr>g_gcstate := x\<rparr>) = str_inv css g" "str_inv css (g\<lparr>g_sweepstr := i\<rparr>) = str_inv css g"
  by (simp_all add: str_inv_def)

lemma str_inv_white:
  assumes "str_inv css g" "w = 0x21 \<or> w = 0x22"
  shows "str_inv css (g\<lparr>g_currentwhite := w\<rparr>)"
proof -
  let ?h = "g\<lparr>g_currentwhite := w\<rparr>"
  have h: "g_strmask ?h = g_strmask g" "g_strhash ?h = g_strhash g" "g_obj ?h = g_obj g" "g_strempty ?h = g_strempty g"
    "g_strnum ?h = g_strnum g" "g_currentwhite ?h = w" by simp_all
  show ?thesis using assms unfolding str_inv_def h by blast
qed

lemma str_ok_irrelevant [simp]:
  "str_ok (g\<lparr>g_gcstate := x\<rparr>) = str_ok g" "str_ok (g\<lparr>g_sweepstr := i\<rparr>) = str_ok g"
  by (simp_all add: str_ok_def)

lemma survive_irrelevant [simp]:
  "survive g (g'\<lparr>g_gcstate := x\<rparr>) = survive g g'" "survive g (g'\<lparr>g_sweepstr := i\<rparr>) = survive g g'"
  "survive (g\<lparr>g_sweepstr := i\<rparr>) g' = survive g g'"
  by (simp_all add: survive_def alive_def str_text_def isdead_def otherwhite_def)

lemma sweep_strings_ok:
  assumes "str_ok g" "g_sweepstr g \<le> g_strmask g"
  shows "\<exists>g'. sweep_strings g = Some g' \<and> gc_ok g' \<and> survive g g'"
proof -
  define g1 where "g1 = g\<lparr>g_sweepstr := g_sweepstr g + 1\<rparr>"
  obtain css where inv: "str_inv css g1" using assms(1) by (auto simp: str_ok_def g1_def)
  have i: "unat (g_sweepstr g) \<le> unat (g_strmask g1)" using assms(2) by (simp add: g1_def word_le_nat_alt)
  have "css ! unat (g_sweepstr g) = [] @ css ! unat (g_sweepstr g)" by simp
  from gc_sweep_ok [OF inv i this] obtain p g2 where g2: "gc_sweep LJ_MAX_MEM (ref_after (unat (g_sweepstr g)) []) g1 = Some (p, g2)"
    "str_ok g2" "survive g1 g2" "g_strmask g2 = g_strmask g1" "g_gcstate g2 = g_gcstate g1" "g_sweepstr g2 = g_sweepstr g1" by blast
  have ra: "ref_after (unat (g_sweepstr g)) [] = InTable (unat (g_sweepstr g))" by (simp add: ref_after_def)
  define g3 where "g3 = (if g_sweepstr g + 1 > g_strmask g2 then g2\<lparr>g_gcstate := GCSsweep\<rparr> else g2)"
  have "sweep_strings g = Some g3" using g2(1) by (simp add: sweep_strings_def Let_def ra g3_def flip: g1_def)
  moreover have "gc_ok g3" using g2(2,4,6) by (auto simp: gc_ok_def g3_def g1_def)
  moreover have "survive g g3" using g2(3) by (simp add: g3_def g1_def)
  ultimately show ?thesis by blast
qed

lemma gc_atomic_ok:
  assumes "str_ok g"
  shows "gc_ok (gc_atomic g)"
proof -
  obtain css where inv: "str_inv css g" using assms by (auto simp: str_ok_def)
  note v = str_invD [OF inv]
  obtain e where e: "g_obj g (g_strempty g) = Some e" using v(5) by blast
  have w: "otherwhite g AND LJ_GC_WHITES \<noteq> LJ_GC_WHITES" "otherwhite g = 0x21 \<or> otherwhite g = 0x22"
    using v(10) by (auto simp: otherwhite_def LJ_GC_WHITES_def)
  have "str_inv css (g\<lparr>g_obj := (g_obj g)(g_strempty g \<mapsto> e\<lparr>s_marked := otherwhite g\<rparr>)\<rparr>)" by (rule str_inv_marks [OF inv e w(1)])
  from str_inv_white [OF this w(2)]
  have "str_inv css (g\<lparr>g_obj := (g_obj g)(g_strempty g \<mapsto> e\<lparr>s_marked := otherwhite g\<rparr>), g_currentwhite := otherwhite g\<rparr>\<lparr>g_gcstate := GCSsweepstring\<rparr>\<lparr>g_sweepstr := 0\<rparr>)"
    unfolding str_inv_irrelevant .
  also have "g\<lparr>g_obj := (g_obj g)(g_strempty g \<mapsto> e\<lparr>s_marked := otherwhite g\<rparr>), g_currentwhite := otherwhite g\<rparr>\<lparr>g_gcstate := GCSsweepstring\<rparr>\<lparr>g_sweepstr := 0\<rparr> = gc_atomic g"
    using e by (cases g) (simp add: gc_atomic_def)
  finally have "str_inv css (gc_atomic g)" .
  then show ?thesis by (auto simp: gc_ok_def str_ok_def gc_atomic_def)
qed

lemma marks_ok:
  assumes ok: "gc_ok g" and m: "\<And>s. g_obj g r = Some s \<Longrightarrow> f s AND LJ_GC_WHITES \<noteq> LJ_GC_WHITES"
    and al: "\<And>s. g_obj g r = Some s \<Longrightarrow> isdead g (s\<lparr>s_marked := f s\<rparr>) \<Longrightarrow> isdead g s"
  defines "h \<equiv> g\<lparr>g_obj := (g_obj g)(r := map_option (\<lambda>s. s\<lparr>s_marked := f s\<rparr>) (g_obj g r))\<rparr>"
  shows "gc_ok h \<and> survive g h"
proof (cases "g_obj g r")
  case None
  then have "h = g" by (simp add: h_def fun_upd_idem)
  then show ?thesis using ok survive_refl by simp
next
  case (Some s)
  obtain css where inv: "str_inv css g" using ok unfolding str_ok_def gc_ok_def by blast
  have h: "h = g\<lparr>g_obj := (g_obj g)(r \<mapsto> s\<lparr>s_marked := f s\<rparr>)\<rparr>" using Some by (simp add: h_def)
  have "str_ok h" using str_inv_marks [OF inv Some m [OF Some]] by (auto simp: h str_ok_def)
  moreover have "survive g h"
  proof -
    have d: "isdead (g\<lparr>g_obj := ob\<rparr>) x = isdead g x" for ob x by (rule isdead_cong) simp
    have "alive h q \<and> str_text h q = str_text g q" if "alive g q" for q
      using that Some al [OF Some] unfolding h alive_def str_text_def d by auto
    then show ?thesis by (simp add: survive_def h)
  qed
  ultimately show ?thesis using ok by (simp add: gc_ok_def h)
qed

lemma resize_in_sweep: "g_gcstate g = GCSsweepstring \<Longrightarrow> lj_str_resize E mk g = Some (Inr (), g)"
  by (simp add: lj_str_resize_def ret_def)

lemma str_new_in_sweep:
  assumes "g_gcstate g = GCSsweepstring" "lj_str_new E bs g = Some (res, g')"
  shows "g_strmask g' = g_strmask g"
  using assms unfolding lj_str_new_def Let_def
  by (auto simp: ret_def throw_def andthen_def resize_in_sweep bind_Some_iff split: if_splits option.splits)

lemma isdead_whites: "isdead g s \<longleftrightarrow> (s_marked s AND LJ_GC_WHITES) AND otherwhite g \<noteq> 0"
  by (simp add: isdead_def and.assoc and.commute [of LJ_GC_WHITES])

lemma str_do_ok:
  assumes ok: "gc_ok g" and al: "alloc_ok E"
  shows "\<exists>g'. str_do E a g = Some g' \<and> gc_ok g' \<and> (\<not> (a = GcStep \<and> g_gcstate g = GCSatomic) \<longrightarrow> survive g g')"
proof -
  have s: "str_ok g" using ok by (simp add: gc_ok_def)
  obtain css where inv: "str_inv css g" using s by (auto simp: str_ok_def)
  note v = str_invD [OF inv]
  show ?thesis
  proof (cases a)
    case (Intern bs)
    obtain res g' where n: "lj_str_new E bs g = Some (res, g')" "str_ok g'" "keeps g g'" using lj_str_new_ok [OF s al, of bs] by blast
    have "gc_ok g'" using n ok str_new_in_sweep [OF _ n(1)] by (auto simp: gc_ok_def keeps_def)
    then show ?thesis using n Intern keeps_survive by auto
  next
    case (MarkStr r)
    have "gc_ok (gc_mark_str r g) \<and> survive g (gc_mark_str r g)"
      unfolding gc_mark_str_def
    proof (rule marks_ok [OF ok])
      fix t :: gcstr
      have z: "(s_marked t AND NOT LJ_GC_WHITES) AND LJ_GC_WHITES = 0" by (simp add: and.assoc)
      then show "(s_marked t AND NOT LJ_GC_WHITES) AND LJ_GC_WHITES \<noteq> LJ_GC_WHITES" by (simp add: LJ_GC_WHITES_def)
      show "isdead g (t\<lparr>s_marked := s_marked t AND NOT LJ_GC_WHITES\<rparr>) \<Longrightarrow> isdead g t" using z by (simp add: isdead_whites)
    qed
    then show ?thesis using MarkStr by simp
  next
    case (FixString r)
    have "gc_ok (fixstring r g) \<and> survive g (fixstring r g)"
      unfolding fixstring_def
    proof (rule marks_ok [OF ok])
      fix t assume t: "g_obj g r = Some t"
      have z: "(s_marked t OR LJ_GC_FIXED) AND LJ_GC_WHITES = s_marked t AND LJ_GC_WHITES"
        by (simp add: bit.conj_disj_distrib2 LJ_GC_FIXED_def LJ_GC_WHITES_def)
      then show "(s_marked t OR LJ_GC_FIXED) AND LJ_GC_WHITES \<noteq> LJ_GC_WHITES" using v(6) [OF t] by (simp add: str_obj_ok_def)
      show "isdead g (t\<lparr>s_marked := s_marked t OR LJ_GC_FIXED\<rparr>) \<Longrightarrow> isdead g t"
        using z by (simp add: isdead_whites)
    qed
    then show ?thesis using FixString by simp
  next
    case GcStep
    show ?thesis
    proof (cases "g_gcstate g")
      case GCSatomic
      then show ?thesis using GcStep gc_atomic_ok [OF s] by (simp add: gc_onestep_def ret_def)
    next
      case GCSsweepstring
      then obtain g' where "sweep_strings g = Some g'" "gc_ok g'" "survive g g'" using sweep_strings_ok [OF s] ok by (auto simp: gc_ok_def)
      then show ?thesis using GcStep GCSsweepstring by (simp add: gc_onestep_def ret_def)
    next
      case GCSsweep
      have "\<exists>res g'. gc_shrink E g = Some (res, g') \<and> str_ok g' \<and> keeps g g' \<and> (res = Inr () \<or> res = Inl NoMemory)"
        using lj_str_resize_ok [OF s, of E "drop_bit 1 (g_strmask g)"] s keeps_refl by (auto simp: gc_shrink_def ret_def)
      then obtain res g' where r: "gc_shrink E g = Some (res, g')" "str_ok g'" "keeps g g'" "res = Inr () \<or> res = Inl NoMemory" by blast
      have "g_gcstate g' = GCSsweep" using r(3) GCSsweep by (simp add: keeps_def)
      then show ?thesis using r GcStep GCSsweep keeps_survive [OF r(3)]
        by (auto simp: gc_onestep_def andthen_def modify_def gc_ok_def)
    qed (use GcStep s survive_refl in \<open>simp_all add: gc_onestep_def ret_def gc_ok_def\<close>)
  qed
qed

lemma str_run_ok:
  assumes "gc_ok g" "alloc_ok E"
  shows "\<exists>g'. str_run E ops g = Some g' \<and> gc_ok g'"
  using assms(1)
proof (induction ops arbitrary: g)
  case (Cons a ops)
  obtain g1 where "str_do E a g = Some g1" "gc_ok g1" using str_do_ok [OF Cons.prems assms(2)] by blast
  then show ?case using Cons.IH by auto
qed simp

text \<open>Operations among which the collector does not reach the end of its mark phase.\<close>

primrec same_cycle :: "lj_env \<Rightarrow> str_op list \<Rightarrow> global_State \<Rightarrow> bool" where
  "same_cycle E [] g = True"
| "same_cycle E (a # as) g = (\<not> (a = GcStep \<and> g_gcstate g = GCSatomic) \<and> (case str_do E a g of None \<Rightarrow> True | Some g \<Rightarrow> same_cycle E as g))"

lemma str_run_survive:
  assumes "gc_ok g" "alloc_ok E" "same_cycle E ops g"
  shows "\<exists>g'. str_run E ops g = Some g' \<and> survive g g'"
  using assms(1,3)
proof (induction ops arbitrary: g)
  case Nil
  then show ?case using survive_refl by simp
next
  case (Cons a ops)
  obtain g1 where g1: "str_do E a g = Some g1" "gc_ok g1" "survive g g1" using str_do_ok [OF Cons.prems(1) assms(2), of a] Cons.prems(2) by auto
  then obtain g2 where "str_run E ops g1 = Some g2" "survive g1 g2" using Cons by auto
  then show ?case using g1 survive_trans by auto
qed

subsection \<open>A new state\<close>

definition new_state :: "u32 \<Rightarrow> global_State" where
  "new_state e = \<lparr>g_strhash = [], g_strmask = - 1, g_strnum = 0, g_strempty = e,
     g_obj = [e \<mapsto> \<lparr>s_marked = 1, s_reserved = 0, s_hash = 0, s_len = 0, s_data = [0], s_nextgc = None\<rparr>],
     g_currentwhite = 0x21, g_gcstate = GCSpause, g_sweepstr = 0\<rparr>"

definition open_state :: "lj_env \<Rightarrow> u32 \<Rightarrow> (unit \<times> global_State) option" where
  "open_state E e = (case lj_str_resize E (LJ_MIN_STRTAB - 1) (new_state e) of Some (Inr u, g) \<Rightarrow> Some (u, g) | _ \<Rightarrow> None)"

lemma open_state_eq:
  "open_state E e = (if e_oom E (256 * sizeof_GCRef) then None
     else Some ((), (new_state e)\<lparr>g_strhash := replicate 256 None, g_strmask := 255\<rparr>))"
  by (simp add: open_state_def lj_str_resize_def new_state_def LJ_MIN_STRTAB_def LJ_MAX_STRTAB_def ret_def throw_def word_le_nat_alt)

lemma open_state_ok:
  assumes "open_state E e = Some (u, g)"
  shows "gc_ok g" "g_gcstate g = GCSpause"
proof -
  define n where "n = (256 :: nat)"
  have g: "g = (new_state e)\<lparr>g_strhash := replicate n None, g_strmask := 255\<rparr>" using assms by (simp add: open_state_eq n_def split: if_splits)
  show "g_gcstate g = GCSpause" by (simp add: g new_state_def)
  have n: "n = unat (255 :: u32) + 1" by (simp add: n_def)
  have nth: "replicate n (None :: u32 option) ! i = None" "replicate n ([] :: u32 list) ! i = []" if "i \<le> unat (255 :: u32)" for i
    using that n by (simp_all only: nth_replicate less_Suc_eq_le Suc_eq_plus1 [symmetric])
  have "chained 255 (replicate n None) (g_obj g) (replicate n [])"
    unfolding chained_def using n nth by (simp only: length_replicate) (simp add: nth)
  then have "str_inv (replicate n []) g"
    unfolding str_inv_def by (simp add: g new_state_def str_bytes_def str_obj_ok_def LJ_MAX_STR_def LJ_GC_WHITES_def)
  then show "gc_ok g" by (auto simp: gc_ok_def str_ok_def g new_state_def)
qed

lemma str_text_unique:
  assumes "str_ok g" "str_text g r = Some bs" "str_text g r' = Some bs"
  shows "r = r'"
proof -
  obtain css where "str_inv css g" using assms(1) by (auto simp: str_ok_def)
  then show ?thesis using assms(2,3) str_invD(8) [of css g r _ r'] by (auto simp: str_text_def)
qed

subsection \<open>Properties\<close>

text \<open>An environment for the witnesses: eight addresses, memory that is never refused.\<close>

definition sample_env :: lj_env where
  "sample_env = \<lparr>e_junk = (\<lambda>_ _. 0), e_arg = (\<lambda>_. 0), e_addr = 0, e_oom = (\<lambda>_. False),
     e_new = (\<lambda>used n. find (\<lambda>r. \<not> used r) [1, 2, 3, 4, 5, 6, 7, 8])\<rparr>"

definition sample_state :: global_State where
  "sample_state = (new_state 0)\<lparr>g_strhash := replicate 256 None, g_strmask := 255\<rparr>"

lemma sample_env_ok: "alloc_ok sample_env" "open_state sample_env 0 = Some ((), sample_state)"
  by (auto simp: alloc_ok_def sample_env_def find_Some_iff open_state_eq sample_state_def simp del: replicate_Suc replicate.simps)

text \<open>
  C10: strings are interned. Whatever strings are made, marked, fixed and collected in a new state, in any order,
  no call fails to return; two references to equal bytes are one reference; and a request for bytes gives the
  reference to them, unless memory is refused. The hash chains, their rebuilding when the table grows or shrinks
  and the sweep that takes strings out of them are part of it.
\<close>

theorem strings_are_interned:
  assumes "alloc_ok E" "open_state E e = Some ((), g0)"
  shows "\<exists>g. str_run E ops g0 = Some g \<and>
    (\<forall>r r' bs. str_text g r = Some bs \<longrightarrow> str_text g r' = Some bs \<longrightarrow> r = r') \<and>
    (\<forall>bs. length bs < LJ_MAX_STR \<longrightarrow>
       (\<exists>g'. lj_str_new E bs g = Some (Inl NoMemory, g')) \<or>
       (\<exists>r g'. lj_str_new E bs g = Some (Inr r, g') \<and> str_text g' r = Some bs \<and> (\<forall>q. str_text g q = Some bs \<longrightarrow> q = r)))"
proof -
  obtain g where g: "str_run E ops g0 = Some g" "gc_ok g" using str_run_ok [OF open_state_ok(1) [OF assms(2)] assms(1)] by blast
  then have ok: "str_ok g" by (simp add: gc_ok_def)
  have "(\<exists>g'. lj_str_new E bs g = Some (Inl NoMemory, g')) \<or>
      (\<exists>r g'. lj_str_new E bs g = Some (Inr r, g') \<and> str_text g' r = Some bs \<and> (\<forall>q. str_text g q = Some bs \<longrightarrow> q = r))"
    if len: "length bs < LJ_MAX_STR" for bs
  proof -
    obtain res g' where n: "lj_str_new E bs g = Some (res, g')" "str_ok g'" "keeps g g'"
      "case res of Inl e \<Rightarrow> e = NoMemory \<and> length bs < LJ_MAX_STR \<or> e = StringOverflow \<and> LJ_MAX_STR \<le> length bs
       | Inr r \<Rightarrow> length bs < LJ_MAX_STR \<and> str_text g' r = Some bs \<and> alive g' r" using lj_str_new_ok [OF ok assms(1), of bs] by blast
    show ?thesis
    proof (cases res)
      case (Inr r)
      then have "str_text g' r = Some bs" using n(4) by simp
      then have "q = r" if "str_text g q = Some bs" for q using str_text_unique [OF n(2)] keeps_text [OF n(3) that] by blast
      then show ?thesis using n(1) Inr \<open>str_text g' r = Some bs\<close> by blast
    qed (use n(1,4) len in auto)
  qed
  then show ?thesis using g(1) str_text_unique [OF ok] by blast
qed

theorem strings_are_interned_witness:
  "\<exists>g. str_run sample_env [Intern [97, 98], GcStep, Intern [97], Intern [97, 98]] sample_state = Some g \<and>
     (\<forall>r r'. str_text g r = Some [97, 98] \<longrightarrow> str_text g r' = Some [97, 98] \<longrightarrow> r = r')"
  using strings_are_interned [OF sample_env_ok, of "[Intern [97, 98], GcStep, Intern [97], Intern [97, 98]]"] by blast

text \<open>
  C11: an interned string survives the sweep in progress. What \<open>lj_str_new\<close> returns keeps its bytes until the
  collector ends another mark phase, also when the string was about to be swept and is only found in its chain
  again: any strings may be made and any chains swept in between.
\<close>

theorem interned_string_survives_sweep:
  assumes "alloc_ok E" "open_state E e = Some ((), g0)" "str_run E before g0 = Some g" "lj_str_new E bs g = Some (Inr r, g1)"
    "same_cycle E after g1"
  shows "\<exists>g2. str_run E after g1 = Some g2 \<and> str_text g2 r = Some bs"
proof -
  have ok: "gc_ok g" using str_run_ok [OF open_state_ok(1) [OF assms(2)] assms(1), of before] assms(3) by auto
  then have "str_text g1 r = Some bs" "alive g1 r" using lj_str_new_ok [OF _ assms(1), of g bs] assms(4) by (auto simp: gc_ok_def)
  moreover have "gc_ok g1" using str_do_ok [OF ok assms(1), of "Intern bs"] assms(4) by auto
  ultimately show ?thesis using str_run_survive [OF _ assms(1,5)] by (auto simp: survive_def)
qed

theorem interned_string_survives_sweep_witness:
  "\<exists>r g1 g2. lj_str_new sample_env [97] sample_state = Some (Inr r, g1) \<and>
     str_run sample_env [GcStep, Intern [98]] g1 = Some g2 \<and> str_text g2 r = Some [97]"
proof -
  have ok: "str_ok sample_state" using open_state_ok(1) [OF sample_env_ok(2)] by (simp add: gc_ok_def)
  obtain r g1 where n: "lj_str_new sample_env [97] sample_state = Some (Inr r, g1)" "keeps sample_state g1"
  proof -
    have chain: "replicate 256 (None :: u32 option) ! unat (h AND 255) = None" for h :: u32
      using hash_index [of h 255] by (intro nth_replicate) simp
    obtain res g1 where "lj_str_new sample_env [97] sample_state = Some (res, g1)" "keeps sample_state g1" using lj_str_new_ok [OF ok sample_env_ok(1), of "[97]"] by blast
    moreover have "res \<noteq> Inl x" for x
      using calculation(1) by (auto simp: lj_str_new_def sample_env_def sample_state_def new_state_def str_find.simps ret_def throw_def Let_def LJ_MAX_STR_def chain split: if_splits)
    ultimately show ?thesis using that by (cases res) auto
  qed
  have "g_gcstate g1 = GCSpause" using n(2) by (simp add: keeps_def sample_state_def new_state_def)
  then have "same_cycle sample_env [GcStep, Intern [98]] g1" by (simp split: option.split)
  from interned_string_survives_sweep [OF sample_env_ok, of "[]" sample_state, OF _ n(1) this] show ?thesis using n(1) by auto
qed

text \<open>
  C24: the order of strings is the lexicographic order of their bytes. \<open>lj_str_cmp\<close> compares four bytes at a
  time and reads up to three bytes behind both strings; whatever these are, the result is negative for the smaller
  string, zero for equal ones and positive for the greater one.
\<close>

theorem lj_str_cmp_is_lexicographic:
  assumes "length xs < 2 ^ 31" "length ys < 2 ^ 31"
  shows "(lj_str_cmp (strdata ja xs) (of_nat (length xs)) (strdata jb ys) (of_nat (length ys)) < 0 \<longleftrightarrow> ord_class.lexordp xs ys) \<and>
    (lj_str_cmp (strdata ja xs) (of_nat (length xs)) (strdata jb ys) (of_nat (length ys)) = 0 \<longleftrightarrow> xs = ys)"
  using lj_str_cmp_order [OF assms] .

theorem lj_str_cmp_is_lexicographic_witness:
  "lj_str_cmp (strdata (\<lambda>_. 255) [97, 98, 99, 100, 101]) (of_nat (length [97, 98, 99, 100, 101 :: byte]))
     (strdata (\<lambda>_. 0) [97, 98, 99, 100, 102]) (of_nat (length [97, 98, 99, 100, 102 :: byte])) < 0"
  using lj_str_cmp_is_lexicographic [of "[97, 98, 99, 100, 101]" "[97, 98, 99, 100, 102]" "\<lambda>_. 255" "\<lambda>_. 0"] by simp

end
