(* ===== verification/Spec2Isabelle.thy ===== *)
theory Spec2Isabelle
  imports MsgpackDecode MsgpackBuffer MsgpackUnpacker ZmqPoller LkFifo LkSocket LkMsgpack ZmqSocket LjTabWalk LjStrTab
begin

text \<open>
  \<^bold>\<open>Lubyk: the message path between processes\<close>

  Lubyk is a tool for real time signal processing in C++ and Lua. Its processes exchange Lua values:
  a value is packed to MessagePack, written to a socket, received, unpacked and pushed on the stack
  of another Lua state, while a scheduler in each process polls the sockets and the queues of its
  threads. This development models that path. Paths below are relative to \<open>src/modules\<close>; the
  MessagePack library is read in \<open>core/src/msgpack/msgpack copy\<close>, whose C files are those of
  \<open>core/src/msgpack/vendor\<close>.

  \<^bold>\<open>The theories\<close>

  \<^item> \<open>Prelude\<close>: widths of words, \<open>option\<close> as the result of code that may go wrong (\<open>None\<close> is an access
    the C standard leaves undefined, or a loop that does not end), bounds-checked array access.
  \<^item> \<open>CMemory\<close>: the C heap. A heap maps block numbers to byte blocks or to list cells; \<open>malloc\<close>,
    \<open>realloc\<close>, \<open>calloc\<close> and \<open>free\<close> follow the standard, an oracle in the heap decides which requests
    are refused, and every access outside a live block is \<open>None\<close>. The doubling loops of the buffers.
  \<^item> \<open>CDouble\<close>: doubles as their 64 bits: equality, conversion of integers by rounding to even.
  \<^item> \<open>MsgpackSysdep\<close> (\<open>sysdep.h\<close>, the \<open>TAKE8\<close> macros): byte order, for either order of the host.
  \<^item> \<open>MsgpackObject\<close> (\<open>object.h\<close>, \<open>objectc.c\<close>): the tagged union of values, equality and printing.
  \<^item> \<open>MsgpackPack\<close> (\<open>pack_template.h\<close>, \<open>pack.h\<close>, \<open>msgpack_pack_object\<close>): one definition per
    packing function, over an arbitrary write callback (\<open>'s writer\<close>).
  \<^item> \<open>MsgpackFormat\<close>: the abstract side. \<open>mp_format\<close> is the wire format as an inductive relation between
    byte strings and values, \<open>mp_encode\<close> the encoding the packer chooses; the locale \<open>write_buffer\<close>
    is the contract of a callback that appends, and its lemmas say what every packing function
    appends through such a callback.
  \<^item> \<open>MsgpackZone\<close> (\<open>zone.h\<close>, \<open>zone.c\<close>): the region allocator on the heap: chunks, finalizers, clearing.
  \<^item> \<open>MsgpackUnpack\<close> (\<open>unpack_template.h\<close>, \<open>unpack_define.h\<close>, \<open>unpack.c\<close>): the resumable automaton with
    its stack of 32 open containers, as steps between the labels of the C code (\<open>template_step\<close>), the
    callbacks that build objects in a zone, \<open>msgpack_unpack\<close> and \<open>msgpack_unpack_next\<close>.
  \<^item> \<open>MsgpackDecode\<close>: the automaton against the format, and the round trip.
  \<^item> \<open>MsgpackBuffer\<close> (\<open>sbuffer.h\<close>, \<open>vrefbuffer.h\<close>, \<open>vrefbuffer.c\<close>): the two buffers a packer writes
    to. Both interpret \<open>write_buffer\<close>.
  \<^item> \<open>MsgpackUnpacker\<close> (\<open>unpack.c\<close>, \<open>unpack.h\<close>): the streaming unpacker with its reference-counted buffer.
  \<^item> \<open>LkMsgpack\<close> (\<open>core/src/msgpack/msgpack.cpp\<close>): Lua values to bytes and back, over the packer, the
    simple buffer and the unpacker.
  \<^item> \<open>LkFifo\<close> (\<open>core/include/lk/Fifo.h\<close>, \<open>Mutex.h\<close>): the queue that hands elements from other threads
    to Lua, as sequential functions and as steps of interleaved threads.
  \<^item> \<open>LkSocket\<close> (\<open>lk/include/lk/Socket.h\<close>, \<open>lk/src/more/socket.cpp\<close>): TCP and UDP sockets with a read
    buffer. The kernel is a record of functions (\<open>sys\<close>).
  \<^item> \<open>ZmqSocket\<close> (\<open>zmq/include/zmq/Socket.h\<close>, \<open>Context.h\<close>): the sockets that carry messages between
    processes, and the context they share. The ZeroMQ library is a record of functions on a world
    of its own type (\<open>'w zmq\<close>); times are rational numbers of seconds.
  \<^item> \<open>LjTab\<close> (\<open>lj_tab.c\<close>, \<open>lj_tab.h\<close>, \<open>lj_obj_equal\<close>, \<open>lua_rawset\<close>, in \<open>lk/src/lua/vendor_jit/src\<close>): the
    tables of the Lua states that send and receive. \<open>LjTabMap\<close> has the hash part as a map, \<open>LjTabSet\<close>
    the table as a map, \<open>LjTabRehash\<close> the resizing, \<open>LjTabWalk\<close> length and traversal.
  \<^item> \<open>LjErr\<close>: actions on a state that may throw, as LuaJIT's code does. \<open>LjStr\<close> (\<open>lj_str.c\<close>, the parts of
    \<open>lj_gc.c\<close> that sweep strings): comparison and interning of strings. \<open>LjStrTab\<close> has the invariant of the
    string table under interning, resizing and collection.
  \<^item> \<open>ZmqPoller\<close> (\<open>zmq/include/zmq/Poller.h\<close>, \<open>zmq/src/core/poller.cpp\<close>): the table of polled
    descriptors with its stable ids, and the interrupt hook.

  \<^bold>\<open>Correspondence\<close>

  Definitions keep the names of the C functions; a C++ method is prefixed with its class where the
  name alone is ambiguous (\<open>fifo_push\<close>, \<open>poller_remove\<close>, \<open>socket_bind\<close>). Structures are records with
  the fields of the source, integers are words of the width of the source where they wrap, and
  pointers are block numbers with an offset. A C++ exception is the left side of a sum. Loops that
  walk a list are structural recursion; the loops that end for a reason of arithmetic have a measure
  (nesting depth, bytes left, capacity), and the two loops that may run forever, the automaton and
  the doubling of a buffer's size, are partial functions whose termination is proved (\<open>template_run\<close>
  by \<open>machine_measure\<close>, \<open>double_until\<close> for requests a heap can grant). The walks along the chains of a
  table, and of the table of strings, are partial functions too; they end since the chains have no cycle. \<open>lj_tab_newkey\<close> and the
  setters call each other: \<open>lj_tab_newkey\<close> takes the number of times it may be entered, and two is
  enough because a table that has been resized has room for all its keys (\<open>rehashtab_room\<close>).

  \<^bold>\<open>What is shown\<close>

  \<^item> MessagePack: packing then unpacking is the identity, and the unpacker decodes every byte string of
    the format that nests at most 32 deep; it is safe on arbitrary bytes, and feeding it in pieces is
    feeding it at once. Deeper messages can be packed but not read back.
  \<^item> Memory: regions of a zone are disjoint and live, everything is freed once, and the places where
    the code reads freed memory or dereferences \<open>NULL\<close> are exhibited. Both buffers append what is
    written or report failure; the streaming unpacker keeps its unparsed input whenever it grows.
  \<^item> Lua: what one state sends another receives, across all the layers above.
  \<^item> Queue: a bounded first-in first-out queue, also under any interleaving of threads.
  \<^item> Sockets: reads parse the byte stream however the network cuts it, and a socket owns at most one
    descriptor; the error paths that lose data or descriptors are exhibited.
  \<^item> ZeroMQ sockets: the context lives as long as a socket does, a request ends, a message is freed or
    handed over.
  \<^item> Tables: whatever is stored in a new table is read back, the length is a border (what \<open>LkMsgpack\<close>
    assumes of \<open>luaL_getn\<close>), and a loop over \<open>next\<close> visits each entry once. The hash of a string is a
    parameter, fixed as long as the table has the string as a key; so the strings that the loop
    at the end of \<open>lj_tab_newkey\<close> chains again, whose key has been collected and its memory used for
    another string, do not occur.
  \<^item> Strings: equal bytes have one object whatever the collector does, which is what tables rely on when
    they compare references; a string that is found again while it is being collected is kept.
    An object's address is chosen by an arbitrary allocator that gives unused addresses only.
  \<^item> Poller: ids are a registry that survives removals, and \<open>events\<close> reports what was signalled.

  \<^bold>\<open>Not modelled\<close>

  The code generated by dub and its runtime, whose content is the Lua C API; the mdns classes, which
  are callbacks of the system's discovery libraries; the vendored Lua, LuaJIT (but for its
  tables and strings) and ZeroMQ libraries, which are parameters where the models call them; the C++ interface of MessagePack, which lubyk does
  not use. Error numbers are those of Linux (\<open>EAGAIN\<close> 11, \<open>EINPROGRESS\<close> 115). The text of exceptions
  is modelled where code depends on it only.
\<close>

end
